(* ===== verification/Prelude.thy ===== *)
theory Prelude
  imports Main "HOL-Library.Word"
begin

text \<open>
  Shared vocabulary of the development: machine integers, the two ways a Rust function can
  fail (a \<open>Result\<close> value and a panic), the \<open>Poll\<close> type of futures, the collections of
  rewrite rules, and the generic lemmas on these types that the component theories use.
\<close>

section \<open>Machine integers\<close>

type_synonym u8 = "8 word"
type_synonym u16 = "16 word"
type_synonym u32 = "32 word"
type_synonym u64 = "64 word"

type_synonym bytes = "u8 list"

section \<open>Errors as values\<close>

text \<open>
  \<open>smoltcp::Error\<close>: the variants the sources name, and one constructor that carries every other
  error of that library (the sources only pass those on, compare them with the named ones and
  log them).
\<close>

datatype smol_error = Exhausted | Dropped | Malformed | Unrecognized | OtherSmol nat

text \<open>\<open>std::io::Error\<close>, by the kinds the sources construct, and whatever the device returns.\<close>

datatype io_error = ConnectionAborted | WriteZero | IoOther smol_error | DeviceError nat

text \<open>
  Every place where the sources can panic: the asserts, the \<open>unwrap\<close> and \<open>expect\<close> calls, the
  slice and subtraction checks, and the documented panics of the calls into libraries.
\<close>

datatype panic =
    BufferNotEmpty
  | SliceOutOfRange
  | SelectorOccupied
  | ReaderFutureMissing
  | InstantOverflow
  | DelayKeyMissing
  | DelayRange
  | TimerError
  | QueueKeyMissing
  | ChannelClosed
  | SocketMissing
  | DispatchAfterDrop
  | DropAfterRemove
  | SocketNotRemoved
  | SocketAlreadyThere
  | ReplyNotSerialised
  | EmptyVec
  | IndexOutOfRange
  | ReceivingInProgress
  | WriterMissing
  | ReceiverNotTaken
  | NextPollSet
  | NoMoreSockets
  | AllTerminated
  | FdRefused
  | ClientExpect

text \<open>
  A computation either panics, and then the task is gone with its state, or it is done with
  a value. A Rust \<open>Result\<close> is the sum type, \<open>Inl\<close> the error.
\<close>

datatype 'a outcome = Panicked panic | Done 'a

type_synonym ('e, 'a) result = "'e + 'a"

datatype 'a poll = Ready 'a | Pending

text \<open>Sequencing: a panic skips the rest.\<close>

fun and_then :: "'a outcome \<Rightarrow> ('a \<Rightarrow> 'b outcome) \<Rightarrow> 'b outcome" where
  "and_then (Panicked p) f = Panicked p"
| "and_then (Done x) f = f x"

text \<open>\<open>unwrap\<close> and \<open>expect\<close>.\<close>

fun expect :: "panic \<Rightarrow> 'a option \<Rightarrow> 'a outcome" where
  "expect p None = Panicked p"
| "expect p (Some x) = Done x"

text \<open>\<open>Poll::map\<close> and the wrapping of a result in \<open>Ok\<close>.\<close>

fun poll_map :: "('a \<Rightarrow> 'b) \<Rightarrow> 'a poll \<Rightarrow> 'b poll" where
  "poll_map f (Ready x) = Ready (f x)"
| "poll_map f Pending = Pending"

fun no_panic :: "'a outcome \<Rightarrow> bool" where
  "no_panic (Panicked p) = False"
| "no_panic (Done x) = True"

section \<open>Rule collections and shared lemmas\<close>

named_theorems run_simps \<open>equations that execute one operation of the model\<close>
named_theorems frame_simps \<open>fields an operation leaves as they are\<close>

lemma and_then_Done_iff:
  "and_then m f = Done y \<longleftrightarrow> (\<exists>x. m = Done x \<and> f x = Done y)"
  by (cases m) auto

lemma and_then_Panicked_iff:
  "and_then m f = Panicked p \<longleftrightarrow> m = Panicked p \<or> (\<exists>x. m = Done x \<and> f x = Panicked p)"
  by (cases m) auto

lemma and_then_DoneE [elim!]:
  assumes "and_then m f = Done y"
  obtains x where "m = Done x" and "f x = Done y"
  using assms by (cases m) auto

lemma and_then_assoc:
  "and_then (and_then m f) g = and_then m (\<lambda>x. and_then (f x) g)"
  by (cases m) auto

lemma and_then_cong:
  "(\<And>x. m = Done x \<Longrightarrow> f x = g x) \<Longrightarrow> and_then m f = and_then m g"
  by (cases m) auto

lemma and_then_Done [simp]: "and_then m Done = m"
  by (cases m) auto

lemma expect_Done_iff [simp]: "expect p m = Done x \<longleftrightarrow> m = Some x"
  by (cases m) auto

lemma expect_Panicked_iff [simp]: "expect p m = Panicked q \<longleftrightarrow> m = None \<and> q = p"
  by (cases m) auto

lemma no_panic_iff: "no_panic m \<longleftrightarrow> (\<exists>x. m = Done x)"
  by (cases m) auto

lemma no_panicE [elim]:
  assumes "no_panic m"
  obtains x where "m = Done x"
  using assms by (cases m) auto

lemma no_panic_and_then [simp]:
  "no_panic (and_then m f) \<longleftrightarrow> (\<exists>x. m = Done x \<and> no_panic (f x))"
  by (cases m) auto

lemma no_panic_expect [simp]: "no_panic (expect p m) \<longleftrightarrow> m \<noteq> None"
  by (cases m) auto

lemma poll_map_Ready_iff: "poll_map f p = Ready y \<longleftrightarrow> (\<exists>x. p = Ready x \<and> y = f x)"
  by (cases p) auto

lemma poll_map_Pending_iff [simp]: "poll_map f p = Pending \<longleftrightarrow> p = Pending"
  by (cases p) auto

text \<open>Counting occurrences in the message lists of the channels.\<close>

lemma count_list_snoc [simp]: "count_list (xs @ [y]) x = count_list xs x + (if x = y then 1 else 0)"
  by (induction xs) auto

lemma count_list_0_iff': "count_list xs x = 0 \<longleftrightarrow> x \<notin> set xs"
  by (simp add: count_list_0_iff)

lemma count_list_distinct: "distinct xs \<Longrightarrow> count_list xs x = of_bool (x \<in> set xs)"
  by (induction xs) auto

end
