(* ===== verification/Clock.thy ===== *)
theory Clock
  imports Prelude
begin

text \<open>
  The clock of \<open>src/ustunet/src/time.rs\<close>: it converts between the monotonic instants of the
  standard library and the millisecond time stamps of the TCP stack.

  A \<open>std::time::Instant\<close> is a number of nanoseconds since some fixed point of the platform; adding
  a duration panics when the seconds leave the range of the platform's signed 64-bit counter.
  The stack's time stamp wraps a 64-bit signed number of milliseconds.
\<close>

section \<open>Instants, durations and the clock\<close>

type_synonym instant = nat
type_synonym duration = nat
type_synonym smol_instant = u64

definition nanos_per_sec :: nat where
  "nanos_per_sec = 1000000000"

definition nanos_per_milli :: nat where
  "nanos_per_milli = 1000000"

definition instant_limit :: nat where
  "instant_limit = 2 ^ 63 * nanos_per_sec"

record clock =
  start_time :: instant

definition Clock_new :: "instant \<Rightarrow> clock" where
  "Clock_new now = \<lparr>start_time = now\<rparr>"

definition origin :: "clock \<Rightarrow> instant" where
  "origin c = start_time c"

text \<open>\<open>Instant::elapsed\<close> saturates at zero; \<open>as_secs\<close> and \<open>subsec_millis\<close> split a duration.\<close>

definition elapsed :: "clock \<Rightarrow> instant \<Rightarrow> duration" where
  "elapsed c now = now - start_time c"

definition as_secs :: "duration \<Rightarrow> u64" where
  "as_secs d = of_nat (d div nanos_per_sec)"

definition subsec_millis :: "duration \<Rightarrow> u64" where
  "subsec_millis d = of_nat (d mod nanos_per_sec div nanos_per_milli)"

text \<open>
  The arithmetic wraps as in a release build. A debug build panics where it would wrap, beyond the
  range of the theorems below, in which the sum is exact.
\<close>

definition timestamp :: "clock \<Rightarrow> instant \<Rightarrow> smol_instant" where
  "timestamp c now =
     (let e = elapsed c now
      in as_secs e * 1000 + subsec_millis e)"

text \<open>
  The cast of the signed milliseconds to \<open>u64\<close> keeps the bits, so a negative time stamp becomes
  a huge duration; the addition to the start instant then panics.
\<close>

definition resolve :: "clock \<Rightarrow> smol_instant \<Rightarrow> instant outcome" where
  "resolve c ts =
     (let t = start_time c + unat ts * nanos_per_milli
      in if t < instant_limit then Done t else Panicked InstantOverflow)"

section \<open>What the conversions compute\<close>

lemmas nanos_simps = nanos_per_sec_def nanos_per_milli_def

lemma millis_split:
  "d div nanos_per_sec * 1000 + d mod nanos_per_sec div nanos_per_milli = d div nanos_per_milli"
proof -
  have "d div 1000000 = (1000000000 * (d div 1000000000) + d mod 1000000000) div (1000000::nat)"
    by simp
  also have "\<dots> = d div 1000000000 * 1000 + d mod 1000000000 div 1000000"
    by (simp only: div_mult_self3 [symmetric])
  finally show ?thesis
    by (simp add: nanos_simps)
qed

text \<open>Under two's complement the sum of the two parts is the number of elapsed milliseconds.\<close>

lemma timestamp_word: "timestamp c now = of_nat (elapsed c now div nanos_per_milli)"
proof -
  have "timestamp c now =
      of_nat (elapsed c now div nanos_per_sec * 1000
        + elapsed c now mod nanos_per_sec div nanos_per_milli)"
    by (simp add: timestamp_def as_secs_def subsec_millis_def Let_def)
  then show ?thesis
    by (simp only: millis_split)
qed

lemma unat_timestamp:
  assumes "elapsed c now div nanos_per_milli < 2 ^ 64"
  shows "unat (timestamp c now) = elapsed c now div nanos_per_milli"
  using assms by (simp add: timestamp_word unat_of_nat)

lemma resolve_Done_iff:
  "resolve c ts = Done t \<longleftrightarrow>
     t = start_time c + unat ts * nanos_per_milli \<and> t < instant_limit"
  by (auto simp: resolve_def Let_def)

lemma resolve_ge_origin: "resolve c ts = Done t \<Longrightarrow> origin c \<le> t"
  by (simp add: resolve_Done_iff origin_def)

lemma resolve_mono:
  assumes "resolve c ts = Done t" and "resolve c ts' = Done t'" and "ts \<le> ts'"
  shows "t \<le> t'"
  using assms by (auto simp: resolve_Done_iff word_le_nat_alt intro: mult_right_mono)

lemma now_within_limit:
  assumes "start_time c \<le> now" and "now < instant_limit"
  shows "elapsed c now div nanos_per_milli < 2 ^ 63 * 1000"
  using assms by (simp add: elapsed_def instant_limit_def nanos_simps)

section \<open>Properties of the clock\<close>

text \<open>
  (C33) The time stamp is exact: as long as the elapsed milliseconds fit the signed 64-bit number
  of the stack, reading it as a signed number gives the whole milliseconds since the start, so
  no multiplication or addition in the conversion wraps visibly.
\<close>

theorem timestamp_exact:
  assumes "elapsed c now div nanos_per_milli < 2 ^ 63"
  shows "sint (timestamp c now) = int (elapsed c now div nanos_per_milli)"
  using assms by (simp add: timestamp_word signed_of_nat signed_take_bit_int_eq_self)

theorem timestamp_exact_witness:
  "sint (timestamp (Clock_new 5) 3000005) = 3"
  using timestamp_exact [of "Clock_new 5" 3000005]
  by (simp add: elapsed_def Clock_new_def nanos_simps)

text \<open>
  (C32) Round trip: the instant a time stamp resolves to is the moment the stamp was taken, rounded
  down to a millisecond of the clock. It is never later, and less than a millisecond earlier.
\<close>

theorem resolve_timestamp:
  assumes "start_time c \<le> now" and "now < instant_limit"
    and "elapsed c now div nanos_per_milli < 2 ^ 64"
  shows "\<exists>t. resolve c (timestamp c now) = Done t \<and> t \<le> now \<and> now < t + nanos_per_milli"
proof -
  let ?e = "elapsed c now"
  have "start_time c + ?e div nanos_per_milli * nanos_per_milli \<le> now"
    using assms(1) by (simp add: elapsed_def nanos_simps)
  moreover have "now < start_time c + ?e div nanos_per_milli * nanos_per_milli + nanos_per_milli"
    using assms(1) by (simp add: elapsed_def nanos_simps)
  ultimately show ?thesis
    using assms(2) by (simp add: resolve_def unat_timestamp [OF assms(3)] Let_def)
qed

theorem resolve_timestamp_witness:
  "\<exists>t. resolve (Clock_new 5) (timestamp (Clock_new 5) 3000006) = Done t \<and> t \<le> 3000006
     \<and> 3000006 < t + nanos_per_milli"
  using resolve_timestamp [of "Clock_new 5" 3000006]
  by (simp add: elapsed_def Clock_new_def nanos_simps instant_limit_def)

end
