(* ===== verification/Smoltcp.thy ===== *)
theory Smoltcp
  imports Clock
begin

text \<open>
  The data that crosses the border to the \<open>smoltcp\<close> library, and the library itself as two
  records of functions. The library is not part of the repository: every definition that calls
  it takes the record as an argument, and what a theorem needs of it is a hypothesis.

  \<^item> \<open>wire_api\<close> holds the packet parsers and printers (\<open>smoltcp::wire\<close>).
  \<^item> \<open>tcp_api\<close> holds the operations of \<open>TcpSocket\<close>, over an arbitrary socket state \<open>'s\<close>.

  The parts of a packet that no code of the repository reads are kept as opaque bytes.
\<close>

section \<open>Addresses, endpoints and socket addresses\<close>

type_synonym ipv4_address = "u8 \<times> u8 \<times> u8 \<times> u8"
type_synonym ipv6_address = "128 word"

datatype ip_address = Ipv4 ipv4_address | Ipv6 ipv6_address | UnspecifiedAddr

record ip_endpoint =
  ep_addr :: ip_address
  ep_port :: u16

text \<open>\<open>std::net::SocketAddr\<close>, by octets or by the eight segments.\<close>

datatype socket_addr = SockV4 ipv4_address u16 | SockV6 "u16 list" u16

section \<open>Packets\<close>

datatype ip_protocol = ProtoTcp | ProtoOther u8

record ipv4_repr =
  v4_src_addr :: ipv4_address
  v4_dst_addr :: ipv4_address
  v4_protocol :: ip_protocol
  v4_rest :: bytes

record ipv6_repr =
  v6_src_addr :: ipv6_address
  v6_dst_addr :: ipv6_address
  v6_next_header :: ip_protocol
  v6_rest :: bytes

datatype ip_repr =
    IpReprV4 ipv4_repr
  | IpReprV6 ipv6_repr
  | IpReprUnspecified ip_address ip_address bytes

fun ip_src_addr :: "ip_repr \<Rightarrow> ip_address" where
  "ip_src_addr (IpReprV4 r) = Ipv4 (v4_src_addr r)"
| "ip_src_addr (IpReprV6 r) = Ipv6 (v6_src_addr r)"
| "ip_src_addr (IpReprUnspecified s d x) = s"

fun ip_dst_addr :: "ip_repr \<Rightarrow> ip_address" where
  "ip_dst_addr (IpReprV4 r) = Ipv4 (v4_dst_addr r)"
| "ip_dst_addr (IpReprV6 r) = Ipv6 (v6_dst_addr r)"
| "ip_dst_addr (IpReprUnspecified s d x) = d"

datatype tcp_control = CtlNone | CtlPsh | CtlSyn | CtlFin | CtlRst

record tcp_repr =
  src_port :: u16
  dst_port :: u16
  control :: tcp_control
  ack_number :: "u32 option"
  tcp_rest :: bytes

type_synonym tcp_packet = "ip_repr \<times> tcp_repr"
type_synonym reply = "tcp_packet option"

text \<open>\<open>smoltcp::iface::IpPacket\<close>: the sources only build and match the TCP variant.\<close>

datatype ip_packet = PacketTcp tcp_packet | PacketOther bytes

type_synonym checksum_caps = bytes

record device_capabilities =
  max_transmission_unit :: nat
  checksum :: checksum_caps

section \<open>Polling times\<close>

datatype poll_at = Now | Time smol_instant | Ingress

text \<open>
  The library orders polling times by urgency: now, then by (signed) time, then never.
\<close>

fun poll_rank :: "poll_at \<Rightarrow> nat \<times> int" where
  "poll_rank Now = (0, 0)"
| "poll_rank (Time t) = (1, sint t)"
| "poll_rank Ingress = (2, 0)"

lemma poll_rank_inject: "poll_rank a = poll_rank b \<longleftrightarrow> a = b"
  by (cases a; cases b) (auto simp: signed_word_eqI)

instantiation poll_at :: linorder
begin

definition less_eq_poll_at :: "poll_at \<Rightarrow> poll_at \<Rightarrow> bool" where
  "less_eq_poll_at a b \<longleftrightarrow>
     fst (poll_rank a) < fst (poll_rank b)
     \<or> fst (poll_rank a) = fst (poll_rank b) \<and> snd (poll_rank a) \<le> snd (poll_rank b)"

definition less_poll_at :: "poll_at \<Rightarrow> poll_at \<Rightarrow> bool" where
  "less_poll_at a b \<longleftrightarrow> a \<le> b \<and> \<not> b \<le> a"

instance
proof
  fix a b c :: poll_at
  show "a < b \<longleftrightarrow> a \<le> b \<and> \<not> b \<le> a"
    by (simp add: less_poll_at_def)
  show "a \<le> a"
    by (simp add: less_eq_poll_at_def)
  show "a \<le> b \<Longrightarrow> b \<le> c \<Longrightarrow> a \<le> c"
    by (auto simp: less_eq_poll_at_def)
  show "a \<le> b \<Longrightarrow> b \<le> a \<Longrightarrow> a = b"
    by (auto simp: less_eq_poll_at_def prod_eq_iff simp flip: poll_rank_inject)
  show "a \<le> b \<or> b \<le> a"
    by (auto simp: less_eq_poll_at_def)
qed

end

lemma poll_at_le_simps [simp]:
  "Now \<le> p" "p \<le> Ingress" "Time s \<le> Time t \<longleftrightarrow> sint s \<le> sint t"
  "\<not> Time t \<le> Now" "\<not> Ingress \<le> Now" "\<not> Ingress \<le> Time t"
  by (cases p; simp add: less_eq_poll_at_def)+

section \<open>The packet parsers and printers\<close>

record wire_api =
  v6_write_parts :: "ipv6_address \<Rightarrow> u16 list"
  addr_is_unspecified :: "ip_address \<Rightarrow> bool"
  ep_is_specified :: "ip_endpoint \<Rightarrow> bool"
  v4_is_unicast :: "ipv4_address \<Rightarrow> bool"
  v6_is_unicast :: "ipv6_address \<Rightarrow> bool"
  v4_new_checked :: "bytes \<Rightarrow> (smol_error, bytes) result"
  v4_parse :: "bytes \<Rightarrow> checksum_caps \<Rightarrow> (smol_error, ipv4_repr) result"
  v4_payload :: "bytes \<Rightarrow> bytes"
  v6_new_checked :: "bytes \<Rightarrow> (smol_error, bytes) result"
  v6_parse :: "bytes \<Rightarrow> (smol_error, ipv6_repr) result"
  v6_payload :: "bytes \<Rightarrow> bytes"
  tcp_new_checked :: "bytes \<Rightarrow> (smol_error, bytes) result"
  tcp_parse ::
    "bytes \<Rightarrow> ip_address \<Rightarrow> ip_address \<Rightarrow> checksum_caps \<Rightarrow> (smol_error, tcp_repr) result"
  ip_lower :: "ip_repr \<Rightarrow> (smol_error, ip_repr) result"
  ip_total_len :: "ip_repr \<Rightarrow> nat"
  ip_buffer_len :: "ip_repr \<Rightarrow> nat"
  ip_emit :: "ip_repr \<Rightarrow> bytes \<Rightarrow> checksum_caps \<Rightarrow> bytes"
  tcp_emit ::
    "tcp_repr \<Rightarrow> bytes \<Rightarrow> ip_address \<Rightarrow> ip_address \<Rightarrow> checksum_caps \<Rightarrow> bytes"

section \<open>The TCP socket\<close>

datatype tcp_state =
    Closed | Listen | SynSent | SynReceived | Established | FinWait1 | FinWait2
  | CloseWait | Closing | LastAck | TimeWait

text \<open>
  \<open>TcpSocket::dispatch\<close> takes a closure that can be called once at most (\<open>FnOnce\<close>). A run
  of it therefore either returns without a call, or it calls the closure on a packet
  and goes on with what the closure returned.
\<close>

datatype 's dispatch_run =
    NoEmit "(smol_error, unit) result" 's
  | Emit tcp_packet "(smol_error, unit) result \<Rightarrow> (smol_error, unit) result \<times> 's"

record 's tcp_api =
  sk_new :: "nat \<Rightarrow> nat \<Rightarrow> 's"
  sk_is_open :: "'s \<Rightarrow> bool"
  sk_listen :: "'s \<Rightarrow> socket_addr \<Rightarrow> (smol_error, 's) result"
  sk_set_ack_delay :: "'s \<Rightarrow> nat option \<Rightarrow> 's"
  sk_state :: "'s \<Rightarrow> tcp_state"
  sk_local_endpoint :: "'s \<Rightarrow> ip_endpoint"
  sk_remote_endpoint :: "'s \<Rightarrow> ip_endpoint"
  sk_can_recv :: "'s \<Rightarrow> bool"
  sk_may_recv :: "'s \<Rightarrow> bool"
  sk_can_send :: "'s \<Rightarrow> bool"
  sk_may_send :: "'s \<Rightarrow> bool"
  sk_recv_slice :: "'s \<Rightarrow> bytes \<Rightarrow> (smol_error, nat) result \<times> bytes \<times> 's"
  sk_send_slice :: "'s \<Rightarrow> bytes \<Rightarrow> (smol_error, nat) result \<times> 's"
  sk_close :: "'s \<Rightarrow> 's"
  sk_poll_at :: "'s \<Rightarrow> poll_at"
  sk_process :: "'s \<Rightarrow> smol_instant \<Rightarrow> ip_repr \<Rightarrow> tcp_repr \<Rightarrow> (smol_error, reply) result \<times> 's"
  sk_dispatch :: "'s \<Rightarrow> smol_instant \<Rightarrow> device_capabilities \<Rightarrow> 's dispatch_run"

end
