(* ===== verification/Sample_Stack.thy ===== *)
theory Sample_Stack
  imports Smoltcp
begin

text \<open>
  Concrete libraries for the examples: packet parsers and printers for a small header format, and
  a socket with the states and buffers of a TCP connection but no sequence numbers.
  They show that the laws of the interfaces can hold together; no theorem about the repository's
  code is about them alone.
\<close>

section \<open>Wire format\<close>

definition nth_byte :: "bytes \<Rightarrow> nat \<Rightarrow> u8" where
  "nth_byte b i = (if i < length b then b ! i else 0)"

fun control_code :: "tcp_control \<Rightarrow> u8" where
  "control_code CtlNone = 0"
| "control_code CtlPsh = 1"
| "control_code CtlSyn = 2"
| "control_code CtlFin = 3"
| "control_code CtlRst = 4"

definition control_of :: "u8 \<Rightarrow> tcp_control" where
  "control_of x = (if x = 1 then CtlPsh else if x = 2 then CtlSyn else if x = 3 then CtlFin
     else if x = 4 then CtlRst else CtlNone)"

definition v6_parts :: "ipv6_address \<Rightarrow> u16 list" where
  "v6_parts a = map (\<lambda>i. ucast (drop_bit (16 * i) a)) [7, 6, 5, 4, 3, 2, 1, 0]"

fun sample_lower :: "ip_repr \<Rightarrow> (smol_error, ip_repr) result" where
  "sample_lower (IpReprUnspecified (Ipv4 s) (Ipv4 d) x) =
     Inr (IpReprV4 \<lparr>v4_src_addr = s, v4_dst_addr = d, v4_protocol = ProtoTcp, v4_rest = x\<rparr>)"
| "sample_lower (IpReprUnspecified (Ipv6 s) (Ipv6 d) x) =
     Inr (IpReprV6 \<lparr>v6_src_addr = s, v6_dst_addr = d, v6_next_header = ProtoTcp, v6_rest = x\<rparr>)"
| "sample_lower (IpReprUnspecified s d x) = Inl (OtherSmol 1)"
| "sample_lower r = Inr r"

fun sample_header :: "ip_repr \<Rightarrow> bytes" where
  "sample_header (IpReprV4 r) =
     (case (v4_src_addr r, v4_dst_addr r) of
        ((a, b, c, d), (e, f, g, h)) \<Rightarrow> [64, a, b, c, d, e, f, g, h, 6])"
| "sample_header r = [96, 0, 0, 0, 0, 0, 0, 0, 0, 6]"

definition sample_v4_parse :: "bytes \<Rightarrow> ipv4_repr" where
  "sample_v4_parse b =
     \<lparr>v4_src_addr = (nth_byte b 1, nth_byte b 2, nth_byte b 3, nth_byte b 4),
      v4_dst_addr = (nth_byte b 5, nth_byte b 6, nth_byte b 7, nth_byte b 8),
      v4_protocol = (if nth_byte b 9 = 6 then ProtoTcp else ProtoOther (nth_byte b 9)),
      v4_rest = []\<rparr>"

definition sample_tcp_parse :: "bytes \<Rightarrow> tcp_repr" where
  "sample_tcp_parse b =
     \<lparr>src_port = ucast (nth_byte b 0), dst_port = ucast (nth_byte b 1),
      control = control_of (nth_byte b 2),
      ack_number = (if nth_byte b 3 = 0 then None else Some (ucast (nth_byte b 3))),
      tcp_rest = drop 4 b\<rparr>"

definition sample_wire :: wire_api where
  "sample_wire =
     \<lparr>v6_write_parts = v6_parts,
      addr_is_unspecified = (\<lambda>a. a = UnspecifiedAddr \<or> a = Ipv4 (0, 0, 0, 0) \<or> a = Ipv6 0),
      ep_is_specified = (\<lambda>e. ep_addr e \<noteq> UnspecifiedAddr \<and> ep_port e \<noteq> 0),
      v4_is_unicast = (\<lambda>(a, b, c, d). a \<noteq> 0 \<and> a < 224),
      v6_is_unicast = (\<lambda>a. a \<noteq> 0),
      v4_new_checked = (\<lambda>b. if length b < 14 then Inl (OtherSmol 2) else Inr b),
      v4_parse = (\<lambda>b caps. Inr (sample_v4_parse b)),
      v4_payload = drop 10,
      v6_new_checked = (\<lambda>b. Inl (OtherSmol 2)),
      v6_parse = (\<lambda>b. Inl (OtherSmol 2)),
      v6_payload = drop 10,
      tcp_new_checked = (\<lambda>b. if length b < 4 then Inl (OtherSmol 2) else Inr b),
      tcp_parse = (\<lambda>b s d caps. Inr (sample_tcp_parse b)),
      ip_lower = sample_lower,
      ip_total_len = (\<lambda>r. 14),
      ip_buffer_len = (\<lambda>r. 10),
      ip_emit = (\<lambda>r b caps. take (length b) (sample_header r @ b)),
      tcp_emit = (\<lambda>t b s d caps. take (length b)
        ([ucast (src_port t), ucast (dst_port t), control_code (control t),
          (case ack_number t of None \<Rightarrow> 0 | Some n \<Rightarrow> ucast n)] @ b))\<rparr>"

section \<open>A socket\<close>

record sock =
  so_state :: tcp_state
  so_local :: ip_endpoint
  so_remote :: ip_endpoint
  so_rx :: bytes
  so_tx :: bytes
  so_rx_size :: nat
  so_tx_size :: nat
  so_pending :: bool
  so_in_flight :: bool

definition no_endpoint :: ip_endpoint where
  "no_endpoint = \<lparr>ep_addr = UnspecifiedAddr, ep_port = 0\<rparr>"

fun endpoint_of :: "socket_addr \<Rightarrow> ip_endpoint" where
  "endpoint_of (SockV4 a p) = \<lparr>ep_addr = Ipv4 a, ep_port = p\<rparr>"
| "endpoint_of (SockV6 a p) = \<lparr>ep_addr = UnspecifiedAddr, ep_port = p\<rparr>"

definition so_open :: "sock \<Rightarrow> bool" where
  "so_open s \<longleftrightarrow> so_state s \<notin> {Closed, TimeWait}"

definition sock_process :: "sock \<Rightarrow> ip_repr \<Rightarrow> tcp_repr \<Rightarrow> (smol_error, reply) result \<times> sock" where
  "sock_process s ip t =
     (if control t = CtlRst then
        (Inr None, s\<lparr>so_state := Closed, so_remote := no_endpoint, so_pending := False,
                     so_in_flight := False\<rparr>)
      else if so_state s = Listen \<and> control t = CtlSyn then
        (Inr None, s\<lparr>so_state := SynReceived, so_pending := True,
                     so_remote := \<lparr>ep_addr = ip_src_addr ip, ep_port = src_port t\<rparr>\<rparr>)
      else if so_state s = SynReceived \<and> ack_number t \<noteq> None then
        (Inr None, s\<lparr>so_state := Established, so_in_flight := False\<rparr>)
      else if so_state s = Established then
        (Inr (Some (IpReprUnspecified (ip_dst_addr ip) (ip_src_addr ip) [],
               t\<lparr>src_port := dst_port t, dst_port := src_port t, control := CtlNone,
                 ack_number := Some 1, tcp_rest := []\<rparr>)),
         s\<lparr>so_rx := so_rx s @ take (so_rx_size s - length (so_rx s)) (tcp_rest t),
           so_in_flight := False,
           so_state := (if control t = CtlFin then CloseWait else Established)\<rparr>)
      else (Inl Dropped, s))"

definition sock_packet :: "sock \<Rightarrow> tcp_packet" where
  "sock_packet s =
     (IpReprUnspecified (ep_addr (so_local s)) (ep_addr (so_remote s)) [],
      \<lparr>src_port = ep_port (so_local s), dst_port = ep_port (so_remote s),
       control = (if so_state s = SynReceived then CtlSyn else CtlPsh),
       ack_number = Some 1, tcp_rest = so_tx s\<rparr>)"

definition sock_dispatch :: "sock \<Rightarrow> sock dispatch_run" where
  "sock_dispatch s =
     (if so_remote s \<noteq> no_endpoint \<and> (so_pending s \<or> so_tx s \<noteq> []) then
        Emit (sock_packet s)
          (\<lambda>r. case r of
                 Inl e \<Rightarrow> (Inl e, s)
               | Inr _ \<Rightarrow> (Inr (), s\<lparr>so_tx := [], so_pending := False, so_in_flight := True\<rparr>))
      else NoEmit (Inl Exhausted) s)"

definition sample_tcp :: "sock tcp_api" where
  "sample_tcp =
     \<lparr>sk_new = (\<lambda>rx tx. \<lparr>so_state = Closed, so_local = no_endpoint, so_remote = no_endpoint,
        so_rx = [], so_tx = [], so_rx_size = rx, so_tx_size = tx, so_pending = False,
        so_in_flight = False\<rparr>),
      sk_is_open = so_open,
      sk_listen = (\<lambda>s a. if ep_port (endpoint_of a) = 0 then Inl (OtherSmol 1)
        else Inr (s\<lparr>so_state := Listen, so_local := endpoint_of a\<rparr>)),
      sk_set_ack_delay = (\<lambda>s d. s),
      sk_state = so_state, sk_local_endpoint = so_local, sk_remote_endpoint = so_remote,
      sk_can_recv = (\<lambda>s. so_rx s \<noteq> []),
      sk_may_recv = (\<lambda>s. so_state s \<in> {Established, FinWait1, FinWait2} \<or> so_rx s \<noteq> []),
      sk_can_send = (\<lambda>s. so_state s \<in> {Established, CloseWait} \<and> length (so_tx s) < so_tx_size s),
      sk_may_send = (\<lambda>s. so_state s \<in> {Established, CloseWait}),
      sk_recv_slice = (\<lambda>s buf. let n = min (length (so_rx s)) (length buf)
        in (Inr n, take n (so_rx s) @ drop n buf, s\<lparr>so_rx := drop n (so_rx s)\<rparr>)),
      sk_send_slice = (\<lambda>s buf. let n = min (so_tx_size s - length (so_tx s)) (length buf)
        in (Inr n, s\<lparr>so_tx := so_tx s @ take n buf\<rparr>)),
      sk_close = (\<lambda>s. if so_state s \<in> {Established, SynReceived}
        then s\<lparr>so_state := FinWait1, so_pending := True\<rparr> else s),
      sk_poll_at = (\<lambda>s. if so_remote s = no_endpoint then Ingress
        else if so_pending s \<or> so_tx s \<noteq> [] then Now
        else if so_in_flight s then Time 0 else Ingress),
      sk_process = (\<lambda>s ts ip t. sock_process s ip t),
      sk_dispatch = (\<lambda>s ts caps. sock_dispatch s)\<rparr>"

section \<open>Segments\<close>

text \<open>The eight segments determine the address.\<close>

lemma v6_parts_inject:
  assumes "v6_parts a = v6_parts b"
  shows "a = b"
proof (rule bit_word_eqI)
  fix n
  assume n: "n < LENGTH(128)"
  have eq: "(ucast (drop_bit (16 * i) a) :: u16) = ucast (drop_bit (16 * i) b)" if "i < 8" for i :: nat
  proof -
    from that have "i \<in> set [7, 6, 5, 4, 3, 2, 1, 0]" by auto
    with assms show ?thesis
      unfolding v6_parts_def map_eq_conv by blast
  qed
  have "n div 16 < 8" "n mod 16 < 16" "16 * (n div 16) + n mod 16 = n"
    using n by auto
  with eq [of "n div 16"] have "bit (ucast (drop_bit (16 * (n div 16)) a) :: u16) (n mod 16) =
      bit (ucast (drop_bit (16 * (n div 16)) b) :: u16) (n mod 16)"
    by simp
  then show "bit a n = bit b n"
    using \<open>n mod 16 < 16\<close> \<open>16 * (n div 16) + n mod 16 = n\<close>
    by (simp add: bit_ucast_iff bit_drop_bit_eq)
qed

end
