(* ===== verification/Addresses.thy ===== *)
theory Addresses
  imports Sample_Stack
begin

text \<open>
  The conversion of the stack's addresses to socket addresses (\<open>convert_to_socket_address\<close> of
  \<open>src/ustunet/src/util.rs\<close>) and the pair of socket addresses that identifies a connection
  (\<open>AddrPair\<close> of \<open>src/ustunet/src/sockets/mod.rs\<close>). The pool looks connections up by that
  pair, so two different flows must never be given the same pair: the conversion is injective.
\<close>

section \<open>Converting an address\<close>

fun convert_to_socket_address ::
    "wire_api \<Rightarrow> ip_address \<Rightarrow> u16 \<Rightarrow> (smol_error, socket_addr) result" where
  "convert_to_socket_address W (Ipv4 v4) port = Inr (SockV4 v4 port)"
| "convert_to_socket_address W (Ipv6 v6) port = Inr (SockV6 (v6_write_parts W v6) port)"
| "convert_to_socket_address W UnspecifiedAddr port = Inl Unrecognized"

record addr_pair =
  peer :: socket_addr
  local_side :: socket_addr

text \<open>\<open>SocketHandle\<close> is another name of the pair.\<close>

type_synonym socket_handle = addr_pair

text \<open>The pair of a packet, as \<open>SocketPool::process\<close> builds it.\<close>

definition packet_pair ::
    "wire_api \<Rightarrow> ip_repr \<Rightarrow> tcp_repr \<Rightarrow> (smol_error, addr_pair) result" where
  "packet_pair W ip t =
     (case convert_to_socket_address W (ip_src_addr ip) (src_port t) of
        Inl e \<Rightarrow> Inl e
      | Inr src \<Rightarrow>
          (case convert_to_socket_address W (ip_dst_addr ip) (dst_port t) of
             Inl e \<Rightarrow> Inl e
           | Inr dst \<Rightarrow> Inr \<lparr>peer = src, local_side = dst\<rparr>))"

section \<open>The conversion as an interface\<close>

text \<open>
  What the pool relies on: the eight segments of an IPv6 address determine it.
\<close>

locale address_parts =
  fixes W :: wire_api
  assumes write_parts_inject: "v6_write_parts W a = v6_write_parts W b \<Longrightarrow> a = b"
begin

lemma convert_inject:
  assumes "convert_to_socket_address W a p = Inr s"
    and "convert_to_socket_address W a' p' = Inr s"
  shows "a = a' \<and> p = p'"
  using assms by (cases a; cases a') (auto dest: write_parts_inject)

lemma packet_pair_inject:
  assumes "packet_pair W ip t = Inr h" and "packet_pair W ip' t' = Inr h"
  shows "ip_src_addr ip = ip_src_addr ip' \<and> ip_dst_addr ip = ip_dst_addr ip'
    \<and> src_port t = src_port t' \<and> dst_port t = dst_port t'"
  using assms
  by (auto simp: packet_pair_def split: sum.splits dest: convert_inject)

end

lemma convert_Inl_iff:
  "convert_to_socket_address W a p = Inl e \<longleftrightarrow> a = UnspecifiedAddr \<and> e = Unrecognized"
  by (cases a) auto

lemma packet_pair_Inl_iff:
  "packet_pair W ip t = Inl e \<longleftrightarrow>
     (ip_src_addr ip = UnspecifiedAddr \<or> ip_dst_addr ip = UnspecifiedAddr) \<and> e = Unrecognized"
  by (auto simp: packet_pair_def convert_Inl_iff split: sum.splits dest: sym)

interpretation sample_addr: address_parts sample_wire
  by unfold_locales (simp add: sample_wire_def v6_parts_inject)

section \<open>Properties of the addresses\<close>

text \<open>
  Two packets are given the same pair only when they agree in both addresses and both
  ports: a connection never receives the packets of another flow.
\<close>

theorem packet_pair_identifies_flow:
  assumes "address_parts W" and "packet_pair W ip t = Inr h" and "packet_pair W ip' t' = Inr h"
  shows "ip_src_addr ip = ip_src_addr ip' \<and> ip_dst_addr ip = ip_dst_addr ip'
    \<and> src_port t = src_port t' \<and> dst_port t = dst_port t'"
  using assms by (rule address_parts.packet_pair_inject)

theorem packet_pair_identifies_flow_witness:
  "(let ip = IpReprV4 \<lparr>v4_src_addr = (10, 0, 0, 1), v4_dst_addr = (10, 0, 0, 2), v4_protocol = ProtoTcp,
       v4_rest = []\<rparr>;
     t = \<lparr>src_port = 5, dst_port = 80, control = CtlSyn, ack_number = None, tcp_rest = []\<rparr>
    in packet_pair sample_wire ip t = packet_pair sample_wire ip (t\<lparr>control := CtlFin\<rparr>)
      \<and> src_port t = src_port (t\<lparr>control := CtlFin\<rparr>))"
  using packet_pair_identifies_flow [OF sample_addr.address_parts_axioms,
      of "IpReprV4 \<lparr>v4_src_addr = (10, 0, 0, 1), v4_dst_addr = (10, 0, 0, 2), v4_protocol = ProtoTcp,
       v4_rest = []\<rparr>"
      "\<lparr>src_port = 5, dst_port = 80, control = CtlSyn, ack_number = None, tcp_rest = []\<rparr>"
      "\<lparr>peer = SockV4 (10, 0, 0, 1) 5, local_side = SockV4 (10, 0, 0, 2) 80\<rparr>"
      "IpReprV4 \<lparr>v4_src_addr = (10, 0, 0, 1), v4_dst_addr = (10, 0, 0, 2), v4_protocol = ProtoTcp,
       v4_rest = []\<rparr>"
      "\<lparr>src_port = 5, dst_port = 80, control = CtlFin, ack_number = None, tcp_rest = []\<rparr>"]
  by (simp add: packet_pair_def Let_def)

end
