(* ===== verification/Poll_Queue.thy ===== *)
theory Poll_Queue
  imports Addresses
begin

text \<open>
  The queue of connections to be polled (\<open>src/ustunet/src/dispatch/poll_queue.rs\<close>).
  \<open>Delays\<close> keeps a timer queue of a library (\<open>tokio_util::time::DelayQueue\<close>) and, beside
  it, a map from connections to the timer's keys, so that each connection has one timer at most.
  \<open>DispatchQueue\<close> adds the clock.

  The timer queue is a parameter: a record of its operations, with its documented laws as the
  locale \<open>delay_queue\<close>. Under these laws \<open>Delays\<close> refines a plain map from connections to
  instants (\<open>deadlines\<close>), and the dispatch queue provides the interface \<open>schedule\<close> that
  connections and the pool rely on.
\<close>

section \<open>The timer queue of the library\<close>

text \<open>
  Inserting and re-scheduling panic outside the timer's range, re-scheduling and removing panic on
  an unknown key. Polling at a time gives an expired value, nothing yet, or the end of an empty
  queue; a broken timer gives an error.
\<close>

record ('q, 'k) delay_api =
  dq_new :: 'q
  dq_insert_at :: "'q \<Rightarrow> socket_handle \<Rightarrow> instant \<Rightarrow> ('k \<times> 'q) outcome"
  dq_reset_at :: "'q \<Rightarrow> 'k \<Rightarrow> instant \<Rightarrow> 'q outcome"
  dq_remove :: "'q \<Rightarrow> 'k \<Rightarrow> 'q outcome"
  dq_poll_expired :: "'q \<Rightarrow> instant \<Rightarrow> (unit, socket_handle) result option poll \<times> 'q"

section \<open>Delays\<close>

record ('q, 'k) delays =
  dl_queue :: 'q
  dl_keys :: "addr_pair \<rightharpoonup> 'k"

definition Delays_new :: "('q, 'k) delay_api \<Rightarrow> ('q, 'k) delays" where
  "Delays_new D = \<lparr>dl_queue = dq_new D, dl_keys = Map.empty\<rparr>"

definition Delays_next ::
    "('q, 'k) delay_api \<Rightarrow> instant \<Rightarrow> ('q, 'k) delays \<Rightarrow>
     (socket_handle option poll \<times> ('q, 'k) delays) outcome" where
  "Delays_next D now d =
     (case dq_poll_expired D (dl_queue d) now of
        (Pending, q) \<Rightarrow> Done (Pending, d\<lparr>dl_queue := q\<rparr>)
      | (Ready None, q) \<Rightarrow> Done (Ready None, d\<lparr>dl_queue := q\<rparr>)
      | (Ready (Some (Inl e)), q) \<Rightarrow> Panicked TimerError
      | (Ready (Some (Inr s)), q) \<Rightarrow>
          and_then (expect QueueKeyMissing (dl_keys d s)) (\<lambda>_.
            Done (Ready (Some s), d\<lparr>dl_queue := q, dl_keys := (dl_keys d)(s := None)\<rparr>)))"

definition Delays_insert ::
    "('q, 'k) delay_api \<Rightarrow> ('q, 'k) delays \<Rightarrow> socket_handle \<Rightarrow> instant \<Rightarrow> ('q, 'k) delays outcome" where
  "Delays_insert D d socket at =
     (case dl_keys d socket of
        Some k \<Rightarrow>
          and_then (dq_reset_at D (dl_queue d) k at) (\<lambda>q. Done (d\<lparr>dl_queue := q\<rparr>))
      | None \<Rightarrow>
          and_then (dq_insert_at D (dl_queue d) socket at) (\<lambda>(k, q).
            Done (d\<lparr>dl_queue := q, dl_keys := (dl_keys d)(socket \<mapsto> k)\<rparr>)))"

definition Delays_contains_key :: "('q, 'k) delays \<Rightarrow> socket_handle \<Rightarrow> bool" where
  "Delays_contains_key d socket \<longleftrightarrow> dl_keys d socket \<noteq> None"

definition Delays_remove ::
    "('q, 'k) delay_api \<Rightarrow> ('q, 'k) delays \<Rightarrow> socket_handle \<Rightarrow> ('q, 'k) delays outcome" where
  "Delays_remove D d socket =
     (case dl_keys d socket of
        None \<Rightarrow> Done d
      | Some key \<Rightarrow>
          and_then (dq_remove D (dl_queue d) key) (\<lambda>q.
            Done (d\<lparr>dl_queue := q, dl_keys := (dl_keys d)(socket := None)\<rparr>)))"

section \<open>The dispatch queue and its updater\<close>

record ('q, 'k) dispatch_queue =
  dq_clock :: clock
  delayed :: "('q, 'k) delays"

type_synonym poll_update = "socket_handle \<times> poll_at"

definition DispatchQueue_new :: "('q, 'k) delay_api \<Rightarrow> clock \<Rightarrow> ('q, 'k) dispatch_queue" where
  "DispatchQueue_new D c = \<lparr>dq_clock = c, delayed = Delays_new D\<rparr>"

definition DispatchQueue_send ::
    "('q, 'k) delay_api \<Rightarrow> ('q, 'k) dispatch_queue \<Rightarrow> socket_handle \<Rightarrow> poll_at \<Rightarrow>
     ('q, 'k) dispatch_queue outcome" where
  "DispatchQueue_send D q socket p =
     (let insert_at = (\<lambda>at. and_then (Delays_insert D (delayed q) socket at)
                              (\<lambda>d. Done (q\<lparr>delayed := d\<rparr>)))
      in case p of
           Now \<Rightarrow> insert_at (origin (dq_clock q))
         | Time millis \<Rightarrow> and_then (resolve (dq_clock q) millis) insert_at
         | Ingress \<Rightarrow> Done q)"

text \<open>When the delays end the future stays pending for ever.\<close>

definition DispatchQueue_poll ::
    "('q, 'k) delay_api \<Rightarrow> instant \<Rightarrow> ('q, 'k) dispatch_queue \<Rightarrow>
     (socket_handle poll \<times> ('q, 'k) dispatch_queue) outcome" where
  "DispatchQueue_poll D now q =
     and_then (Delays_next D now (delayed q)) (\<lambda>(n, d).
       Done (case n of Ready (Some e) \<Rightarrow> Ready e | Ready None \<Rightarrow> Pending | Pending \<Rightarrow> Pending,
             q\<lparr>delayed := d\<rparr>))"

definition DispatchQueue_remove ::
    "('q, 'k) delay_api \<Rightarrow> ('q, 'k) dispatch_queue \<Rightarrow> socket_handle \<Rightarrow> ('q, 'k) dispatch_queue outcome" where
  "DispatchQueue_remove D q socket =
     and_then (Delays_remove D (delayed q) socket) (\<lambda>d. Done (q\<lparr>delayed := d\<rparr>))"

definition DispatchQueue_contains :: "('q, 'k) dispatch_queue \<Rightarrow> socket_handle \<Rightarrow> bool" where
  "DispatchQueue_contains q socket = Delays_contains_key (delayed q) socket"

text \<open>
  The updater sends to the queue over a channel; sending panics once the receiving loop is gone.
  The result is the messages that are added to the channel.
\<close>

definition QueueUpdater_send :: "bool \<Rightarrow> socket_handle \<Rightarrow> poll_at \<Rightarrow> poll_update list outcome" where
  "QueueUpdater_send receiver_alive socket p =
     (if receiver_alive then Done [(socket, p)] else Panicked ChannelClosed)"

section \<open>Abstraction: one deadline per connection\<close>

type_synonym ('q, 'k) entries = "'q \<Rightarrow> 'k \<rightharpoonup> (socket_handle \<times> instant)"

definition deadlines :: "('q, 'k) entries \<Rightarrow> ('q, 'k) delays \<Rightarrow> (socket_handle \<rightharpoonup> instant)" where
  "deadlines ent d h = Option.bind (dl_keys d h) (\<lambda>k. map_option snd (ent (dl_queue d) k))"

text \<open>The keys and the timer's entries are two views of the same relation.\<close>

definition delays_inv :: "('q, 'k) entries \<Rightarrow> ('q, 'k) delays \<Rightarrow> bool" where
  "delays_inv ent d \<longleftrightarrow>
     (\<forall>h k. dl_keys d h = Some k \<longleftrightarrow> (\<exists>w. ent (dl_queue d) k = Some (h, w)))"

definition due :: "('q, 'k) entries \<Rightarrow> ('q, 'k) dispatch_queue \<Rightarrow> (socket_handle \<rightharpoonup> instant)" where
  "due ent q = deadlines ent (delayed q)"

definition queue_inv :: "('q, 'k) entries \<Rightarrow> ('q, 'k) dispatch_queue \<Rightarrow> bool" where
  "queue_inv ent q = delays_inv ent (delayed q)"

text \<open>The instant a polling time stands for; \<open>None\<close> when nothing is scheduled.\<close>

fun instant_of :: "clock \<Rightarrow> poll_at \<Rightarrow> instant option" where
  "instant_of c Now = Some (origin c)"
| "instant_of c (Time t) = Some (start_time c + unat t * nanos_per_milli)"
| "instant_of c Ingress = None"

text \<open>A polling time that the clock and the timer can represent.\<close>

fun representable :: "(instant \<Rightarrow> bool) \<Rightarrow> clock \<Rightarrow> poll_at \<Rightarrow> bool" where
  "representable in_range c Now \<longleftrightarrow> in_range (origin c)"
| "representable in_range c (Time t) \<longleftrightarrow>
     start_time c + unat t * nanos_per_milli < instant_limit
     \<and> in_range (start_time c + unat t * nanos_per_milli)"
| "representable in_range c Ingress \<longleftrightarrow> True"

lemma delays_invI:
  assumes "\<And>h k. dl_keys d h = Some k \<Longrightarrow> \<exists>w. ent (dl_queue d) k = Some (h, w)"
    and "\<And>h k w. ent (dl_queue d) k = Some (h, w) \<Longrightarrow> dl_keys d h = Some k"
  shows "delays_inv ent d"
  using assms unfolding delays_inv_def by blast

lemma delays_inv_key:
  assumes "delays_inv ent d" and "dl_keys d h = Some k"
  obtains w where "ent (dl_queue d) k = Some (h, w)"
  using assms unfolding delays_inv_def by blast

lemma delays_inv_entry:
  "delays_inv ent d \<Longrightarrow> ent (dl_queue d) k = Some (h, w) \<Longrightarrow> dl_keys d h = Some k"
  unfolding delays_inv_def by blast

lemma delays_inv_distinct:
  assumes "delays_inv ent d" and "dl_keys d h = Some k" and "dl_keys d h' = Some k"
  shows "h = h'"
proof -
  from assms(1,2) obtain w where "ent (dl_queue d) k = Some (h, w)"
    by (rule delays_inv_key)
  moreover from assms(1,3) obtain v where "ent (dl_queue d) k = Some (h', v)"
    by (rule delays_inv_key)
  ultimately show ?thesis by simp
qed

text \<open>A change of one connection's key and of no other connection's entry.\<close>

lemma deadlines_update:
  assumes "dl_keys d' = (dl_keys d)(h := ko)"
    and "\<And>h' k. h' \<noteq> h \<Longrightarrow> dl_keys d h' = Some k \<Longrightarrow> ent (dl_queue d') k = ent (dl_queue d) k"
  shows "deadlines ent d' =
    (deadlines ent d)(h := Option.bind ko (\<lambda>k. map_option snd (ent (dl_queue d') k)))"
proof
  fix h'
  show "deadlines ent d' h' =
    ((deadlines ent d)(h := Option.bind ko (\<lambda>k. map_option snd (ent (dl_queue d') k)))) h'"
    using assms by (cases "dl_keys d h'") (auto simp: deadlines_def)
qed

section \<open>The laws of the timer queue and what follows for the delays\<close>

text \<open>
  Inserting and resetting take any instant in the timer's range, a removal takes a key in use, a poll
  returns an entry only after its deadline. Nothing is assumed on how soon after it. The timer has an
  error only when the runtime's timer was shut down or is at its capacity; \<open>poll_no_error\<close> excludes
  that, and with it the \<open>unwrap\<close> of \<open>Delays::next\<close>.
\<close>

locale delay_queue =
  fixes D :: "('q, 'k) delay_api"
    and ent :: "('q, 'k) entries"
    and in_range :: "instant \<Rightarrow> bool"
  assumes ent_new: "ent (dq_new D) = Map.empty"
    and insert_ok: "in_range w \<Longrightarrow> no_panic (dq_insert_at D q h w)"
    and ent_insert: "dq_insert_at D q h w = Done (k, q') \<Longrightarrow>
      ent q k = None \<and> ent q' = (ent q)(k \<mapsto> (h, w))"
    and reset_ok: "in_range w \<Longrightarrow> ent q k \<noteq> None \<Longrightarrow> no_panic (dq_reset_at D q k w)"
    and ent_reset: "dq_reset_at D q k w = Done q' \<Longrightarrow> ent q k = Some (h, v) \<Longrightarrow>
      ent q' = (ent q)(k \<mapsto> (h, w))"
    and remove_ok: "ent q k \<noteq> None \<Longrightarrow> no_panic (dq_remove D q k)"
    and ent_remove: "dq_remove D q k = Done q' \<Longrightarrow> ent q' = (ent q)(k := None)"
    and poll_pending: "dq_poll_expired D q now = (Pending, q') \<Longrightarrow> ent q' = ent q"
    and poll_end: "dq_poll_expired D q now = (Ready None, q') \<Longrightarrow>
      ent q = Map.empty \<and> ent q' = Map.empty"
    and poll_value: "dq_poll_expired D q now = (Ready (Some (Inr h)), q') \<Longrightarrow>
      \<exists>k w. ent q k = Some (h, w) \<and> w \<le> now \<and> ent q' = (ent q)(k := None)"
    and poll_no_error: "fst (dq_poll_expired D q now) \<noteq> Ready (Some (Inl e))"
begin

lemma delays_new: "delays_inv ent (Delays_new D)" "deadlines ent (Delays_new D) = Map.empty"
  by (auto simp: delays_inv_def deadlines_def Delays_new_def ent_new fun_eq_iff)

lemma deadlines_Some:
  assumes "delays_inv ent d"
  shows "deadlines ent d h = Some w \<longleftrightarrow> (\<exists>k. ent (dl_queue d) k = Some (h, w))"
proof
  assume "deadlines ent d h = Some w"
  then obtain k h' where "dl_keys d h = Some k" and "ent (dl_queue d) k = Some (h', w)"
    by (auto simp: deadlines_def bind_eq_Some_conv)
  then show "\<exists>k. ent (dl_queue d) k = Some (h, w)"
    using delays_inv_key [OF assms] by force
next
  assume "\<exists>k. ent (dl_queue d) k = Some (h, w)"
  then show "deadlines ent d h = Some w"
    using delays_inv_entry [OF assms] by (auto simp: deadlines_def)
qed

lemma deadlines_dom:
  assumes "delays_inv ent d"
  shows "dl_keys d h \<noteq> None \<longleftrightarrow> h \<in> dom (deadlines ent d)"
  using delays_inv_key [OF assms, of h] delays_inv_entry [OF assms]
  by (fastforce simp: dom_def deadlines_Some [OF assms])

lemma Delays_insert_fresh:
  assumes inv: "delays_inv ent d" and none: "dl_keys d h = None"
    and ins: "dq_insert_at D (dl_queue d) h w = Done (k, q)"
  defines "d' \<equiv> d\<lparr>dl_queue := q, dl_keys := (dl_keys d)(h \<mapsto> k)\<rparr>"
  shows "delays_inv ent d'" and "deadlines ent d' = (deadlines ent d)(h \<mapsto> w)"
proof -
  have q: "ent (dl_queue d) k = None" "ent q = (ent (dl_queue d))(k \<mapsto> (h, w))"
    using ent_insert [OF ins] by auto
  have fresh: "ent (dl_queue d) k' \<noteq> Some (h, v)" for k' v
    using delays_inv_entry [OF inv] none by fastforce
  show inv': "delays_inv ent d'"
  proof (rule delays_invI)
    fix h' k'
    assume "dl_keys d' h' = Some k'"
    then show "\<exists>v. ent (dl_queue d') k' = Some (h', v)"
      using q by (auto simp: d'_def split: if_splits elim: delays_inv_key [OF inv])
  next
    fix h' k' v
    assume "ent (dl_queue d') k' = Some (h', v)"
    then show "dl_keys d' h' = Some k'"
      using q fresh by (auto simp: d'_def split: if_splits dest: delays_inv_entry [OF inv])
  qed
  show "deadlines ent d' = (deadlines ent d)(h \<mapsto> w)"
    by (subst deadlines_update [of d' d h "Some k"])
      (use q in \<open>auto simp: d'_def elim: delays_inv_key [OF inv]\<close>)
qed

lemma Delays_insert_again:
  assumes inv: "delays_inv ent d" and key: "dl_keys d h = Some k"
    and reset: "dq_reset_at D (dl_queue d) k w = Done q"
  defines "d' \<equiv> d\<lparr>dl_queue := q\<rparr>"
  shows "delays_inv ent d'" and "deadlines ent d' = (deadlines ent d)(h \<mapsto> w)"
proof -
  obtain v where v: "ent (dl_queue d) k = Some (h, v)"
    using inv key by (rule delays_inv_key)
  have q: "ent q = (ent (dl_queue d))(k \<mapsto> (h, w))"
    by (rule ent_reset [OF reset v])
  have only: "ent (dl_queue d) k' = Some (h, u) \<Longrightarrow> k' = k" for k' u
    using delays_inv_entry [OF inv] key by fastforce
  show inv': "delays_inv ent d'"
  proof (rule delays_invI)
    fix h' k'
    assume "dl_keys d' h' = Some k'"
    then show "\<exists>v. ent (dl_queue d') k' = Some (h', v)"
      using q v by (auto simp: d'_def elim: delays_inv_key [OF inv])
  next
    fix h' k' v
    assume "ent (dl_queue d') k' = Some (h', v)"
    then show "dl_keys d' h' = Some k'"
      using q key by (auto simp: d'_def split: if_splits dest: delays_inv_entry [OF inv])
  qed
  show "deadlines ent d' = (deadlines ent d)(h \<mapsto> w)"
    by (subst deadlines_update [of d' d h "Some k"])
      (use q key in \<open>auto simp: d'_def dest: delays_inv_distinct [OF inv key]\<close>)
qed

lemma Delays_insert_refines:
  assumes "delays_inv ent d" and "Delays_insert D d h w = Done d'"
  shows "delays_inv ent d'" and "deadlines ent d' = (deadlines ent d)(h \<mapsto> w)"
  using assms Delays_insert_fresh Delays_insert_again
  by (auto simp: Delays_insert_def split: option.splits)

lemma Delays_insert_no_panic:
  assumes "delays_inv ent d" and "in_range w"
  shows "no_panic (Delays_insert D d h w)"
proof (cases "dl_keys d h")
  case None
  then show ?thesis
    using insert_ok [OF assms(2), of "dl_queue d" h]
    by (auto simp: Delays_insert_def elim!: no_panicE)
next
  case (Some k)
  then have "ent (dl_queue d) k \<noteq> None"
    by (auto elim: delays_inv_key [OF assms(1)])
  from reset_ok [OF assms(2) this] Some show ?thesis
    by (auto simp: Delays_insert_def elim!: no_panicE)
qed

text \<open>Taking one entry out, by removal or by expiry.\<close>

lemma delays_drop_entry:
  assumes inv: "delays_inv ent d" and e: "ent (dl_queue d) k = Some (h, w)"
    and q: "ent q = (ent (dl_queue d))(k := None)"
  defines "d' \<equiv> d\<lparr>dl_queue := q, dl_keys := (dl_keys d)(h := None)\<rparr>"
  shows "delays_inv ent d'" and "deadlines ent d' = (deadlines ent d)(h := None)"
proof -
  have key: "dl_keys d h = Some k"
    using inv e by (rule delays_inv_entry)
  have only: "ent (dl_queue d) k' = Some (h, u) \<Longrightarrow> k' = k" for k' u
    using delays_inv_entry [OF inv] key by fastforce
  have other: "ent (dl_queue d) k = Some (h', u) \<Longrightarrow> h' = h" for h' u
    using e by simp
  show inv': "delays_inv ent d'"
  proof (rule delays_invI)
    fix h' k'
    assume "dl_keys d' h' = Some k'"
    then show "\<exists>v. ent (dl_queue d') k' = Some (h', v)"
      using q other by (auto simp: d'_def split: if_splits elim!: delays_inv_key [OF inv])
  next
    fix h' k' v
    assume "ent (dl_queue d') k' = Some (h', v)"
    then show "dl_keys d' h' = Some k'"
      using q only by (auto simp: d'_def split: if_splits dest: delays_inv_entry [OF inv])
  qed
  show "deadlines ent d' = (deadlines ent d)(h := None)"
    by (subst deadlines_update [of d' d h None])
      (use q in \<open>auto simp: d'_def dest: delays_inv_distinct [OF inv key]\<close>)
qed

lemma Delays_remove_refines:
  assumes inv: "delays_inv ent d"
  shows "\<exists>d'. Delays_remove D d h = Done d' \<and> delays_inv ent d'
    \<and> deadlines ent d' = (deadlines ent d)(h := None)"
proof (cases "dl_keys d h")
  case None
  then have "h \<notin> dom (deadlines ent d)"
    by (simp flip: deadlines_dom [OF inv])
  with None inv show ?thesis
    by (auto simp: Delays_remove_def fun_upd_idem domIff)
next
  case (Some k)
  with inv obtain w where w: "ent (dl_queue d) k = Some (h, w)"
    by (rule delays_inv_key)
  obtain q where q: "dq_remove D (dl_queue d) k = Done q"
    using remove_ok w by fastforce
  show ?thesis
    using Some q delays_drop_entry [OF inv w ent_remove [OF q]] by (simp add: Delays_remove_def)
qed

lemma Delays_next_refines:
  assumes inv: "delays_inv ent d"
  shows "\<exists>r d'. Delays_next D now d = Done (r, d') \<and> delays_inv ent d' \<and>
    (case r of
       Ready (Some h) \<Rightarrow> (\<exists>w. deadlines ent d h = Some w \<and> w \<le> now)
         \<and> deadlines ent d' = (deadlines ent d)(h := None)
     | Ready None \<Rightarrow> deadlines ent d = Map.empty \<and> deadlines ent d' = Map.empty
     | Pending \<Rightarrow> deadlines ent d' = deadlines ent d)"
proof (cases "dq_poll_expired D (dl_queue d) now")
  case (Pair r q)
  have same: "ent q = ent (dl_queue d) \<Longrightarrow> delays_inv ent (d\<lparr>dl_queue := q\<rparr>)
      \<and> deadlines ent (d\<lparr>dl_queue := q\<rparr>) = deadlines ent d"
    using inv by (auto simp: delays_inv_def deadlines_def fun_eq_iff)
  consider (pend) "r = Pending" | (fin) "r = Ready None" | (val) h where "r = Ready (Some (Inr h))"
    using poll_no_error [of "dl_queue d" now] Pair
    by (metis fst_conv option.exhaust poll.exhaust sum.exhaust)
  then show ?thesis
  proof cases
    case pend
    with Pair same show ?thesis
      using poll_pending [of "dl_queue d" now q] by (simp add: Delays_next_def)
  next
    case fin
    with Pair have "ent (dl_queue d) = Map.empty" "ent q = Map.empty"
      using poll_end by blast+
    with fin Pair same show ?thesis
      by (auto simp: Delays_next_def deadlines_def fun_eq_iff bind_eq_None_conv)
  next
    case (val h)
    with Pair obtain k w where e: "ent (dl_queue d) k = Some (h, w)" and "w \<le> now"
      and q: "ent q = (ent (dl_queue d))(k := None)"
      using poll_value by blast
    moreover from inv e have "dl_keys d h = Some k"
      by (rule delays_inv_entry)
    moreover have "deadlines ent d h = Some w"
      using deadlines_Some [OF inv] e by blast
    ultimately show ?thesis
      using val Pair delays_drop_entry [OF inv e q] by (simp add: Delays_next_def)
  qed
qed

end

section \<open>The interface of the queue\<close>

text \<open>
  What connections, the pool and the loop rely on: sending sets the deadline of one connection
  and nothing else, removing clears it, and asking tells whether there is one.
\<close>

locale schedule =
  fixes inv :: "'d \<Rightarrow> bool"
    and dl :: "'d \<Rightarrow> (socket_handle \<rightharpoonup> instant)"
    and send :: "'d \<Rightarrow> socket_handle \<Rightarrow> poll_at \<Rightarrow> 'd outcome"
    and remove :: "'d \<Rightarrow> socket_handle \<Rightarrow> 'd outcome"
    and contains :: "'d \<Rightarrow> socket_handle \<Rightarrow> bool"
    and instant_at :: "'d \<Rightarrow> poll_at \<Rightarrow> instant option"
  assumes send_inv: "inv q \<Longrightarrow> send q h p = Done q' \<Longrightarrow> inv q'"
    and send_dl: "inv q \<Longrightarrow> send q h p = Done q' \<Longrightarrow>
      dl q' = (case instant_at q p of None \<Rightarrow> dl q | Some t \<Rightarrow> (dl q)(h \<mapsto> t))"
    and send_instant: "send q h p = Done q' \<Longrightarrow> instant_at q' = instant_at q"
    and remove_spec: "inv q \<Longrightarrow>
      \<exists>q'. remove q h = Done q' \<and> inv q' \<and> dl q' = (dl q)(h := None) \<and> instant_at q' = instant_at q"
    and contains_dl: "inv q \<Longrightarrow> contains q h \<longleftrightarrow> h \<in> dom (dl q)"
    and instant_at_None: "instant_at q p = None \<longleftrightarrow> p = Ingress"

text \<open>The messages of a channel, applied in order.\<close>

fun send_all :: "('d \<Rightarrow> socket_handle \<Rightarrow> poll_at \<Rightarrow> 'd outcome) \<Rightarrow> 'd \<Rightarrow> poll_update list \<Rightarrow> 'd outcome" where
  "send_all send q [] = Done q"
| "send_all send q ((h, p) # ms) = and_then (send q h p) (\<lambda>q'. send_all send q' ms)"

text \<open>The last polling time among the messages for a connection that is not \<open>Ingress\<close>.\<close>

fun last_update :: "socket_handle \<Rightarrow> poll_update list \<Rightarrow> poll_at option" where
  "last_update h [] = None"
| "last_update h ((h', p) # ms) =
     (case last_update h ms of
        Some p' \<Rightarrow> Some p'
      | None \<Rightarrow> if h' = h \<and> p \<noteq> Ingress then Some p else None)"

context schedule
begin

lemma send_other:
  assumes "inv q" and "send q h p = Done q'" and "h' \<noteq> h"
  shows "dl q' h' = dl q h'"
  using send_dl [OF assms(1,2)] assms(3) by (auto split: option.splits)

lemma send_dom:
  assumes "inv q" and "send q h p = Done q'"
  shows "dom (dl q') = (if p = Ingress then dom (dl q) else insert h (dom (dl q)))"
  using send_dl [OF assms] instant_at_None [of q p] by (auto split: option.splits)

lemma send_dom_mono: "inv q \<Longrightarrow> send q h p = Done q' \<Longrightarrow> dom (dl q) \<subseteq> dom (dl q')"
  by (auto simp: send_dom split: if_splits)

lemma send_dom_subset: "inv q \<Longrightarrow> send q h p = Done q' \<Longrightarrow> dom (dl q') \<subseteq> insert h (dom (dl q))"
  by (auto simp: send_dom split: if_splits)

lemma remove_DoneD:
  assumes "inv q" and "remove q h = Done q'"
  shows "inv q'" and "dl q' = (dl q)(h := None)"
  using remove_spec [OF assms(1), of h] assms(2) by auto

lemma last_update_not_Ingress: "last_update h ms \<noteq> Some Ingress"
  by (induction h ms rule: last_update.induct) (auto split: option.splits)

lemma send_all_dl:
  assumes "inv q" and "send_all send q ms = Done q'"
  shows "inv q' \<and> instant_at q' = instant_at q \<and>
    dl q' h = (case last_update h ms of None \<Rightarrow> dl q h | Some p \<Rightarrow> instant_at q p)"
  using assms
proof (induction ms arbitrary: q)
  case Nil
  then show ?case by simp
next
  case (Cons m ms)
  obtain h1 p where m: "m = (h1, p)" by (cases m)
  with Cons.prems obtain q1 where q1: "send q h1 p = Done q1" and rest: "send_all send q1 ms = Done q'"
    by auto
  from Cons.prems(1) q1 have "inv q1" by (rule send_inv)
  from Cons.IH [OF this rest] send_dl [OF Cons.prems(1) q1] send_instant [OF q1]
    instant_at_None [of q p]
  show ?case
    by (auto simp: m split: option.splits)
qed

end

section \<open>The dispatch queue provides the interface\<close>

context delay_queue
begin

lemma queue_new: "queue_inv ent (DispatchQueue_new D c)" "due ent (DispatchQueue_new D c) = Map.empty"
  by (auto simp: queue_inv_def due_def DispatchQueue_new_def delays_new)

lemma DispatchQueue_send_Done:
  assumes "queue_inv ent q" and "DispatchQueue_send D q h p = Done q'"
  shows "queue_inv ent q'" and "dq_clock q' = dq_clock q"
    and "due ent q' = (case instant_of (dq_clock q) p of
           None \<Rightarrow> due ent q | Some t \<Rightarrow> (due ent q)(h \<mapsto> t))"
  using assms Delays_insert_refines
  by (auto simp: DispatchQueue_send_def queue_inv_def due_def Let_def resolve_Done_iff
      split: poll_at.splits)

lemma DispatchQueue_send_no_panic:
  assumes "queue_inv ent q" and "representable in_range (dq_clock q) p"
  shows "no_panic (DispatchQueue_send D q h p)"
proof (cases "instant_of (dq_clock q) p")
  case None
  then show ?thesis
    by (cases p) (auto simp: DispatchQueue_send_def)
next
  case (Some t)
  with assms(2) have "in_range t"
    by (cases p) auto
  with assms(1) have "no_panic (Delays_insert D (delayed q) h t)"
    by (auto simp: queue_inv_def intro: Delays_insert_no_panic)
  with Some assms(2) show ?thesis
    by (cases p) (auto simp: DispatchQueue_send_def resolve_def Let_def elim!: no_panicE)
qed

lemma DispatchQueue_remove_spec:
  assumes "queue_inv ent q"
  shows "\<exists>q'. DispatchQueue_remove D q h = Done q' \<and> queue_inv ent q'
    \<and> due ent q' = (due ent q)(h := None) \<and> dq_clock q' = dq_clock q"
  using Delays_remove_refines [of "delayed q" h] assms
  by (auto simp: DispatchQueue_remove_def queue_inv_def due_def)

lemma DispatchQueue_contains_due:
  "queue_inv ent q \<Longrightarrow> DispatchQueue_contains q h \<longleftrightarrow> h \<in> dom (due ent q)"
  using deadlines_dom [of "delayed q" h]
  by (simp add: DispatchQueue_contains_def Delays_contains_key_def queue_inv_def due_def)

lemma DispatchQueue_poll_spec:
  assumes "queue_inv ent q"
  shows "\<exists>r q'. DispatchQueue_poll D now q = Done (r, q') \<and> queue_inv ent q'
    \<and> dq_clock q' = dq_clock q \<and>
    (case r of
       Ready h \<Rightarrow> (\<exists>w. due ent q h = Some w \<and> w \<le> now) \<and> due ent q' = (due ent q)(h := None)
     | Pending \<Rightarrow> due ent q' = due ent q)"
proof -
  obtain n d where n: "Delays_next D now (delayed q) = Done (n, d)" "delays_inv ent d"
    and r: "case n of
       Ready (Some h) \<Rightarrow> (\<exists>w. due ent q h = Some w \<and> w \<le> now)
         \<and> deadlines ent d = (due ent q)(h := None)
     | Ready None \<Rightarrow> due ent q = Map.empty \<and> deadlines ent d = Map.empty
     | Pending \<Rightarrow> deadlines ent d = due ent q"
    using Delays_next_refines [of "delayed q" now] assms unfolding queue_inv_def due_def by blast
  define r' where "r' = (case n of Ready (Some h) \<Rightarrow> Ready h | Ready None \<Rightarrow> Pending | Pending \<Rightarrow> Pending)"
  have "DispatchQueue_poll D now q = Done (r', q\<lparr>delayed := d\<rparr>)"
    using n by (simp add: DispatchQueue_poll_def r'_def)
  moreover have "case r' of
       Ready h \<Rightarrow> (\<exists>w. due ent q h = Some w \<and> w \<le> now)
         \<and> due ent (q\<lparr>delayed := d\<rparr>) = (due ent q)(h := None)
     | Pending \<Rightarrow> due ent (q\<lparr>delayed := d\<rparr>) = due ent q"
    using r by (auto simp: r'_def due_def split: poll.splits option.splits)
  ultimately show ?thesis
    using n(2) by (auto simp: queue_inv_def)
qed

end

sublocale delay_queue \<subseteq> sched: schedule "queue_inv ent" "due ent" "DispatchQueue_send D"
  "DispatchQueue_remove D" DispatchQueue_contains "\<lambda>q. instant_of (dq_clock q)"
proof unfold_locales
  fix q h p q'
  show "queue_inv ent q \<Longrightarrow> DispatchQueue_send D q h p = Done q' \<Longrightarrow> queue_inv ent q'"
    by (rule DispatchQueue_send_Done)
  show "queue_inv ent q \<Longrightarrow> DispatchQueue_send D q h p = Done q' \<Longrightarrow>
      due ent q' = (case instant_of (dq_clock q) p of
        None \<Rightarrow> due ent q | Some t \<Rightarrow> (due ent q)(h \<mapsto> t))"
    by (rule DispatchQueue_send_Done)
  show "DispatchQueue_send D q h p = Done q' \<Longrightarrow>
      instant_of (dq_clock q') = instant_of (dq_clock q)"
    by (auto simp: DispatchQueue_send_def Let_def split: poll_at.splits)
  show "queue_inv ent q \<Longrightarrow> \<exists>q'. DispatchQueue_remove D q h = Done q' \<and> queue_inv ent q'
      \<and> due ent q' = (due ent q)(h := None) \<and> instant_of (dq_clock q') = instant_of (dq_clock q)"
    using DispatchQueue_remove_spec by force
  show "queue_inv ent q \<Longrightarrow> DispatchQueue_contains q h = (h \<in> dom (due ent q))"
    by (rule DispatchQueue_contains_due)
  show "(instant_of (dq_clock q) p = None) = (p = Ingress)"
    by (cases p) auto
qed

context delay_queue
begin

text \<open>A batch of updates.\<close>

lemma send_all_due:
  assumes "queue_inv ent q" and "send_all (DispatchQueue_send D) q ms = Done q'"
  shows "due ent q' h = (case last_update h ms of
    None \<Rightarrow> due ent q h | Some p \<Rightarrow> instant_of (dq_clock q) p)"
  using sched.send_all_dl [OF assms] by simp

end

end
