(* ===== verification/Slab_Queue.thy ===== *)
theory Slab_Queue
  imports Poll_Queue
begin

text \<open>
  A timer queue that satisfies the laws of the locale \<open>delay_queue\<close>: a slab of keyed entries.
  It shows that the laws can hold together and gives the concrete queue of the examples.
\<close>

type_synonym slab = "(nat \<times> socket_handle \<times> instant) list"

fun slab_fresh :: "slab \<Rightarrow> nat" where
  "slab_fresh [] = 0"
| "slab_fresh ((k, e) # es) = max (Suc k) (slab_fresh es)"

definition slab_insert :: "slab \<Rightarrow> socket_handle \<Rightarrow> instant \<Rightarrow> (nat \<times> slab) outcome" where
  "slab_insert q h w = (let k = slab_fresh q in Done (k, (k, h, w) # q))"

fun slab_set :: "nat \<Rightarrow> instant \<Rightarrow> slab \<Rightarrow> slab" where
  "slab_set k w [] = []"
| "slab_set k w ((k', h, v) # es) = (if k' = k then (k', h, w) else (k', h, v)) # slab_set k w es"

definition slab_reset :: "slab \<Rightarrow> nat \<Rightarrow> instant \<Rightarrow> slab outcome" where
  "slab_reset q k w = (if map_of q k = None then Panicked DelayKeyMissing else Done (slab_set k w q))"

definition slab_remove :: "slab \<Rightarrow> nat \<Rightarrow> slab outcome" where
  "slab_remove q k =
     (if map_of q k = None then Panicked DelayKeyMissing else Done (filter (\<lambda>e. fst e \<noteq> k) q))"

definition slab_poll :: "slab \<Rightarrow> instant \<Rightarrow> (unit, socket_handle) result option poll \<times> slab" where
  "slab_poll q now =
     (if q = [] then (Ready None, q)
      else case find (\<lambda>(k, h, w). w \<le> now \<and> map_of q k = Some (h, w)) q of
             None \<Rightarrow> (Pending, q)
           | Some (k, h, w) \<Rightarrow> (Ready (Some (Inr h)), filter (\<lambda>e. fst e \<noteq> k) q))"

definition slab_api :: "(slab, nat) delay_api" where
  "slab_api = \<lparr>dq_new = [], dq_insert_at = slab_insert, dq_reset_at = slab_reset,
     dq_remove = slab_remove, dq_poll_expired = slab_poll\<rparr>"

lemma slab_api_simps [simp]:
  "dq_new slab_api = []" "dq_insert_at slab_api = slab_insert" "dq_reset_at slab_api = slab_reset"
  "dq_remove slab_api = slab_remove" "dq_poll_expired slab_api = slab_poll"
  by (simp_all add: slab_api_def)

lemma slab_fresh_bound: "(k, e) \<in> set q \<Longrightarrow> k < slab_fresh q"
  by (induction q rule: slab_fresh.induct) (auto simp: less_max_iff_disj)

lemma slab_fresh_None: "map_of q (slab_fresh q) = None"
  using slab_fresh_bound by (fastforce simp: map_of_eq_None_iff)

lemma map_of_slab_set_apply:
  "map_of (slab_set k w q) x =
     (if x = k then map_option (\<lambda>(h, v). (h, w)) (map_of q k) else map_of q x)"
  by (induction k w q rule: slab_set.induct) auto

lemma map_of_slab_set:
  "map_of q k = Some (h, v) \<Longrightarrow> map_of (slab_set k w q) = (map_of q)(k \<mapsto> (h, w))"
  by (auto simp: fun_eq_iff map_of_slab_set_apply)

lemma map_of_slab_filter: "map_of (filter (\<lambda>e. fst e \<noteq> k) q) = (map_of q)(k := None)"
  by (induction q) (auto simp: fun_eq_iff)

lemma slab_poll_value:
  assumes "slab_poll q now = (Ready (Some (Inr h)), q')"
  shows "\<exists>k w. map_of q k = Some (h, w) \<and> w \<le> now \<and> map_of q' = (map_of q)(k := None)"
  using assms
  by (fastforce simp: slab_poll_def map_of_slab_filter find_Some_iff split: if_splits option.splits)

interpretation slab: delay_queue slab_api map_of "\<lambda>_. True"
proof unfold_locales
  fix q q' :: slab and k h w v now e
  show "map_of (dq_new slab_api) = (Map.empty :: nat \<rightharpoonup> socket_handle \<times> instant)"
    by simp
  show "no_panic (dq_insert_at slab_api q h w)"
    by (simp add: slab_insert_def Let_def)
  show "dq_insert_at slab_api q h w = Done (k, q') \<Longrightarrow>
      map_of q k = None \<and> map_of q' = (map_of q)(k \<mapsto> (h, w))"
    by (auto simp: slab_insert_def Let_def slab_fresh_None)
  show "map_of q k \<noteq> None \<Longrightarrow> no_panic (dq_reset_at slab_api q k w)"
    by (simp add: slab_reset_def)
  show "dq_reset_at slab_api q k w = Done q' \<Longrightarrow> map_of q k = Some (h, v) \<Longrightarrow>
      map_of q' = (map_of q)(k \<mapsto> (h, w))"
    by (auto simp: slab_reset_def map_of_slab_set)
  show "map_of q k \<noteq> None \<Longrightarrow> no_panic (dq_remove slab_api q k)"
    by (simp add: slab_remove_def)
  show "dq_remove slab_api q k = Done q' \<Longrightarrow> map_of q' = (map_of q)(k := None)"
    by (auto simp: slab_remove_def map_of_slab_filter split: if_splits)
  show "dq_poll_expired slab_api q now = (Pending, q') \<Longrightarrow> map_of q' = map_of q"
    by (auto simp: slab_poll_def split: if_splits option.splits)
  show "dq_poll_expired slab_api q now = (Ready None, q') \<Longrightarrow>
      map_of q = Map.empty \<and> map_of q' = Map.empty"
    by (auto simp: slab_poll_def split: if_splits option.splits)
  show "dq_poll_expired slab_api q now = (Ready (Some (Inr h)), q') \<Longrightarrow>
      \<exists>k w. map_of q k = Some (h, w) \<and> w \<le> now \<and> map_of q' = (map_of q)(k := None)"
    by (simp add: slab_poll_value)
  show "fst (dq_poll_expired slab_api q now) \<noteq> Ready (Some (Inl e))"
    by (auto simp: slab_poll_def split: option.splits)
qed

section \<open>Properties of the dispatch queue\<close>

text \<open>
  (C30) Refinement: on a well-formed queue, sending a polling time is the update of a map from
  connections to instants. \<open>Ingress\<close> changes nothing, any other time replaces the
  connection's deadline, and every other connection keeps its own.
\<close>

theorem send_refines_map_update:
  assumes "delay_queue D ent in_range" and "queue_inv ent q"
    and "DispatchQueue_send D q h p = Done q'"
  shows "queue_inv ent q' \<and>
    due ent q' = (case instant_of (dq_clock q) p of
      None \<Rightarrow> due ent q | Some t \<Rightarrow> (due ent q)(h \<mapsto> t))"
  using delay_queue.DispatchQueue_send_Done [OF assms] by simp

abbreviation sample_handle :: socket_handle where
  "sample_handle \<equiv> \<lparr>peer = SockV4 (10, 0, 0, 1) 5, local_side = SockV4 (10, 0, 0, 2) 80\<rparr>"

abbreviation sample_queue :: "(slab, nat) dispatch_queue" where
  "sample_queue \<equiv> \<lparr>dq_clock = Clock_new 7,
     delayed = \<lparr>dl_queue = [(0, sample_handle, 7)], dl_keys = [sample_handle \<mapsto> 0]\<rparr>\<rparr>"

lemma slab_queue_new: "queue_inv map_of (DispatchQueue_new slab_api c)"
  by (rule slab.queue_new)

lemma slab_send_now:
  "DispatchQueue_send slab_api (DispatchQueue_new slab_api (Clock_new 7)) sample_handle Now = Done sample_queue"
  by (simp add: DispatchQueue_send_def DispatchQueue_new_def Delays_insert_def Delays_new_def
      slab_insert_def Clock_new_def origin_def)

theorem send_refines_map_update_witness:
  "due map_of sample_queue =
     [sample_handle \<mapsto> 7]"
  using send_refines_map_update [OF slab.delay_queue_axioms slab_queue_new slab_send_now]
    slab.queue_new(2) [of "Clock_new 7"]
  by (simp add: DispatchQueue_new_def Clock_new_def origin_def)

text \<open>
  A batch of updates, applied in order, leaves each connection with the last polling time
  sent for it that is not \<open>Ingress\<close>, or with the deadline it had when there is none.
\<close>

theorem last_update_wins:
  assumes "delay_queue D ent in_range" and "queue_inv ent q"
    and "send_all (DispatchQueue_send D) q ms = Done q'"
  shows "due ent q' h = (case last_update h ms of
    None \<Rightarrow> due ent q h | Some p \<Rightarrow> instant_of (dq_clock q) p)"
  using assms by (rule delay_queue.send_all_due)

lemma slab_send_twice:
  "send_all (DispatchQueue_send slab_api) (DispatchQueue_new slab_api (Clock_new 7))
     [(sample_handle, Time 3), (sample_handle, Ingress), (sample_handle, Now)] = Done sample_queue"
  by (simp add: DispatchQueue_send_def DispatchQueue_new_def Delays_insert_def Delays_new_def
      slab_insert_def slab_reset_def resolve_def Let_def Clock_new_def origin_def nanos_simps
      instant_limit_def)

theorem last_update_wins_witness:
  "due map_of sample_queue
     sample_handle = instant_of (Clock_new 7) Now"
  using last_update_wins [OF slab.delay_queue_axioms slab_queue_new slab_send_twice, of sample_handle]
  by (simp add: DispatchQueue_new_def)

text \<open>
  (C31) Polling a well-formed queue never panics. It returns a connection only when its
  deadline has passed, takes that deadline out and nothing else, and otherwise changes no deadline.
\<close>

theorem poll_returns_expired:
  assumes "delay_queue D ent in_range" and "queue_inv ent q"
  shows "\<exists>r q'. DispatchQueue_poll D now q = Done (r, q') \<and> queue_inv ent q' \<and>
    (case r of
       Ready h \<Rightarrow> (\<exists>w. due ent q h = Some w \<and> w \<le> now) \<and> due ent q' = (due ent q)(h := None)
     | Pending \<Rightarrow> due ent q' = due ent q)"
  using delay_queue.DispatchQueue_poll_spec [OF assms] by blast

theorem poll_returns_expired_witness:
  "due map_of sample_queue sample_handle = Some 7
   \<and> (\<exists>r q'. DispatchQueue_poll slab_api 9 sample_queue = Done (r, q') \<and> queue_inv map_of q'
        \<and> (case r of Ready h \<Rightarrow> due map_of q' = (due map_of sample_queue)(h := None)
           | Pending \<Rightarrow> due map_of q' = due map_of sample_queue))"
proof
  show "due map_of sample_queue sample_handle = Some 7"
    by (simp add: due_def deadlines_def)
  have "queue_inv map_of sample_queue"
    by (rule slab.DispatchQueue_send_Done(1) [OF slab_queue_new slab_send_now])
  from poll_returns_expired [OF slab.delay_queue_axioms this, of 9]
  show "\<exists>r q'. DispatchQueue_poll slab_api 9 sample_queue = Done (r, q') \<and> queue_inv map_of q'
        \<and> (case r of Ready h \<Rightarrow> due map_of q' = (due map_of sample_queue)(h := None)
           | Pending \<Rightarrow> due map_of q' = due map_of sample_queue)"
    by (fastforce split: poll.splits)
qed

text \<open>
  On a well-formed queue neither scheduling a polling time that the clock and the timer can
  represent nor removing a connection panics; after a removal the connection is not scheduled.
\<close>

theorem queue_operations_total:
  assumes "delay_queue D ent in_range" and "queue_inv ent q"
    and "representable in_range (dq_clock q) p"
  shows "no_panic (DispatchQueue_send D q h p)
    \<and> (\<exists>q'. DispatchQueue_remove D q h = Done q' \<and> \<not> DispatchQueue_contains q' h
        \<and> due ent q' = (due ent q)(h := None))"
  using delay_queue.DispatchQueue_send_no_panic [OF assms, of h]
    delay_queue.DispatchQueue_remove_spec [OF assms(1,2), of h]
    delay_queue.DispatchQueue_contains_due [OF assms(1), of _ h]
  by fastforce

theorem queue_operations_total_witness:
  "no_panic (DispatchQueue_send slab_api (DispatchQueue_new slab_api (Clock_new 0)) sample_handle (Time 9))"
  using queue_operations_total [OF slab.delay_queue_axioms slab_queue_new, of "Clock_new 0" "Time 9" sample_handle]
  by (simp add: DispatchQueue_new_def Clock_new_def nanos_simps instant_limit_def)

end
