(* ===== verification/Shutdown.thy ===== *)
theory Shutdown
  imports Addresses
begin

text \<open>
  The channel on which the two halves of a stream report that they were dropped
  (\<open>src/ustunet/src/dispatch/shutdown.rs\<close>). A channel is the list of the messages in it; an
  operation that sends returns the messages it adds. Sending panics when the receiver, which the
  loop owns, is gone.
\<close>

datatype close = CloseRead | CloseWrite

type_synonym close_msg = "socket_handle \<times> close"

record half_close_sender =
  hc_socket :: socket_handle
  hc_rw :: close

definition shutdown_channel :: "close_msg list" where
  "shutdown_channel = []"

definition CloseSender_notify :: "bool \<Rightarrow> socket_handle \<Rightarrow> close \<Rightarrow> close_msg list outcome" where
  "CloseSender_notify receiver_alive socket c =
     (if receiver_alive then Done [(socket, c)] else Panicked ChannelClosed)"

definition CloseSender_build :: "socket_handle \<Rightarrow> close \<Rightarrow> half_close_sender" where
  "CloseSender_build socket c = \<lparr>hc_socket = socket, hc_rw = c\<rparr>"

definition HalfCloseSender_notify :: "bool \<Rightarrow> half_close_sender \<Rightarrow> close_msg list outcome" where
  "HalfCloseSender_notify receiver_alive hc =
     CloseSender_notify receiver_alive (hc_socket hc) (hc_rw hc)"

lemma notify_build [run_simps]:
  "HalfCloseSender_notify alive (CloseSender_build h c) =
     (if alive then Done [(h, c)] else Panicked ChannelClosed)"
  by (simp add: HalfCloseSender_notify_def CloseSender_build_def CloseSender_notify_def)

end
