(* ===== verification/Tcp_Streams.thy ===== *)
theory Tcp_Streams
  imports Slab_Queue Shutdown
begin

text \<open>
  The application's side of a connection (\<open>src/ustunet/src/stream/mod.rs\<close>): the two halves of
  a \<open>TcpStream\<close> and their polling functions.

  The halves and the loop share three cells behind locks: the socket with its \<open>polling_active\<close>
  flag (\<open>Inner\<close>), and one optional waker for each direction (\<open>SharedState\<close>). An operation
  takes the contents of the cells it locks and returns the new contents. A task's waker is a
  number. The lock of the socket is a library's; whether it could be taken is an argument.
\<close>

section \<open>Shared cells\<close>

type_synonym waker = nat

record 's inner =
  tcp :: 's
  polling_active :: bool

record shared_state =
  waker_of :: "waker option"

text \<open>Taking the waker and waking it; the result names the tasks woken.\<close>

definition wake_once :: "shared_state \<Rightarrow> shared_state \<times> waker list" where
  "wake_once s =
     (case waker_of s of
        Some w \<Rightarrow> (s\<lparr>waker_of := None\<rparr>, [w])
      | None \<Rightarrow> (s, []))"

section \<open>The halves\<close>

record read_half =
  rh_eof_reached :: bool
  rh_shutdown_notifier :: half_close_sender

record write_half =
  wh_handle :: socket_handle
  wh_shutdown_notifier :: half_close_sender

record tcp_stream =
  ts_writer :: write_half
  ts_reader :: read_half
  ts_addr :: addr_pair

definition ReadHalf_new :: "half_close_sender \<Rightarrow> read_half \<times> shared_state" where
  "ReadHalf_new n = (\<lparr>rh_eof_reached = False, rh_shutdown_notifier = n\<rparr>, \<lparr>waker_of = None\<rparr>)"

definition WriteHalf_new :: "socket_handle \<Rightarrow> half_close_sender \<Rightarrow> write_half \<times> shared_state" where
  "WriteHalf_new h n = (\<lparr>wh_handle = h, wh_shutdown_notifier = n\<rparr>, \<lparr>waker_of = None\<rparr>)"

definition TcpStream_local_addr :: "tcp_stream \<Rightarrow> socket_addr" where
  "TcpStream_local_addr s = local_side (ts_addr s)"

definition TcpStream_peer_addr :: "tcp_stream \<Rightarrow> socket_addr" where
  "TcpStream_peer_addr s = peer (ts_addr s)"

definition TcpStream_split :: "tcp_stream \<Rightarrow> read_half \<times> write_half" where
  "TcpStream_split s = (ts_reader s, ts_writer s)"

section \<open>Reading\<close>

text \<open>What happens when no byte was read: wait, report the end once, or fail.\<close>

definition read_nothing ::
    "'s tcp_api \<Rightarrow> waker \<Rightarrow> 's \<Rightarrow> read_half \<Rightarrow> shared_state \<Rightarrow>
     (io_error, nat) result poll \<times> read_half \<times> shared_state" where
  "read_nothing A wk t rh sh =
     (if sk_may_recv A t \<or> sk_state A t = SynReceived
      then (Pending, rh, sh\<lparr>waker_of := Some wk\<rparr>)
      else if rh_eof_reached rh then (Ready (Inl ConnectionAborted), rh, sh)
      else (Ready (Inr 0), rh\<lparr>rh_eof_reached := True\<rparr>, sh))"

definition ReadHalf_poll_read_inner ::
    "'s tcp_api \<Rightarrow> bool \<Rightarrow> waker \<Rightarrow> bytes \<Rightarrow> read_half \<Rightarrow> 's inner \<Rightarrow> shared_state \<Rightarrow>
     (io_error, nat) result poll \<times> bytes \<times> read_half \<times> 's inner \<times> shared_state" where
  "ReadHalf_poll_read_inner A lock_free wk buf rh inn sh =
     (if \<not> lock_free then (Pending, buf, rh, inn, sh)
      else if sk_can_recv A (tcp inn) then
        (case sk_recv_slice A (tcp inn) buf of
           (Inl e, buf', t) \<Rightarrow> (Ready (Inl (IoOther e)), buf', rh, inn\<lparr>tcp := t\<rparr>, sh)
         | (Inr n, buf', t) \<Rightarrow>
             if 0 < n then (Ready (Inr n), buf', rh, inn\<lparr>tcp := t\<rparr>, sh)
             else (case read_nothing A wk t rh sh of
                     (r, rh', sh') \<Rightarrow> (r, buf', rh', inn\<lparr>tcp := t\<rparr>, sh')))
      else (case read_nothing A wk (tcp inn) rh sh of
              (r, rh', sh') \<Rightarrow> (r, buf, rh', inn, sh')))"

text \<open>
  The reading of \<open>tokio\<close> fills a \<open>ReadBuf\<close>, a type of that library: its operations are a
  parameter. The unfilled part is handed out as a slice, and the filled part is advanced.
\<close>

record 'r read_buf_api =
  rb_initialize_unfilled :: "'r \<Rightarrow> bytes"
  rb_store :: "'r \<Rightarrow> bytes \<Rightarrow> 'r"
  rb_advance :: "'r \<Rightarrow> nat \<Rightarrow> 'r outcome"

definition ReadHalf_poll_read ::
    "'s tcp_api \<Rightarrow> 'r read_buf_api \<Rightarrow> bool \<Rightarrow> waker \<Rightarrow> 'r \<Rightarrow> read_half \<Rightarrow> 's inner \<Rightarrow> shared_state \<Rightarrow>
     ((io_error, unit) result poll \<times> 'r \<times> read_half \<times> 's inner \<times> shared_state) outcome" where
  "ReadHalf_poll_read A B lock_free wk rb rh inn sh =
     (case ReadHalf_poll_read_inner A lock_free wk (rb_initialize_unfilled B rb) rh inn sh of
        (r, b, rh', inn', sh') \<Rightarrow>
          let rb1 = rb_store B rb b
          in (case r of
                Pending \<Rightarrow> Done (Pending, rb1, rh', inn', sh')
              | Ready (Inl e) \<Rightarrow> Done (Ready (Inl e), rb1, rh', inn', sh')
              | Ready (Inr n) \<Rightarrow>
                  and_then (rb_advance B rb1 n) (\<lambda>rb2. Done (Ready (Inr ()), rb2, rh', inn', sh'))))"

section \<open>Writing and closing\<close>

definition WriteHalf_poll_write_inner ::
    "'s tcp_api \<Rightarrow> bool \<Rightarrow> bool \<Rightarrow> waker \<Rightarrow> bytes \<Rightarrow> write_half \<Rightarrow> 's inner \<Rightarrow> shared_state \<Rightarrow>
     ((io_error, nat) result poll \<times> 's inner \<times> shared_state \<times> poll_update list) outcome" where
  "WriteHalf_poll_write_inner A alive lock_free wk buf wh inn sh =
     (if \<not> lock_free then Done (Pending, inn, sh, [])
      else let inactive = (\<not> polling_active inn)
      in case (if sk_can_send A (tcp inn) then sk_send_slice A (tcp inn) buf else (Inr 0, tcp inn)) of
           (Inl e, t) \<Rightarrow> Done (Ready (Inl (IoOther e)), inn\<lparr>tcp := t\<rparr>, sh, [])
         | (Inr n, t) \<Rightarrow>
             and_then (if inactive then QueueUpdater_send alive (wh_handle wh) (sk_poll_at A t) else Done [])
               (\<lambda>ms. Done
                 (if 0 < n then (Ready (Inr n), inn\<lparr>tcp := t\<rparr>, sh, ms)
                  else if \<not> sk_may_send A t
                  then (Ready (Inl ConnectionAborted), inn\<lparr>tcp := t\<rparr>, sh, ms)
                  else (Pending, inn\<lparr>tcp := t\<rparr>, sh\<lparr>waker_of := Some wk\<rparr>, ms))))"

definition WriteHalf_poll_close_inner ::
    "'s tcp_api \<Rightarrow> bool \<Rightarrow> bool \<Rightarrow> write_half \<Rightarrow> 's inner \<Rightarrow>
     (unit poll \<times> 's inner \<times> poll_update list) outcome" where
  "WriteHalf_poll_close_inner A alive lock_free wh inn =
     (if \<not> lock_free then Done (Pending, inn, [])
      else let t = sk_close A (tcp inn)
      in and_then (if \<not> polling_active inn then QueueUpdater_send alive (wh_handle wh) (sk_poll_at A t)
                   else Done [])
           (\<lambda>ms. Done (Ready (), inn\<lparr>tcp := t\<rparr>, ms)))"

definition WriteHalf_poll_flush :: "(io_error, unit) result poll" where
  "WriteHalf_poll_flush = Ready (Inr ())"

definition WriteHalf_poll_shutdown ::
    "'s tcp_api \<Rightarrow> bool \<Rightarrow> bool \<Rightarrow> write_half \<Rightarrow> 's inner \<Rightarrow>
     ((io_error, unit) result poll \<times> 's inner \<times> poll_update list) outcome" where
  "WriteHalf_poll_shutdown A alive lock_free wh inn =
     and_then (WriteHalf_poll_close_inner A alive lock_free wh inn)
       (\<lambda>(r, inn', ms). Done (poll_map (\<lambda>_. Inr ()) r, inn', ms))"

text \<open>
  \<open>close\<close> polls the above until it is ready. The list holds the answers of the lock to its polls;
  when they run out the call is still waiting.
\<close>

fun WriteHalf_close ::
    "'s tcp_api \<Rightarrow> bool \<Rightarrow> bool list \<Rightarrow> write_half \<Rightarrow> 's inner \<Rightarrow>
     (unit poll \<times> 's inner \<times> poll_update list) outcome" where
  "WriteHalf_close A alive [] wh inn = Done (Pending, inn, [])"
| "WriteHalf_close A alive (lock_free # ls) wh inn =
     and_then (WriteHalf_poll_close_inner A alive lock_free wh inn) (\<lambda>(r, inn', ms).
       case r of
         Ready u \<Rightarrow> Done (Ready u, inn', ms)
       | Pending \<Rightarrow>
           and_then (WriteHalf_close A alive ls wh inn') (\<lambda>(r2, inn2, ms2). Done (r2, inn2, ms @ ms2)))"

section \<open>Dropping a half\<close>

definition ReadHalf_drop :: "bool \<Rightarrow> read_half \<Rightarrow> close_msg list outcome" where
  "ReadHalf_drop alive rh = HalfCloseSender_notify alive (rh_shutdown_notifier rh)"

definition WriteHalf_drop :: "bool \<Rightarrow> write_half \<Rightarrow> close_msg list outcome" where
  "WriteHalf_drop alive wh = HalfCloseSender_notify alive (wh_shutdown_notifier wh)"

text \<open>Dropping a whole stream drops its fields in the order of their declaration.\<close>

definition TcpStream_drop :: "bool \<Rightarrow> tcp_stream \<Rightarrow> close_msg list outcome" where
  "TcpStream_drop alive s =
     and_then (WriteHalf_drop alive (ts_writer s)) (\<lambda>m1.
       and_then (ReadHalf_drop alive (ts_reader s)) (\<lambda>m2. Done (m1 @ m2)))"

section \<open>The stream forwards to its halves\<close>

definition TcpStream_poll_read ::
    "'s tcp_api \<Rightarrow> bool \<Rightarrow> waker \<Rightarrow> bytes \<Rightarrow> tcp_stream \<Rightarrow> 's inner \<Rightarrow> shared_state \<Rightarrow>
     (io_error, nat) result poll \<times> bytes \<times> tcp_stream \<times> 's inner \<times> shared_state" where
  "TcpStream_poll_read A lock_free wk buf s inn sh =
     (case ReadHalf_poll_read_inner A lock_free wk buf (ts_reader s) inn sh of
        (r, buf', rh, inn', sh') \<Rightarrow> (r, buf', s\<lparr>ts_reader := rh\<rparr>, inn', sh'))"

definition TcpStream_poll_read_buf ::
    "'s tcp_api \<Rightarrow> 'r read_buf_api \<Rightarrow> bool \<Rightarrow> waker \<Rightarrow> 'r \<Rightarrow> tcp_stream \<Rightarrow> 's inner \<Rightarrow> shared_state \<Rightarrow>
     ((io_error, unit) result poll \<times> 'r \<times> tcp_stream \<times> 's inner \<times> shared_state) outcome" where
  "TcpStream_poll_read_buf A B lock_free wk rb s inn sh =
     (case ReadHalf_poll_read_inner A lock_free wk (rb_initialize_unfilled B rb) (ts_reader s) inn sh of
        (r, b, rh, inn', sh') \<Rightarrow>
          let rb1 = rb_store B rb b; s' = s\<lparr>ts_reader := rh\<rparr>
          in (case r of
                Pending \<Rightarrow> Done (Pending, rb1, s', inn', sh')
              | Ready (Inl e) \<Rightarrow> Done (Ready (Inl e), rb1, s', inn', sh')
              | Ready (Inr n) \<Rightarrow>
                  and_then (rb_advance B rb1 n) (\<lambda>rb2. Done (Ready (Inr ()), rb2, s', inn', sh'))))"

definition TcpStream_close ::
    "'s tcp_api \<Rightarrow> bool \<Rightarrow> bool list \<Rightarrow> tcp_stream \<Rightarrow> 's inner \<Rightarrow>
     (unit poll \<times> 's inner \<times> poll_update list) outcome" where
  "TcpStream_close A alive ls s inn = WriteHalf_close A alive ls (ts_writer s) inn"

definition TcpStream_poll_write ::
    "'s tcp_api \<Rightarrow> bool \<Rightarrow> bool \<Rightarrow> waker \<Rightarrow> bytes \<Rightarrow> tcp_stream \<Rightarrow> 's inner \<Rightarrow> shared_state \<Rightarrow>
     ((io_error, nat) result poll \<times> 's inner \<times> shared_state \<times> poll_update list) outcome" where
  "TcpStream_poll_write A alive lock_free wk buf s inn sh =
     WriteHalf_poll_write_inner A alive lock_free wk buf (ts_writer s) inn sh"

definition TcpStream_poll_flush :: "(io_error, unit) result poll" where
  "TcpStream_poll_flush = Ready (Inr ())"

definition TcpStream_poll_shutdown ::
    "'s tcp_api \<Rightarrow> bool \<Rightarrow> bool \<Rightarrow> tcp_stream \<Rightarrow> 's inner \<Rightarrow>
     ((io_error, unit) result poll \<times> 's inner \<times> poll_update list) outcome" where
  "TcpStream_poll_shutdown A alive lock_free s inn =
     and_then (WriteHalf_poll_close_inner A alive lock_free (ts_writer s) inn)
       (\<lambda>(r, inn', ms). Done (poll_map (\<lambda>_. Inr ()) r, inn', ms))"

text \<open>The halves as fields, and the traits of \<open>futures\<close> beside those of \<open>tokio\<close>.\<close>

definition TcpStream_reader :: "tcp_stream \<Rightarrow> read_half" where
  "TcpStream_reader s = ts_reader s"

definition TcpStream_writer :: "tcp_stream \<Rightarrow> write_half" where
  "TcpStream_writer s = ts_writer s"

definition TcpStream_futures_poll_write ::
    "'s tcp_api \<Rightarrow> bool \<Rightarrow> bool \<Rightarrow> waker \<Rightarrow> bytes \<Rightarrow> tcp_stream \<Rightarrow> 's inner \<Rightarrow> shared_state \<Rightarrow>
     ((io_error, nat) result poll \<times> 's inner \<times> shared_state \<times> poll_update list) outcome" where
  "TcpStream_futures_poll_write A alive lock_free wk buf s inn sh =
     WriteHalf_poll_write_inner A alive lock_free wk buf (ts_writer s) inn sh"

definition TcpStream_futures_poll_flush :: "(io_error, unit) result poll" where
  "TcpStream_futures_poll_flush = Ready (Inr ())"

definition TcpStream_futures_poll_close ::
    "'s tcp_api \<Rightarrow> bool \<Rightarrow> bool \<Rightarrow> tcp_stream \<Rightarrow> 's inner \<Rightarrow>
     ((io_error, unit) result poll \<times> 's inner \<times> poll_update list) outcome" where
  "TcpStream_futures_poll_close A alive lock_free s inn =
     and_then (WriteHalf_poll_close_inner A alive lock_free (ts_writer s) inn)
       (\<lambda>(r, inn', ms). Done (poll_map (\<lambda>_. Inr ()) r, inn', ms))"

definition ReadHalf_futures_poll_read ::
    "'s tcp_api \<Rightarrow> bool \<Rightarrow> waker \<Rightarrow> bytes \<Rightarrow> read_half \<Rightarrow> 's inner \<Rightarrow> shared_state \<Rightarrow>
     (io_error, nat) result poll \<times> bytes \<times> read_half \<times> 's inner \<times> shared_state" where
  "ReadHalf_futures_poll_read A lock_free wk buf rh inn sh =
     ReadHalf_poll_read_inner A lock_free wk buf rh inn sh"

definition WriteHalf_poll_write ::
    "'s tcp_api \<Rightarrow> bool \<Rightarrow> bool \<Rightarrow> waker \<Rightarrow> bytes \<Rightarrow> write_half \<Rightarrow> 's inner \<Rightarrow> shared_state \<Rightarrow>
     ((io_error, nat) result poll \<times> 's inner \<times> shared_state \<times> poll_update list) outcome" where
  "WriteHalf_poll_write A alive lock_free wk buf wh inn sh =
     WriteHalf_poll_write_inner A alive lock_free wk buf wh inn sh"

definition WriteHalf_futures_poll_write ::
    "'s tcp_api \<Rightarrow> bool \<Rightarrow> bool \<Rightarrow> waker \<Rightarrow> bytes \<Rightarrow> write_half \<Rightarrow> 's inner \<Rightarrow> shared_state \<Rightarrow>
     ((io_error, nat) result poll \<times> 's inner \<times> shared_state \<times> poll_update list) outcome" where
  "WriteHalf_futures_poll_write A alive lock_free wk buf wh inn sh =
     WriteHalf_poll_write_inner A alive lock_free wk buf wh inn sh"

definition WriteHalf_futures_poll_flush :: "(io_error, unit) result poll" where
  "WriteHalf_futures_poll_flush = Ready (Inr ())"

definition WriteHalf_futures_poll_close ::
    "'s tcp_api \<Rightarrow> bool \<Rightarrow> bool \<Rightarrow> write_half \<Rightarrow> 's inner \<Rightarrow>
     ((io_error, unit) result poll \<times> 's inner \<times> poll_update list) outcome" where
  "WriteHalf_futures_poll_close A alive lock_free wh inn =
     and_then (WriteHalf_poll_close_inner A alive lock_free wh inn)
       (\<lambda>(r, inn', ms). Done (case r of Pending \<Rightarrow> Pending | Ready u \<Rightarrow> Ready (Inr ()), inn', ms))"

section \<open>One operation at a time\<close>

text \<open>Waiting always leaves the task's waker behind, unless the lock itself has it.\<close>

lemma poll_read_pending:
  assumes "ReadHalf_poll_read_inner A True wk buf rh inn sh = (Pending, buf', rh', inn', sh')"
  shows "waker_of sh' = Some wk" and "rh' = rh"
    and "sk_may_recv A (tcp inn') \<or> sk_state A (tcp inn') = SynReceived"
    and "polling_active inn' = polling_active inn"
  using assms
  by (auto simp: ReadHalf_poll_read_inner_def read_nothing_def split: if_splits prod.splits sum.splits)

lemma poll_read_keeps [frame_simps]:
  assumes "ReadHalf_poll_read_inner A lf wk buf rh inn sh = (r, buf', rh', inn', sh')"
  shows "polling_active inn' = polling_active inn"
    and "rh_shutdown_notifier rh' = rh_shutdown_notifier rh"
  using assms
  by (auto simp: ReadHalf_poll_read_inner_def read_nothing_def split: if_splits prod.splits sum.splits)

lemma poll_write_keeps [frame_simps]:
  assumes "WriteHalf_poll_write_inner A alive lf wk buf wh inn sh = Done (r, inn', sh', ms)"
  shows "polling_active inn' = polling_active inn"
    and "set ms \<subseteq> {(wh_handle wh, sk_poll_at A (tcp inn'))}"
  using assms
  by (auto simp: WriteHalf_poll_write_inner_def QueueUpdater_send_def Let_def
      split: if_splits prod.splits sum.splits)

lemma poll_close_keeps [frame_simps]:
  assumes "WriteHalf_poll_close_inner A alive lf wh inn = Done (r, inn', ms)"
  shows "polling_active inn' = polling_active inn"
    and "set ms \<subseteq> {(wh_handle wh, sk_poll_at A (tcp inn'))}"
  using assms
  by (auto simp: WriteHalf_poll_close_inner_def QueueUpdater_send_def Let_def split: if_splits)

lemma poll_write_pending:
  assumes "WriteHalf_poll_write_inner A alive True wk buf wh inn sh = Done (Pending, inn', sh', ms)"
  shows "waker_of sh' = Some wk" and "sk_may_send A (tcp inn')"
  using assms
  by (auto simp: WriteHalf_poll_write_inner_def QueueUpdater_send_def Let_def
      split: if_splits prod.splits sum.splits)

text \<open>What a write or a close changes is scheduled: the loop is polling, or it is told to.\<close>

lemma poll_write_scheduled:
  assumes "WriteHalf_poll_write_inner A alive True wk buf wh inn sh = Done (r, inn', sh', ms)"
    and "\<And>e. r \<noteq> Ready (Inl (IoOther e))"
  shows "ms = (if polling_active inn then [] else [(wh_handle wh, sk_poll_at A (tcp inn'))])"
  using assms
  by (auto simp: WriteHalf_poll_write_inner_def QueueUpdater_send_def Let_def
      split: if_splits prod.splits sum.splits)

lemma poll_close_scheduled:
  assumes "WriteHalf_poll_close_inner A alive True wh inn = Done (r, inn', ms)"
  shows "r = Ready ()" and "tcp inn' = sk_close A (tcp inn)"
    and "ms = (if polling_active inn then [] else [(wh_handle wh, sk_poll_at A (tcp inn'))])"
  using assms
  by (auto simp: WriteHalf_poll_close_inner_def QueueUpdater_send_def Let_def split: if_splits)

text \<open>Closing waits for the lock, and then closes the socket once.\<close>

lemma WriteHalf_close_once:
  assumes "True \<in> set ls"
  shows "WriteHalf_close A alive ls wh inn = WriteHalf_close A alive [True] wh inn"
  using assms
proof (induction ls)
  case (Cons l ls)
  then show ?case
  proof (cases l)
    case True
    then show ?thesis
      by (auto simp: WriteHalf_poll_close_inner_def Let_def and_then_assoc)
  next
    case False
    then have "WriteHalf_close A alive (l # ls) wh inn = WriteHalf_close A alive ls wh inn"
      by (simp add: WriteHalf_poll_close_inner_def case_prod_beta)
    with Cons False show ?thesis
      by (auto simp del: WriteHalf_close.simps)
  qed
qed simp

text \<open>The stream's reading is its reader's.\<close>

lemma TcpStream_poll_read_buf_eq:
  "TcpStream_poll_read_buf A B lf wk rb s inn sh =
     and_then (ReadHalf_poll_read A B lf wk rb (ts_reader s) inn sh)
       (\<lambda>(r, rb', rh, inn', sh'). Done (r, rb', s\<lparr>ts_reader := rh\<rparr>, inn', sh'))"
  by (auto simp: TcpStream_poll_read_buf_def ReadHalf_poll_read_def Let_def and_then_assoc
      split: prod.split poll.split sum.split)

lemma write_no_panic:
  "no_panic (WriteHalf_poll_write_inner A True lf wk buf wh inn sh)"
  by (auto simp: WriteHalf_poll_write_inner_def QueueUpdater_send_def Let_def
      split: prod.splits sum.splits)

lemma close_no_panic: "no_panic (WriteHalf_poll_close_inner A True lf wh inn)"
  by (auto simp: WriteHalf_poll_close_inner_def QueueUpdater_send_def Let_def)

section \<open>Sequences of reads and writes\<close>

text \<open>
  A client that reads, or writes, several times. A call is the lock's answer, the task's waker and
  the buffer; the bytes that a reader gets and the bytes that a writer's calls accept are collected.
\<close>

fun read_calls ::
    "'s tcp_api \<Rightarrow> (bool \<times> waker \<times> bytes) list \<Rightarrow> read_half \<Rightarrow> 's inner \<Rightarrow> shared_state \<Rightarrow>
     (io_error, nat) result poll list \<times> bytes \<times> read_half \<times> 's inner \<times> shared_state" where
  "read_calls A [] rh inn sh = ([], [], rh, inn, sh)"
| "read_calls A ((lf, wk, buf) # cs) rh inn sh =
     (case ReadHalf_poll_read_inner A lf wk buf rh inn sh of
        (r, buf', rh1, inn1, sh1) \<Rightarrow>
          (case read_calls A cs rh1 inn1 sh1 of
             (rs, got, rest) \<Rightarrow>
               (r # rs, (case r of Ready (Inr n) \<Rightarrow> take n buf' | _ \<Rightarrow> []) @ got, rest)))"

fun write_calls ::
    "'s tcp_api \<Rightarrow> bool \<Rightarrow> (bool \<times> waker \<times> bytes) list \<Rightarrow> write_half \<Rightarrow> 's inner \<Rightarrow> shared_state \<Rightarrow>
     (bytes \<times> 's inner \<times> shared_state \<times> poll_update list) outcome" where
  "write_calls A alive [] wh inn sh = Done ([], inn, sh, [])"
| "write_calls A alive ((lf, wk, buf) # cs) wh inn sh =
     and_then (WriteHalf_poll_write_inner A alive lf wk buf wh inn sh) (\<lambda>(r, inn1, sh1, ms).
     and_then (write_calls A alive cs wh inn1 sh1) (\<lambda>(acc, inn2, sh2, ms2).
       Done ((case r of Ready (Inr n) \<Rightarrow> take n buf | _ \<Rightarrow> []) @ acc, inn2, sh2, ms @ ms2)))"

text \<open>
  The end of the stream is reported once; after that a read fails.
\<close>

definition at_end :: "'s tcp_api \<Rightarrow> 's \<Rightarrow> bool" where
  "at_end A t \<longleftrightarrow> \<not> sk_can_recv A t \<and> \<not> sk_may_recv A t \<and> sk_state A t \<noteq> SynReceived"

lemma poll_read_at_end:
  assumes "at_end A (tcp inn)"
  shows "ReadHalf_poll_read_inner A True wk buf rh inn sh =
    (if rh_eof_reached rh then (Ready (Inl ConnectionAborted), buf, rh, inn, sh)
     else (Ready (Inr 0), buf, rh\<lparr>rh_eof_reached := True\<rparr>, inn, sh))"
  using assms by (simp add: ReadHalf_poll_read_inner_def read_nothing_def at_end_def)

lemma read_calls_after_end:
  assumes "at_end A (tcp inn)" and "rh_eof_reached rh" and "list_all fst cs"
  shows "fst (read_calls A cs rh inn sh) = replicate (length cs) (Ready (Inl ConnectionAborted))"
  using assms
proof (induction cs)
  case (Cons c cs)
  obtain wk buf where "c = (True, wk, buf)"
    using Cons.prems(3) by (cases c) auto
  with Cons show ?case
    by (auto simp: poll_read_at_end split: prod.splits)
qed simp

section \<open>Bytes are neither lost nor reordered\<close>

text \<open>
  What the library documents of its buffers: a slice is filled from the front of the received
  bytes, an error takes none, and the bytes accepted for sending go to the end of the send buffer.
\<close>

locale socket_buffers =
  fixes A :: "'s tcp_api"
    and rx :: "'s \<Rightarrow> bytes"
    and tx :: "'s \<Rightarrow> bytes"
  assumes recv_ok: "sk_recv_slice A t buf = (Inr n, buf', t') \<Longrightarrow>
      n \<le> length (rx t) \<and> take n buf' = take n (rx t) \<and> rx t' = drop n (rx t)"
    and recv_error: "sk_recv_slice A t buf = (Inl e, buf', t') \<Longrightarrow> rx t' = rx t"
    and send_ok: "sk_send_slice A t buf = (Inr n, t') \<Longrightarrow> tx t' = tx t @ take n buf"
    and send_error: "sk_send_slice A t buf = (Inl e, t') \<Longrightarrow> tx t' = tx t"
begin

lemma poll_read_bytes:
  assumes "ReadHalf_poll_read_inner A lf wk buf rh inn sh = (r, buf', rh', inn', sh')"
  shows "(case r of Ready (Inr n) \<Rightarrow> take n buf' | _ \<Rightarrow> []) @ rx (tcp inn') = rx (tcp inn)"
  using assms
  by (auto simp: ReadHalf_poll_read_inner_def read_nothing_def
      split: if_splits prod.splits sum.splits dest!: recv_ok recv_error)

lemma read_calls_bytes:
  "read_calls A cs rh inn sh = (rs, got, rh', inn', sh') \<Longrightarrow> got @ rx (tcp inn') = rx (tcp inn)"
proof (induction cs arbitrary: rs got rh inn sh)
  case (Cons c cs)
  obtain lf wk buf where c: "c = (lf, wk, buf)" by (cases c)
  obtain r buf1 rh1 inn1 sh1 where
    call: "ReadHalf_poll_read_inner A lf wk buf rh inn sh = (r, buf1, rh1, inn1, sh1)"
    by (metis prod.exhaust)
  obtain rs2 got2 where rest: "read_calls A cs rh1 inn1 sh1 = (rs2, got2, rh', inn', sh')"
    and got: "got = (case r of Ready (Inr n) \<Rightarrow> take n buf1 | _ \<Rightarrow> []) @ got2"
    using Cons.prems c call by (auto split: prod.splits)
  show ?case
    using Cons.IH [OF rest] poll_read_bytes [OF call] got by simp
qed simp

lemma poll_write_bytes:
  assumes "WriteHalf_poll_write_inner A alive lf wk buf wh inn sh = Done (r, inn', sh', ms)"
  shows "tx (tcp inn') = tx (tcp inn) @ (case r of Ready (Inr n) \<Rightarrow> take n buf | _ \<Rightarrow> [])"
  using assms
  by (auto simp: WriteHalf_poll_write_inner_def QueueUpdater_send_def Let_def
      split: if_splits prod.splits sum.splits dest!: send_ok send_error)

lemma write_calls_bytes:
  "write_calls A alive cs wh inn sh = Done (acc, inn', sh', ms) \<Longrightarrow>
     tx (tcp inn') = tx (tcp inn) @ acc"
proof (induction cs arbitrary: acc inn sh ms)
  case (Cons c cs)
  obtain lf wk buf where c: "c = (lf, wk, buf)" by (cases c)
  obtain r inn1 sh1 ms1 acc2 ms2 where
    call: "WriteHalf_poll_write_inner A alive lf wk buf wh inn sh = Done (r, inn1, sh1, ms1)"
    and rest: "write_calls A alive cs wh inn1 sh1 = Done (acc2, inn', sh', ms2)"
    and acc: "acc = (case r of Ready (Inr n) \<Rightarrow> take n buf | _ \<Rightarrow> []) @ acc2"
    using Cons.prems c by auto
  show ?case
    using Cons.IH [OF rest] poll_write_bytes [OF call] acc by simp
qed simp

end

text \<open>The sample socket has such buffers.\<close>


interpretation sample_buf: socket_buffers sample_tcp so_rx so_tx
  by unfold_locales (auto simp: sample_tcp_def Let_def)

lemma sample_poll_times: "representable (\<lambda>_. True) (Clock_new 0) (sk_poll_at sample_tcp t)"
  by (simp add: sample_tcp_def Clock_new_def instant_limit_def nanos_simps)

section \<open>Reading into a buffer of \<open>tokio\<close>\<close>

text \<open>
  What is documented of \<open>ReadBuf\<close>: the unfilled part can be written without touching the filled
  one, and \<open>advance\<close> moves its front to the filled part; it panics beyond the end. A
  socket writes inside the slice it is given.
\<close>

locale read_buffers =
  fixes A :: "'s tcp_api"
    and B :: "'r read_buf_api"
    and filled :: "'r \<Rightarrow> bytes"
  assumes recv_in_slice: "sk_recv_slice A t buf = (r, buf', t') \<Longrightarrow>
      length buf' = length buf \<and> (\<forall>n. r = Inr n \<longrightarrow> n \<le> length buf)"
    and store_filled: "length b = length (rb_initialize_unfilled B rb) \<Longrightarrow> filled (rb_store B rb b) = filled rb"
    and advance_filled: "length b = length (rb_initialize_unfilled B rb) \<Longrightarrow> n \<le> length b \<Longrightarrow>
      \<exists>rb'. rb_advance B (rb_store B rb b) n = Done rb' \<and> filled rb' = filled rb @ take n b"
begin

lemma poll_read_in_slice:
  assumes "ReadHalf_poll_read_inner A lf wk buf rh inn sh = (r, buf', rh', inn', sh')"
  shows "length buf' = length buf \<and> (\<forall>n. r = Ready (Inr n) \<longrightarrow> n \<le> length buf)"
  using assms
  by (auto simp: ReadHalf_poll_read_inner_def read_nothing_def
      split: if_splits prod.splits sum.splits dest!: recv_in_slice)

lemma poll_read_buf:
  assumes "ReadHalf_futures_poll_read A lf wk (rb_initialize_unfilled B rb) rh inn sh = (r, buf, rh', inn', sh')"
  shows "\<exists>rb'. ReadHalf_poll_read A B lf wk rb rh inn sh =
      Done (poll_map (map_sum id (\<lambda>_. ())) r, rb', rh', inn', sh')
    \<and> filled rb' = filled rb @ (case r of Ready (Inr n) \<Rightarrow> take n buf | _ \<Rightarrow> [])"
proof -
  note read = assms [unfolded ReadHalf_futures_poll_read_def]
  note slice = poll_read_in_slice [OF read]
  show ?thesis
  proof (cases "\<exists>n. r = Ready (Inr n)")
    case True
    with slice advance_filled [of buf rb] read show ?thesis
      by (fastforce simp: ReadHalf_poll_read_def)
  next
    case False
    with slice store_filled [of buf rb] read show ?thesis
      by (auto simp: ReadHalf_poll_read_def split: poll.split sum.split)
  qed
qed

end

text \<open>A buffer as its filled and its unfilled part.\<close>

definition sample_read_buf :: "(bytes \<times> bytes) read_buf_api" where
  "sample_read_buf =
     \<lparr>rb_initialize_unfilled = snd,
      rb_store = (\<lambda>(f, u) b. (f, b)),
      rb_advance = (\<lambda>(f, u) k. if k \<le> length u then Done (f @ take k u, drop k u) else Panicked SliceOutOfRange)\<rparr>"

interpretation sample_rb: read_buffers sample_tcp sample_read_buf fst
  by unfold_locales (auto simp: sample_tcp_def sample_read_buf_def Let_def)

lemma closing_traits_agree: "WriteHalf_futures_poll_close = WriteHalf_poll_shutdown"
proof (intro ext)
  fix A :: "'s tcp_api" and alive lf wh inn
  show "WriteHalf_futures_poll_close A alive lf wh inn = WriteHalf_poll_shutdown A alive lf wh inn"
    by (cases "WriteHalf_poll_close_inner A alive lf wh inn")
      (auto simp: WriteHalf_futures_poll_close_def WriteHalf_poll_shutdown_def split: poll.split)
qed

section \<open>Properties of the stream\<close>

text \<open>
  End of stream: when the peer is done and every byte was read, the first read reports the end
  with a count of zero, and each later read fails with \<open>ConnectionAborted\<close>; none waits.
\<close>

theorem end_reported_once:
  assumes "at_end A (tcp inn)" and "\<not> rh_eof_reached rh" and "list_all fst cs"
  shows "fst (read_calls A ((True, wk, buf) # cs) rh inn sh) =
    Ready (Inr 0) # replicate (length cs) (Ready (Inl ConnectionAborted))"
  using read_calls_after_end [OF assms(1) _ assms(3), of "rh\<lparr>rh_eof_reached := True\<rparr>" sh] assms(2)
  by (simp add: poll_read_at_end [OF assms(1)] case_prod_beta)

abbreviation closed_inner :: "sock inner" where
  "closed_inner \<equiv> \<lparr>tcp = sk_new sample_tcp 16 16, polling_active = False\<rparr>"

abbreviation open_inner :: "sock inner" where
  "open_inner \<equiv> \<lparr>tcp = (sk_new sample_tcp 16 16)\<lparr>so_state := Established, so_rx := [1, 2, 3]\<rparr>,
     polling_active = False\<rparr>"

abbreviation sample_reader :: read_half where
  "sample_reader \<equiv> \<lparr>rh_eof_reached = False, rh_shutdown_notifier = CloseSender_build sample_handle CloseRead\<rparr>"

abbreviation sample_writer :: write_half where
  "sample_writer \<equiv> \<lparr>wh_handle = sample_handle,
     wh_shutdown_notifier = CloseSender_build sample_handle CloseWrite\<rparr>"

theorem end_reported_once_witness:
  "fst (read_calls sample_tcp [(True, 4, [0, 0]), (True, 5, [0])] sample_reader closed_inner \<lparr>waker_of = None\<rparr>) =
     [Ready (Inr 0), Ready (Inl ConnectionAborted)]"
  using end_reported_once [of sample_tcp closed_inner sample_reader "[(True, 5, [0])]" 4 "[0, 0]"
      "\<lparr>waker_of = None\<rparr>"]
  by (simp add: at_end_def sample_tcp_def)

text \<open>
  (C25) Reading: whatever the sizes of the buffers and however often a read has to wait, the bytes
  the application gets, followed by those still in the socket, are the bytes the socket held.
\<close>

theorem reads_preserve_bytes:
  assumes "socket_buffers A rx tx"
    and "read_calls A cs rh inn sh = (rs, got, rh', inn', sh')"
  shows "got @ rx (tcp inn') = rx (tcp inn)"
  using assms by (rule socket_buffers.read_calls_bytes)

lemma sample_reads:
  "read_calls sample_tcp [(True, 4, [0, 0]), (False, 4, [0]), (True, 4, [0, 0])] sample_reader open_inner
     \<lparr>waker_of = None\<rparr> =
   ([Ready (Inr 2), Pending, Ready (Inr 1)], [1, 2, 3], sample_reader,
     \<lparr>tcp = (tcp open_inner)\<lparr>so_rx := []\<rparr>, polling_active = False\<rparr>, \<lparr>waker_of = None\<rparr>)"
  by (simp add: sample_tcp_def ReadHalf_poll_read_inner_def)

theorem reads_preserve_bytes_witness: "[1, 2, 3] @ [] = so_rx (tcp open_inner)"
  using reads_preserve_bytes [OF sample_buf.socket_buffers_axioms sample_reads] by simp

text \<open>
  (C26) Writing: over any sequence of calls the socket's send buffer grows by exactly the bytes the
  calls reported as accepted, in order; a call that waits or fails adds none.
\<close>

theorem writes_preserve_bytes:
  assumes "socket_buffers A rx tx"
    and "write_calls A alive cs wh inn sh = Done (acc, inn', sh', ms)"
  shows "tx (tcp inn') = tx (tcp inn) @ acc"
  using assms by (rule socket_buffers.write_calls_bytes)

lemma sample_writes:
  "write_calls sample_tcp True [(True, 4, [7, 8]), (False, 4, [9])] sample_writer open_inner \<lparr>waker_of = None\<rparr> =
   Done ([7, 8], \<lparr>tcp = (tcp open_inner)\<lparr>so_tx := [7, 8]\<rparr>, polling_active = False\<rparr>, \<lparr>waker_of = None\<rparr>,
     [(sample_handle, Ingress)])"
  by (simp add: sample_tcp_def WriteHalf_poll_write_inner_def QueueUpdater_send_def Let_def no_endpoint_def)

theorem writes_preserve_bytes_witness:
  "so_tx ((tcp open_inner)\<lparr>so_tx := [7, 8]\<rparr>) = so_tx (tcp open_inner) @ [7, 8]"
  using writes_preserve_bytes [OF sample_buf.socket_buffers_axioms sample_writes] by simp

text \<open>
  A write is never forgotten: unless the socket itself fails, either the loop is already
  polling the connection, or the write sends it the socket's new polling time, under the handle of
  the connection; when the loop is alive this does not panic.
\<close>

theorem write_schedules:
  assumes "WriteHalf_poll_write_inner A alive True wk buf wh inn sh = Done (r, inn', sh', ms)"
    and "\<forall>e. r \<noteq> Ready (Inl (IoOther e))"
  shows "ms = (if polling_active inn then [] else [(wh_handle wh, sk_poll_at A (tcp inn'))])"
  using assms by (intro poll_write_scheduled) auto

theorem write_schedules_witness:
  "\<exists>r inn' sh'. WriteHalf_poll_write_inner sample_tcp True True 4 [7, 8] sample_writer open_inner \<lparr>waker_of = None\<rparr> =
     Done (r, inn', sh', [(wh_handle sample_writer, sk_poll_at sample_tcp (tcp inn'))])"
proof -
  have call: "WriteHalf_poll_write_inner sample_tcp True True 4 [7, 8] sample_writer open_inner \<lparr>waker_of = None\<rparr> =
     Done (Ready (Inr 2), \<lparr>tcp = (tcp open_inner)\<lparr>so_tx := [7, 8]\<rparr>, polling_active = False\<rparr>, \<lparr>waker_of = None\<rparr>,
       [(sample_handle, Ingress)])"
    by (simp add: sample_tcp_def WriteHalf_poll_write_inner_def QueueUpdater_send_def Let_def no_endpoint_def)
  from write_schedules [OF call] call show ?thesis by simp
qed

text \<open>
  Shutting down the writing side takes effect at once when the socket's lock is free: the
  socket is closed, and the loop is told unless it is polling the connection already.
\<close>

theorem shutdown_closes:
  assumes "WriteHalf_poll_shutdown A alive True wh inn = Done (r, inn', ms)"
  shows "r = Ready (Inr ()) \<and> tcp inn' = sk_close A (tcp inn)
    \<and> ms = (if polling_active inn then [] else [(wh_handle wh, sk_poll_at A (sk_close A (tcp inn)))])"
proof -
  from assms obtain r0 where close: "WriteHalf_poll_close_inner A alive True wh inn = Done (r0, inn', ms)"
    and r: "r = poll_map (\<lambda>_. Inr ()) r0"
    by (auto simp: WriteHalf_poll_shutdown_def)
  with poll_close_scheduled [OF close] show ?thesis by simp
qed

theorem shutdown_closes_witness:
  "\<exists>inn' ms. WriteHalf_poll_shutdown sample_tcp True True sample_writer open_inner = Done (Ready (Inr ()), inn', ms)
     \<and> tcp inn' = sk_close sample_tcp (tcp open_inner)"
proof -
  obtain r inn' ms where call: "WriteHalf_poll_shutdown sample_tcp True True sample_writer open_inner = Done (r, inn', ms)"
    by (simp add: WriteHalf_poll_shutdown_def WriteHalf_poll_close_inner_def QueueUpdater_send_def Let_def)
  with shutdown_closes [OF call] show ?thesis by simp
qed

text \<open>
  No lost wake-up on the application's side: a read or a write that waits although it got the
  lock has left the waker of its task in the cell from which the loop wakes, and it waits only while
  the other side can still make it ready.
\<close>

theorem waiting_leaves_waker:
  "(ReadHalf_poll_read_inner A True wk buf rh inn sh = (Pending, buf', rh', inn', sh') \<longrightarrow>
      waker_of sh' = Some wk \<and> rh' = rh
      \<and> (sk_may_recv A (tcp inn') \<or> sk_state A (tcp inn') = SynReceived))
   \<and> (WriteHalf_poll_write_inner A alive True wk buf wh inn sh = Done (Pending, inn', sh', ms) \<longrightarrow>
      waker_of sh' = Some wk \<and> sk_may_send A (tcp inn'))"
proof (intro conjI impI)
  assume "ReadHalf_poll_read_inner A True wk buf rh inn sh = (Pending, buf', rh', inn', sh')"
  note poll_read_pending [OF this]
  then show "waker_of sh' = Some wk" "rh' = rh"
    "sk_may_recv A (tcp inn') \<or> sk_state A (tcp inn') = SynReceived"
    by simp_all
next
  assume "WriteHalf_poll_write_inner A alive True wk buf wh inn sh = Done (Pending, inn', sh', ms)"
  note poll_write_pending [OF this]
  then show "waker_of sh' = Some wk" "sk_may_send A (tcp inn')"
    by simp_all
qed

theorem waiting_leaves_waker_witness:
  "\<exists>inn' sh'. ReadHalf_poll_read_inner sample_tcp True 4 [0] sample_reader
       (open_inner\<lparr>tcp := (tcp open_inner)\<lparr>so_rx := []\<rparr>\<rparr>) \<lparr>waker_of = None\<rparr> =
     (Pending, [0], sample_reader, inn', sh') \<and> waker_of sh' = Some 4"
proof -
  have call: "ReadHalf_poll_read_inner sample_tcp True 4 [0] sample_reader
       (open_inner\<lparr>tcp := (tcp open_inner)\<lparr>so_rx := []\<rparr>\<rparr>) \<lparr>waker_of = None\<rparr> =
     (Pending, [0], sample_reader, open_inner\<lparr>tcp := (tcp open_inner)\<lparr>so_rx := []\<rparr>\<rparr>, \<lparr>waker_of = Some 4\<rparr>)"
    by (simp add: ReadHalf_poll_read_inner_def read_nothing_def sample_tcp_def)
  show ?thesis
    using waiting_leaves_waker [THEN conjunct1, THEN mp, OF call] call by blast
qed

text \<open>
  (C27) The two reading traits are equivalent: reading into a \<open>ReadBuf\<close> does not panic, waits, fails and
  changes the cells exactly when reading into a slice does, and appends to the filled part the bytes
  that the other puts at the front of its slice. Closing through either trait is the same.
\<close>

theorem reading_traits_agree:
  assumes "read_buffers A B filled"
    and "ReadHalf_futures_poll_read A lf wk (rb_initialize_unfilled B rb) rh inn sh = (r, buf, rh', inn', sh')"
  shows "(\<exists>rb'. ReadHalf_poll_read A B lf wk rb rh inn sh =
        Done (poll_map (map_sum id (\<lambda>_. ())) r, rb', rh', inn', sh')
      \<and> filled rb' = filled rb @ (case r of Ready (Inr n) \<Rightarrow> take n buf | _ \<Rightarrow> []))
    \<and> WriteHalf_futures_poll_close = WriteHalf_poll_shutdown"
  using read_buffers.poll_read_buf [OF assms] closing_traits_agree by blast

theorem reading_traits_agree_witness:
  "\<exists>rb'. ReadHalf_poll_read sample_tcp sample_read_buf True 4 ([9], [0, 0]) sample_reader open_inner
      \<lparr>waker_of = None\<rparr> =
    Done (Ready (Inr ()), rb', sample_reader,
      \<lparr>tcp = (tcp open_inner)\<lparr>so_rx := [3]\<rparr>, polling_active = False\<rparr>, \<lparr>waker_of = None\<rparr>)
    \<and> fst rb' = [9, 1, 2]"
proof -
  have call: "ReadHalf_futures_poll_read sample_tcp True 4 (rb_initialize_unfilled sample_read_buf ([9], [0, 0]))
      sample_reader open_inner \<lparr>waker_of = None\<rparr> =
    (Ready (Inr 2), [1, 2], sample_reader,
      \<lparr>tcp = (tcp open_inner)\<lparr>so_rx := [3]\<rparr>, polling_active = False\<rparr>, \<lparr>waker_of = None\<rparr>)"
    by (simp add: ReadHalf_futures_poll_read_def ReadHalf_poll_read_inner_def sample_tcp_def sample_read_buf_def)
  from reading_traits_agree [OF sample_rb.read_buffers_axioms call] show ?thesis
    by auto
qed

end
