(* ===== verification/Clients.thy ===== *)
theory Clients
  imports Tcp_Streams "HOL-Library.Sublist"
begin

text \<open>
  The client loops of the examples (\<open>src/ustunet/examples\<close>): the echo server, which reads and
  writes a stream in turn, and the copying loop with time limits of the relay, with the function
  that joins its two directions.

  A task is polled in an environment that is arbitrary each time: the socket, the wakers and the
  lock are whatever the loop, the peer and the other half made of them. The bytes that the reads
  return and the writes accept are recorded.
\<close>

section \<open>The echo server\<close>

datatype echo_phase = EchoRead | EchoWrite bytes | EchoEnded

record echo =
  ec_socket :: tcp_stream
  ec_buf :: bytes
  ec_phase :: echo_phase

record 's echo_env =
  en_alive :: bool
  en_lock_free :: bool
  en_waker :: waker
  en_inner :: "'s inner"
  en_read :: shared_state
  en_write :: shared_state

definition echo_poll ::
    "'s tcp_api \<Rightarrow> 's echo_env \<Rightarrow> echo \<Rightarrow> (echo \<times> bytes list \<times> bytes list) outcome" where
  "echo_poll A en ec =
     (case ec_phase ec of
        EchoRead \<Rightarrow>
          (case TcpStream_poll_read A (en_lock_free en) (en_waker en) (ec_buf ec) (ec_socket ec)
              (en_inner en) (en_read en) of
             (r, buf, st, inn, sh) \<Rightarrow>
               let ec1 = ec\<lparr>ec_socket := st, ec_buf := buf\<rparr>
               in case r of
                    Pending \<Rightarrow> Done (ec1, [], [])
                  | Ready (Inl e) \<Rightarrow> Panicked ClientExpect
                  | Ready (Inr n) \<Rightarrow>
                      if n = 0 then Done (ec1\<lparr>ec_phase := EchoEnded\<rparr>, [], [])
                      else if length buf < n then Panicked SliceOutOfRange
                      else Done (ec1\<lparr>ec_phase := EchoWrite (take n buf)\<rparr>, [take n buf], []))
      | EchoWrite content \<Rightarrow>
          and_then (TcpStream_poll_write A (en_alive en) (en_lock_free en) (en_waker en) content
              (ec_socket ec) (en_inner en) (en_write en)) (\<lambda>(r, inn, sh, ms).
            case r of
              Pending \<Rightarrow> Done (ec, [], [])
            | Ready (Inl e) \<Rightarrow> Panicked ClientExpect
            | Ready (Inr n) \<Rightarrow> Done (ec\<lparr>ec_phase := EchoRead\<rparr>, [], [take n content]))
      | EchoEnded \<Rightarrow> Done (ec, [], []))"

fun echo_run ::
    "'s tcp_api \<Rightarrow> 's echo_env list \<Rightarrow> echo \<Rightarrow> (echo \<times> bytes list \<times> bytes list) outcome" where
  "echo_run A [] ec = Done (ec, [], [])"
| "echo_run A (en # ens) ec =
     and_then (echo_poll A en ec) (\<lambda>(ec1, got1, sent1).
     and_then (echo_run A ens ec1) (\<lambda>(ec2, got2, sent2). Done (ec2, got1 @ got2, sent1 @ sent2)))"

definition echo_start :: "tcp_stream \<Rightarrow> echo" where
  "echo_start st = \<lparr>ec_socket = st, ec_buf = replicate 1024 0, ec_phase = EchoRead\<rparr>"

text \<open>The chunk that was read and not written yet.\<close>

fun unsent :: "echo_phase \<Rightarrow> bytes list" where
  "unsent (EchoWrite c) = [c]"
| "unsent _ = []"

definition echoes :: "bytes \<Rightarrow> bytes \<Rightarrow> bool" where
  "echoes got sent \<longleftrightarrow> prefix sent got \<and> sent \<noteq> []"

section \<open>Copying with time limits\<close>

text \<open>
  Reader and writer are any types with the traits of \<open>tokio\<close>: a round is given by the answer to
  the read, \<open>None\<close> when the time limit is over first, and by the answers to the writes of
  \<open>write_all\<close> before the time limit.
\<close>

type_synonym read_answer = "(io_error, bytes) result option"
type_synonym write_answer = "(io_error, nat) result"

text \<open>
  \<open>write_all\<close> of \<open>tokio\<close>: it writes what is left until nothing is; a write of zero bytes is an
  error. The result is \<open>None\<close> when the time limit is over, and the accepted bytes are recorded.
\<close>

fun write_all :: "bytes \<Rightarrow> write_answer list \<Rightarrow> (io_error, unit) result option \<times> bytes" where
  "write_all buf [] = (if buf = [] then Some (Inr ()) else None, [])"
| "write_all buf (a # as) =
     (if buf = [] then (Some (Inr ()), [])
      else case a of
        Inl e \<Rightarrow> (Some (Inl e), [])
      | Inr k \<Rightarrow>
          if k = 0 then (Some (Inl WriteZero), [])
          else (case write_all (drop k buf) as of (r, acc) \<Rightarrow> (r, take k buf @ acc)))"

text \<open>
  The loop, over the answers of its rounds: \<open>None\<close> when it is still running after them; otherwise
  its result, and in any case the bytes read and the bytes the writer accepted.
\<close>

fun copy_loop ::
    "nat \<Rightarrow> (read_answer \<times> write_answer list) list \<Rightarrow> (io_error, nat) result option \<times> bytes \<times> bytes" where
  "copy_loop n [] = (None, [], [])"
| "copy_loop n ((rd, ws) # rest) =
     (case rd of
        None \<Rightarrow> (Some (Inr n), [], [])
      | Some (Inl e) \<Rightarrow> (Some (Inl e), [], [])
      | Some (Inr data) \<Rightarrow>
          if data = [] then (Some (Inr n), [], [])
          else (case write_all data ws of
                  (None, acc) \<Rightarrow> (Some (Inr n), data, acc)
                | (Some _, acc) \<Rightarrow>
                    (case copy_loop (n + length data) rest of
                       (r, got, sent) \<Rightarrow> (r, data @ got, acc @ sent))))"

definition copy :: "(read_answer \<times> write_answer list) list \<Rightarrow> (io_error, nat) result option \<times> bytes \<times> bytes" where
  "copy rounds = copy_loop 0 rounds"

text \<open>Joining the two directions; a task that panicked makes the join fail.\<close>

definition copy_to_server ::
    "(io_error, unit) result \<Rightarrow> (io_error, (io_error, nat) result) result \<Rightarrow>
     (io_error, (io_error, nat) result) result \<Rightarrow> (io_error, nat \<times> nat) result" where
  "copy_to_server connect sent recv =
     (case connect of
        Inl e \<Rightarrow> Inl e
      | Inr _ \<Rightarrow>
          (case sent of
             Inl e \<Rightarrow> Inl e
           | Inr (Inl e) \<Rightarrow> Inl e
           | Inr (Inr n) \<Rightarrow>
               (case recv of
                  Inl e \<Rightarrow> Inl e
                | Inr (Inl e) \<Rightarrow> Inl e
                | Inr (Inr m) \<Rightarrow> Inr (n, m))))"

section \<open>What is echoed\<close>

lemma poll_write_accepts:
  assumes "WriteHalf_poll_write_inner A alive lf wk buf wh inn sh = Done (Ready (Inr n), inn', sh', ms)"
  shows "0 < n"
  using assms
  by (auto simp: WriteHalf_poll_write_inner_def QueueUpdater_send_def Let_def
      split: if_splits prod.splits sum.splits)

lemma echo_poll_chunks:
  assumes "echo_poll A en ec = Done (ec', got, sent)"
    and "\<forall>c. ec_phase ec = EchoWrite c \<longrightarrow> c \<noteq> []"
  shows "(\<exists>done. unsent (ec_phase ec) @ got = done @ unsent (ec_phase ec') \<and> list_all2 echoes done sent)
    \<and> (\<forall>c. ec_phase ec' = EchoWrite c \<longrightarrow> c \<noteq> [])"
proof (cases "ec_phase ec")
  case EchoRead
  with assms(1) show ?thesis
    by (auto simp: echo_poll_def Let_def split: prod.splits poll.splits sum.splits if_splits)
next
  case (EchoWrite c)
  with assms show ?thesis
    by (auto simp: echo_poll_def TcpStream_poll_write_def echoes_def take_is_prefix
        split: poll.splits sum.splits dest!: poll_write_accepts)
next
  case EchoEnded
  with assms show ?thesis
    by (auto simp: echo_poll_def)
qed

lemma echo_run_chunks:
  assumes "echo_run A ens ec = Done (ec', got, sent)"
    and "\<forall>c. ec_phase ec = EchoWrite c \<longrightarrow> c \<noteq> []"
  shows "\<exists>done. unsent (ec_phase ec) @ got = done @ unsent (ec_phase ec') \<and> list_all2 echoes done sent"
  using assms
proof (induction ens arbitrary: ec got sent)
  case Nil
  then show ?case by auto
next
  case (Cons en ens)
  from Cons.prems obtain ec1 got1 sent1 got2 sent2 where
    poll: "echo_poll A en ec = Done (ec1, got1, sent1)" and rest: "echo_run A ens ec1 = Done (ec', got2, sent2)"
    and split: "got = got1 @ got2" "sent = sent1 @ sent2"
    by auto
  from echo_poll_chunks [OF poll Cons.prems(2)] obtain d1 where
    d1: "unsent (ec_phase ec) @ got1 = d1 @ unsent (ec_phase ec1)" "list_all2 echoes d1 sent1"
    and ne: "\<forall>c. ec_phase ec1 = EchoWrite c \<longrightarrow> c \<noteq> []"
    by blast
  from Cons.IH [OF rest ne] obtain d2 where
    d2: "unsent (ec_phase ec1) @ got2 = d2 @ unsent (ec_phase ec')" "list_all2 echoes d2 sent2"
    by blast
  have "unsent (ec_phase ec) @ got = (d1 @ d2) @ unsent (ec_phase ec')"
    using d1(1) d2(1) split by (metis append.assoc)
  with d1(2) d2(2) split show ?case
    by (blast intro: list_all2_appendI)
qed

section \<open>What is copied\<close>

definition all_ok :: "write_answer list \<Rightarrow> bool" where
  "all_ok ws \<longleftrightarrow> (\<forall>w \<in> set ws. \<exists>k. w = Inr k \<and> 0 < k)"

lemma write_all_ok:
  assumes "write_all buf ws = (r, acc)" and "all_ok ws"
  shows "(r = Some (Inr ()) \<and> acc = buf) \<or> (r = None \<and> strict_prefix acc buf)"
  using assms
proof (induction buf ws arbitrary: r acc rule: write_all.induct)
  case (1 buf)
  then show ?case by (auto simp: strict_prefix_def split: if_splits)
next
  case (2 buf a as)
  show ?case
  proof (cases "buf = []")
    case True
    with 2(2) show ?thesis by simp
  next
    case False
    from 2(3) obtain k where a: "a = Inr k" "0 < k" and ok: "all_ok as"
      by (auto simp: all_ok_def)
    with False 2(2) obtain acc1 where
      rest: "write_all (drop k buf) as = (r, acc1)" and acc: "acc = take k buf @ acc1"
      by (auto split: prod.splits)
    have "strict_prefix (take k buf @ acc1) (take k buf @ drop k buf)" if "strict_prefix acc1 (drop k buf)"
      using that unfolding strict_prefix_def by (metis same_append_eq same_prefix_prefix)
    with 2(1) [OF False a(1) _ rest ok] a(2) acc show ?thesis
      by auto
  qed
qed

text \<open>A write of the rounds that ran out of time, with what was read before it and what it wrote.\<close>

definition timed_out ::
    "(read_answer \<times> write_answer list) list \<Rightarrow> bytes \<Rightarrow> bytes \<Rightarrow> bytes \<Rightarrow> bool" where
  "timed_out rounds before data acc \<longleftrightarrow>
     (\<exists>pre ws post. rounds = pre @ (Some (Inr data), ws) # post \<and> write_all data ws = (None, acc)
        \<and> before = concat (map (\<lambda>(rd, ws). case rd of Some (Inr d) \<Rightarrow> d | _ \<Rightarrow> []) pre))"

lemma timed_out_Cons:
  assumes "timed_out rounds before data acc"
  shows "timed_out ((Some (Inr d), ws) # rounds) (d @ before) data acc"
proof -
  from assms obtain pre ws' post where "rounds = pre @ (Some (Inr data), ws') # post" "write_all data ws' = (None, acc)"
      "before = concat (map (\<lambda>(rd, ws). case rd of Some (Inr d) \<Rightarrow> d | _ \<Rightarrow> []) pre)"
    unfolding timed_out_def by blast
  then show ?thesis
    unfolding timed_out_def by (intro exI [of _ "(Some (Inr d), ws) # pre"]) auto
qed

lemma copy_loop_ok:
  assumes "copy_loop n rounds = (Some (Inr m), got, sent)" and "\<forall>(rd, ws) \<in> set rounds. all_ok ws"
  shows "sent = got \<and> m = n + length got
    \<or> (\<exists>before data acc. timed_out rounds before data acc \<and> strict_prefix acc data
        \<and> got = before @ data \<and> sent = before @ acc \<and> m = n + length before)"
  using assms
proof (induction rounds arbitrary: n got sent)
  case Nil
  then show ?case by simp
next
  case (Cons round rest)
  obtain rd ws where round: "round = (rd, ws)" by (cases round)
  show ?case
  proof (cases "rd = None \<or> rd = Some (Inr []) \<or> (\<exists>e. rd = Some (Inl e))")
    case True
    with Cons.prems round show ?thesis by auto
  next
    case False
    then obtain data where data: "rd = Some (Inr data)" "data \<noteq> []"
      by (cases rd) (auto, metis sum.exhaust)
    obtain w acc where w: "write_all data ws = (w, acc)" by (cases "write_all data ws")
    from Cons.prems(2) round have "all_ok ws" by simp
    from write_all_ok [OF w this] show ?thesis
    proof (elim disjE conjE)
      assume out: "w = None" "strict_prefix acc data"
      then have "timed_out (round # rest) [] data acc"
        using round data w unfolding timed_out_def by (intro exI [of _ "[]"] exI [of _ ws] exI [of _ rest]) simp
      with Cons.prems round data w out show ?thesis by auto
    next
      assume full: "w = Some (Inr ())" "acc = data"
      with Cons.prems round data w obtain got1 sent1 where
        rest: "copy_loop (n + length data) rest = (Some (Inr m), got1, sent1)" and
        all: "got = data @ got1" "sent = data @ sent1"
        by (auto split: prod.splits)
      from Cons.IH [OF rest] Cons.prems(2) consider "sent1 = got1" "m = n + length data + length got1"
        | before d acc' where "timed_out rest before d acc'" "strict_prefix acc' d" "got1 = before @ d"
            "sent1 = before @ acc'" "m = n + length data + length before"
        by auto
      then show ?thesis
      proof cases
        case 1
        with all show ?thesis by simp
      next
        case 2
        with timed_out_Cons [OF 2(1), of data ws] round data all show ?thesis
          by (intro disjI2 exI [of _ "data @ before"] exI [of _ d] exI [of _ acc']) simp
      qed
    qed
  qed
qed

lemma copy_loop_returns:
  assumes "\<exists>(rd, ws) \<in> set rounds. rd = None \<or> rd = Some (Inr []) \<or> (\<exists>e. rd = Some (Inl e))"
  shows "\<exists>r. fst (copy_loop n rounds) = Some r"
  using assms
proof (induction rounds arbitrary: n)
  case (Cons round rest)
  obtain rd ws where round: "round = (rd, ws)" by (cases round)
  show ?case
  proof (cases "rd = None \<or> rd = Some (Inr []) \<or> (\<exists>e. rd = Some (Inl e))")
    case True
    with round show ?thesis by auto
  next
    case False
    with Cons.prems round have "\<exists>r. fst (copy_loop k rest) = Some r" for k
      by (intro Cons.IH) auto
    then have "\<exists>r. fst (copy_loop (n + length data) rest) = Some r" for data :: bytes
      by blast
    with round show ?thesis
      by (auto simp: split_beta split: option.split sum.split)
  qed
qed simp

section \<open>Properties of the clients\<close>

text \<open>
  (C39) The echo server answers in order: whatever happens around it, each chunk it read is answered by a
  non-empty prefix of it before the next one is read. If every write accepts the whole
  chunk, the bytes sent are the bytes received.
\<close>

theorem echo_answers_in_order:
  assumes "echo_run A ens (echo_start st) = Done (ec, got, sent)"
  shows "\<exists>done. got = done @ unsent (ec_phase ec) \<and> list_all2 echoes done sent
    \<and> (map length sent = map length done \<longrightarrow> concat got = concat sent @ concat (unsent (ec_phase ec)))"
proof -
  from echo_run_chunks [OF assms] obtain d where
    d: "got = d @ unsent (ec_phase ec)" "list_all2 echoes d sent"
    by (auto simp: echo_start_def)
  have "sent = d" if "map length sent = map length d"
    using d(2) that by (induction rule: list_all2_induct) (auto simp: echoes_def prefix_def)
  with d show ?thesis by auto
qed

abbreviation small_inner :: "bytes \<Rightarrow> nat \<Rightarrow> sock inner" where
  "small_inner rx room \<equiv> \<lparr>tcp = (sk_new sample_tcp 16 room)\<lparr>so_state := Established, so_rx := rx\<rparr>,
     polling_active = True\<rparr>"

abbreviation echo_in :: "sock inner \<Rightarrow> sock echo_env" where
  "echo_in inn \<equiv> \<lparr>en_alive = True, en_lock_free = True, en_waker = 4, en_inner = inn,
     en_read = \<lparr>waker_of = None\<rparr>, en_write = \<lparr>waker_of = None\<rparr>\<rparr>"

abbreviation sample_stream :: tcp_stream where
  "sample_stream \<equiv> \<lparr>ts_writer = sample_writer, ts_reader = sample_reader, ts_addr = sample_handle\<rparr>"

lemma sample_echo:
  assumes "0 < room"
  shows "\<exists>ec. echo_run sample_tcp [echo_in (small_inner [1, 2, 3] 9), echo_in (small_inner [] room)]
      (echo_start sample_stream) = Done (ec, [[1, 2, 3]], [take room [1, 2, 3]]) \<and> ec_phase ec = EchoRead"
  using assms
  by (simp add: echo_start_def echo_poll_def TcpStream_poll_read_def TcpStream_poll_write_def
      ReadHalf_poll_read_inner_def WriteHalf_poll_write_inner_def sample_tcp_def Let_def min_def take_all_iff)

theorem echo_answers_in_order_witness:
  "\<exists>ec done. echo_run sample_tcp [echo_in (small_inner [1, 2, 3] 9), echo_in (small_inner [] 9)]
      (echo_start sample_stream) = Done (ec, [[1, 2, 3]], [[1, 2, 3]])
     \<and> [[1, 2, 3]] = done @ unsent (ec_phase ec) \<and> list_all2 echoes done [[1, 2, 3]]"
proof -
  obtain ec where run: "echo_run sample_tcp [echo_in (small_inner [1, 2, 3] 9), echo_in (small_inner [] 9)]
      (echo_start sample_stream) = Done (ec, [[1, 2, 3]], [[1, 2, 3]])"
    using sample_echo [of 9] by auto
  from echo_answers_in_order [OF run] run show ?thesis by blast
qed

text \<open>
  The echo server can lose bytes: it writes a chunk with one call of \<open>write\<close>, and reads on when the
  socket had room for a part of it only.
\<close>

theorem echo_loses_bytes:
  "\<exists>ec. echo_run sample_tcp [echo_in (small_inner [1, 2, 3] 9), echo_in (small_inner [] 1)]
      (echo_start sample_stream) = Done (ec, [[1, 2, 3]], [[1]]) \<and> ec_phase ec = EchoRead"
  using sample_echo [of 1] by simp

text \<open>
  (C37) The copying loop, as long as no write fails: when it returns, either everything it read was
  written, in order, and counted, or a write ran out of time; then everything read before that chunk was
  written and counted, and of the chunk a proper prefix was written and nothing counted.
\<close>

theorem copy_is_faithful:
  assumes "copy rounds = (Some (Inr n), got, sent)" and "\<forall>(rd, ws) \<in> set rounds. all_ok ws"
  shows "sent = got \<and> n = length got
    \<or> (\<exists>before data acc. timed_out rounds before data acc \<and> strict_prefix acc data
        \<and> got = before @ data \<and> sent = before @ acc \<and> n = length before)"
  using copy_loop_ok [of 0 rounds n got sent] assms by (simp add: copy_def)

theorem copy_is_faithful_witness:
  "copy [(Some (Inr [1, 2, 3]), [Inr 2, Inr 5]), (Some (Inr [4, 5]), [Inr 1])] = (Some (Inr 3), [1, 2, 3, 4, 5], [1, 2, 3, 4])
   \<and> (\<exists>before data acc. timed_out [(Some (Inr [1, 2, 3]), [Inr 2, Inr 5]), (Some (Inr [4, 5]), [Inr 1])] before data acc
        \<and> [1, 2, 3, 4, 5] = before @ data \<and> length before = 3)"
proof
  show call: "copy [(Some (Inr [1, 2, 3]), [Inr 2, Inr 5]), (Some (Inr [4, 5]), [Inr 1])] =
      (Some (Inr 3), [1, 2, 3, 4, 5], [1, 2, 3, 4])"
    by (simp add: copy_def)
  have "\<forall>(rd, ws) \<in> set [(Some (Inr [1, 2, 3]), [Inr 2, Inr 5]), (Some (Inr [4, 5]), [Inr 1])]. all_ok ws"
    by (simp add: all_ok_def)
  from copy_is_faithful [OF call this]
  show "\<exists>before data acc. timed_out [(Some (Inr [1, 2, 3]), [Inr 2, Inr 5]), (Some (Inr [4, 5]), [Inr 1])] before data acc
        \<and> [1, 2, 3, 4, 5] = before @ data \<and> length before = 3"
    by auto
qed

text \<open>
  (C38) The copying loop ends: once the reader is at its end, fails or runs out of time, the loop has
  returned, whatever the writes did.
\<close>

theorem copy_returns:
  assumes "\<exists>(rd, ws) \<in> set rounds. rd = None \<or> rd = Some (Inr []) \<or> (\<exists>e. rd = Some (Inl e))"
  shows "\<exists>r. fst (copy rounds) = Some r"
  using copy_loop_returns [OF assms] by (simp add: copy_def)

theorem copy_returns_witness:
  "\<exists>r. fst (copy [(Some (Inr [1]), [Inr 1]), (None, [])]) = Some r"
  by (rule copy_returns) simp

text \<open>
  The copying loop ignores the result of \<open>write_all\<close>: bytes whose write failed are counted as
  copied, and the loop reads on.
\<close>

theorem copy_counts_failed_writes:
  assumes "data \<noteq> []"
  shows "copy [(Some (Inr data), [Inl e]), (Some (Inr []), [])] = (Some (Inr (length data)), data, [])"
  using assms by (simp add: copy_def)

theorem copy_counts_failed_writes_witness:
  "copy [(Some (Inr [7, 8]), [Inl ConnectionAborted]), (Some (Inr []), [])] = (Some (Inr 2), [7, 8], [])"
  using copy_counts_failed_writes [of "[7, 8]" ConnectionAborted] by simp

end
