(* ===== verification/Packet_Bytes.thy ===== *)
theory Packet_Bytes
  imports Sample_Stack
begin

text \<open>
  Serialising a packet into an empty buffer (\<open>packet_to_bytes\<close> of
  \<open>src/ustunet/src/dispatch/mod.rs\<close>), used for the replies of the loop and for what a
  connection dispatches.
\<close>

definition packet_to_bytes ::
    "wire_api \<Rightarrow> ip_packet \<Rightarrow> bytes \<Rightarrow> checksum_caps \<Rightarrow>
     ((smol_error, unit) result \<times> bytes) outcome" where
  "packet_to_bytes W packet buffer caps =
     (if buffer \<noteq> [] then Panicked BufferNotEmpty
      else case packet of
        PacketTcp (ip, t) \<Rightarrow>
          (case ip_lower W ip of
             Inl e \<Rightarrow> Done (Inl e, buffer)
           | Inr ip' \<Rightarrow>
               let b = ip_emit W ip' (replicate (ip_total_len W ip') 0) caps;
                   n = ip_buffer_len W ip'
               in if length b < n then Panicked SliceOutOfRange
                  else Done (Inr (),
                    take n b @ tcp_emit W t (drop n b) (ip_src_addr ip') (ip_dst_addr ip') caps))
      | PacketOther x \<Rightarrow> Done (Inr (), buffer))"

text \<open>
  What serialising relies on: an emitter writes into the slice it is given, so it keeps its
  length, and the header is part of a packet that is not empty.
\<close>

locale packet_emitters =
  fixes W :: wire_api
  assumes ip_emit_length: "length (ip_emit W ip b caps) = length b"
    and tcp_emit_length: "length (tcp_emit W t b src dst caps) = length b"
    and header_in_packet: "ip_lower W ip = Inr ip' \<Longrightarrow> ip_buffer_len W ip' \<le> ip_total_len W ip'"
    and packet_not_empty: "ip_lower W ip = Inr ip' \<Longrightarrow> 0 < ip_total_len W ip'"
begin

lemma packet_to_bytes_tcp:
  "\<exists>r b. packet_to_bytes W (PacketTcp (ip, t)) [] caps = Done (r, b) \<and>
     (case ip_lower W ip of
        Inl e \<Rightarrow> r = Inl e \<and> b = []
      | Inr ip' \<Rightarrow> r = Inr () \<and> length b = ip_total_len W ip')"
  using header_in_packet [of ip]
  by (auto simp: packet_to_bytes_def Let_def ip_emit_length tcp_emit_length min_def
      split: sum.splits)

lemma packet_to_bytes_filled:
  assumes "packet_to_bytes W (PacketTcp p) [] caps = Done (r, b)"
  shows "b \<noteq> [] \<longleftrightarrow> r = Inr ()"
proof (cases p)
  case (Pair ip t)
  with packet_to_bytes_tcp [of ip t caps] assms packet_not_empty [of ip] show ?thesis
    by (auto split: sum.splits)
qed

lemma packet_to_bytes_no_panic: "no_panic (packet_to_bytes W p [] caps)"
proof (cases p)
  case (PacketTcp x)
  then show ?thesis
    using packet_to_bytes_tcp by (cases x) (fastforce simp: no_panic_iff)
qed (simp add: packet_to_bytes_def)

end

lemma packet_to_bytes_other [simp]: "packet_to_bytes W (PacketOther x) [] caps = Done (Inr (), [])"
  by (simp add: packet_to_bytes_def)

lemma packet_to_bytes_empty_buffer:
  "buffer \<noteq> [] \<Longrightarrow> packet_to_bytes W p buffer caps = Panicked BufferNotEmpty"
  by (simp add: packet_to_bytes_def)

interpretation sample_emit: packet_emitters sample_wire
  by unfold_locales (simp_all add: sample_wire_def)

section \<open>Properties of serialising\<close>

text \<open>
  (C34) Serialising a TCP packet into an empty buffer never panics: the slice of the payload is
  in range. Either the lower layer refuses the addresses, and the buffer stays empty, or the buffer
  holds exactly the length the header announces. Any other packet leaves it empty.
\<close>

theorem packet_to_bytes_total:
  assumes "packet_emitters W"
  shows "\<exists>r b. packet_to_bytes W p [] caps = Done (r, b) \<and>
    (case p of
       PacketTcp (ip, t) \<Rightarrow>
         (case ip_lower W ip of
            Inl e \<Rightarrow> r = Inl e \<and> b = []
          | Inr ip' \<Rightarrow> r = Inr () \<and> length b = ip_total_len W ip')
     | PacketOther x \<Rightarrow> r = Inr () \<and> b = [])"
proof (cases p)
  case (PacketTcp x)
  with packet_emitters.packet_to_bytes_tcp [OF assms, of "fst x" "snd x" caps] show ?thesis
    by (simp add: case_prod_beta)
qed simp

theorem packet_to_bytes_total_witness:
  "\<exists>b. packet_to_bytes sample_wire (PacketTcp (IpReprUnspecified (Ipv4 (10, 0, 0, 2)) (Ipv4 (10, 0, 0, 1)) [],
      \<lparr>src_port = 80, dst_port = 5, control = CtlSyn, ack_number = Some 1, tcp_rest = []\<rparr>)) [] [] =
     Done (Inr (), b) \<and> length b = 14"
  using packet_to_bytes_total [OF sample_emit.packet_emitters_axioms,
      of "PacketTcp (IpReprUnspecified (Ipv4 (10, 0, 0, 2)) (Ipv4 (10, 0, 0, 1)) [],
      \<lparr>src_port = 80, dst_port = 5, control = CtlSyn, ack_number = Some 1, tcp_rest = []\<rparr>)" "[]"]
  by (auto simp: sample_wire_def)

end
