(* ===== verification/Connections.thy ===== *)
theory Connections
  imports Tcp_Streams Packet_Bytes
begin

text \<open>
  The loop's side of a connection (\<open>src/ustunet/src/stream/internal.rs\<close>): it feeds packets
  to the socket, takes packets from it, wakes the halves and keeps the connection scheduled.

  A \<open>connection\<close> holds the contents of the cells it shares with the halves of its stream.
  The functions return, beside the new state, the tasks they wake.
\<close>

section \<open>State\<close>

record rw_status =
  rw_handle :: socket_handle
  read_readiness :: shared_state
  write_readiness :: shared_state
  reader_dropped :: bool
  writer_dropped :: bool

record 's connection =
  socket :: "'s inner"
  rw :: rw_status

definition Connection_new ::
    "'s inner \<Rightarrow> socket_handle \<Rightarrow> shared_state \<Rightarrow> shared_state \<Rightarrow> 's connection" where
  "Connection_new s h r w =
     \<lparr>socket = s,
      rw = \<lparr>rw_handle = h, read_readiness = r, write_readiness = w,
            reader_dropped = False, writer_dropped = False\<rparr>\<rparr>"

definition Connection_handle :: "'s connection \<Rightarrow> socket_handle" where
  "Connection_handle c = rw_handle (rw c)"

text \<open>\<open>TcpStream::new\<close> builds the stream for the application and the connection for the loop.\<close>

definition TcpStream_new :: "'s \<Rightarrow> addr_pair \<Rightarrow> tcp_stream \<times> 's connection" where
  "TcpStream_new t addr =
     (let inn = \<lparr>tcp = t, polling_active = False\<rparr>;
          (reader, set_ready) = ReadHalf_new (CloseSender_build addr CloseRead);
          (writer, write_readiness) = WriteHalf_new addr (CloseSender_build addr CloseWrite)
      in (\<lparr>ts_writer = writer, ts_reader = reader, ts_addr = addr\<rparr>,
          Connection_new inn addr set_ready write_readiness))"

section \<open>Waking\<close>

definition both_dropped :: "rw_status \<Rightarrow> bool" where
  "both_dropped r \<longleftrightarrow> writer_dropped r \<and> reader_dropped r"

definition wake_reader :: "rw_status \<Rightarrow> rw_status \<times> waker list" where
  "wake_reader r =
     (if \<not> reader_dropped r
      then (case wake_once (read_readiness r) of (s, ws) \<Rightarrow> (r\<lparr>read_readiness := s\<rparr>, ws))
      else (r, []))"

definition wake_writer :: "rw_status \<Rightarrow> rw_status \<times> waker list" where
  "wake_writer r =
     (if \<not> writer_dropped r
      then (case wake_once (write_readiness r) of (s, ws) \<Rightarrow> (r\<lparr>write_readiness := s\<rparr>, ws))
      else (r, []))"

definition wake_if :: "bool \<Rightarrow> ('r \<Rightarrow> 'r \<times> 'w list) \<Rightarrow> 'r \<times> 'w list \<Rightarrow> 'r \<times> 'w list" where
  "wake_if b f rw_ws = (if b then (case f (fst rw_ws) of (r, ws) \<Rightarrow> (r, snd rw_ws @ ws)) else rw_ws)"

definition wake_to_close :: "'s tcp_api \<Rightarrow> 's \<Rightarrow> rw_status \<Rightarrow> rw_status \<times> waker list" where
  "wake_to_close A t r =
     wake_if (\<not> sk_may_send A t) wake_writer (wake_if (\<not> sk_may_recv A t) wake_reader (r, []))"

section \<open>Accepting a packet\<close>

definition check_acceptability ::
    "wire_api \<Rightarrow> 's tcp_api \<Rightarrow> 's \<Rightarrow> ip_repr \<Rightarrow> tcp_repr \<Rightarrow> (smol_error, unit) result" where
  "check_acceptability W A t ip repr =
     (let local_endpoint = sk_local_endpoint A t; remote_endpoint = sk_remote_endpoint A t
      in if sk_state A t = Closed then Inl Dropped
         else if sk_state A t = Listen \<and> ack_number repr \<noteq> None then Inl Dropped
         else if ep_port local_endpoint \<noteq> dst_port repr then Inl Dropped
         else if \<not> addr_is_unspecified W (ep_addr local_endpoint)
           \<and> ep_addr local_endpoint \<noteq> ip_dst_addr ip then Inl Dropped
         else if ep_port remote_endpoint \<noteq> 0 \<and> ep_port remote_endpoint \<noteq> src_port repr
           then Inl Dropped
         else if \<not> addr_is_unspecified W (ep_addr remote_endpoint)
           \<and> ep_addr remote_endpoint \<noteq> ip_src_addr ip then Inl Dropped
         else Inr ())"

section \<open>Processing, dispatching, dropping\<close>

definition Connection_process ::
    "wire_api \<Rightarrow> 's tcp_api \<Rightarrow> ('q, 'k) delay_api \<Rightarrow> smol_instant \<Rightarrow> ip_repr \<Rightarrow> tcp_repr \<Rightarrow>
     's connection \<Rightarrow> ('q, 'k) dispatch_queue \<Rightarrow>
     ((smol_error, reply) result \<times> 's connection \<times> ('q, 'k) dispatch_queue \<times> waker list) outcome" where
  "Connection_process W A D ts ip repr c q =
     (let handle = Connection_handle c; t = tcp (socket c)
      in case check_acceptability W A t ip repr of
           Inl e \<Rightarrow> Done (Inl e, c, q, [])
         | Inr _ \<Rightarrow>
             let (reply, t1) = sk_process A t ts ip repr;
                 (r1, ws1) = wake_if (sk_can_recv A t1) wake_reader (rw c, []);
                 (r2, ws2) = wake_to_close A t1 r1;
                 p0 = sk_poll_at A t1;
                 p = (if both_dropped r2 \<and> p0 = Ingress \<and> \<not> DispatchQueue_contains q handle
                      then Now else p0)
             in and_then (DispatchQueue_send D q handle p) (\<lambda>q'.
                  Done (reply, c\<lparr>socket := (socket c)\<lparr>tcp := t1\<rparr>, rw := r2\<rparr>, q', ws1 @ ws2)))"

text \<open>Running the socket's dispatch with a closure that fills the buffer.\<close>

fun run_dispatch ::
    "'s dispatch_run \<Rightarrow> (tcp_packet \<Rightarrow> bytes \<Rightarrow> ((smol_error, unit) result \<times> bytes) outcome) \<Rightarrow> bytes \<Rightarrow>
     ((smol_error, unit) result \<times> 's \<times> bytes) outcome" where
  "run_dispatch (NoEmit r t) emit buf = Done (r, t, buf)"
| "run_dispatch (Emit p k) emit buf =
     and_then (emit p buf) (\<lambda>(r, buf'). case k r of (r', t) \<Rightarrow> Done (r', t, buf'))"

definition Connection_dispatch ::
    "wire_api \<Rightarrow> 's tcp_api \<Rightarrow> ('q, 'k) delay_api \<Rightarrow> bytes \<Rightarrow> smol_instant \<Rightarrow> device_capabilities \<Rightarrow>
     's connection \<Rightarrow> ('q, 'k) dispatch_queue \<Rightarrow>
     (bool \<times> bytes \<times> 's connection \<times> ('q, 'k) dispatch_queue \<times> waker list) outcome" where
  "Connection_dispatch W A D buf ts caps c q =
     (if buf \<noteq> [] then Panicked BufferNotEmpty
      else let handle = Connection_handle c
      in and_then
           (run_dispatch (sk_dispatch A (tcp (socket c)) ts caps)
              (\<lambda>p b. packet_to_bytes W (PacketTcp p) b (checksum caps)) buf)
           (\<lambda>(r, t, buf').
             let (rw1, ws1) = wake_to_close A t (rw c);
                 (rw2, ws2) = wake_if (sk_can_send A t) wake_writer (rw1, []);
                 p = sk_poll_at A t;
                 c1 = c\<lparr>socket := (socket c)\<lparr>tcp := t\<rparr>, rw := rw2\<rparr>
             in if both_dropped rw2
                   \<and> (\<not> ep_is_specified W (sk_remote_endpoint A t) \<or> r = Inl Exhausted \<or> p = Ingress)
                then Done (True, buf', c1, q, ws1 @ ws2)
                else and_then (DispatchQueue_send D q handle p) (\<lambda>q'.
                       Done (False, buf',
                             c1\<lparr>socket := (socket c1)\<lparr>polling_active := (p = Now)\<rparr>\<rparr>, q', ws1 @ ws2))))"

fun mark_dropped :: "close \<Rightarrow> rw_status \<Rightarrow> rw_status" where
  "mark_dropped CloseRead r = r\<lparr>reader_dropped := True\<rparr>"
| "mark_dropped CloseWrite r = r\<lparr>writer_dropped := True\<rparr>"

definition Connection_drop_half ::
    "'s tcp_api \<Rightarrow> ('q, 'k) delay_api \<Rightarrow> close \<Rightarrow> 's connection \<Rightarrow> ('q, 'k) dispatch_queue \<Rightarrow>
     ('s connection \<times> ('q, 'k) dispatch_queue) outcome" where
  "Connection_drop_half A D side c q =
     (let handle = Connection_handle c; c1 = c\<lparr>rw := mark_dropped side (rw c)\<rparr>
      in if \<not> writer_dropped (rw c1) then Done (c1, q)
         else let t = sk_close A (tcp (socket c1));
                  p0 = sk_poll_at A t;
                  p = (if both_dropped (rw c1) \<and> p0 = Ingress then Now else p0)
              in and_then (DispatchQueue_send D q handle p) (\<lambda>q'.
                   Done (c1\<lparr>socket := (socket c1)\<lparr>tcp := t\<rparr>\<rparr>, q')))"

section \<open>Waking changes nothing but wakers\<close>

definition same_status :: "rw_status \<Rightarrow> rw_status \<Rightarrow> bool" where
  "same_status r r' \<longleftrightarrow> rw_handle r' = rw_handle r \<and> reader_dropped r' = reader_dropped r
     \<and> writer_dropped r' = writer_dropped r"

lemma same_status_refl [simp]: "same_status r r"
  by (simp add: same_status_def)

lemma same_status_both: "same_status r r' \<Longrightarrow> both_dropped r' = both_dropped r"
  by (simp add: same_status_def both_dropped_def)

text \<open>A waker is either still there or it was woken; none is lost.\<close>

definition keeps_wakers :: "rw_status \<Rightarrow> rw_status \<Rightarrow> waker set \<Rightarrow> bool" where
  "keeps_wakers r r' ws \<longleftrightarrow>
     set_option (waker_of (read_readiness r)) \<subseteq> set_option (waker_of (read_readiness r')) \<union> ws
     \<and> set_option (waker_of (write_readiness r)) \<subseteq> set_option (waker_of (write_readiness r')) \<union> ws"

lemmas wake_defs =
  wake_if_def wake_to_close_def wake_reader_def wake_writer_def wake_once_def

lemma process_wakes:
  assumes "wake_if (sk_can_recv A t) wake_reader (r, []) = (r1, ws1)"
    and "wake_to_close A t r1 = (r2, ws2)"
  shows "same_status r r2" and "keeps_wakers r r2 (set ws1 \<union> set ws2)"
    and "sk_can_recv A t \<or> \<not> sk_may_recv A t \<Longrightarrow> \<not> reader_dropped r \<Longrightarrow>
      waker_of (read_readiness r2) = None"
    and "sk_may_send A t \<Longrightarrow> write_readiness r2 = write_readiness r"
    and "\<not> sk_may_send A t \<Longrightarrow> \<not> writer_dropped r \<Longrightarrow> waker_of (write_readiness r2) = None"
  using assms
  by (auto simp: wake_defs same_status_def keeps_wakers_def split: if_splits option.splits)

lemma dispatch_wakes:
  assumes "wake_to_close A t r = (r1, ws1)"
    and "wake_if (sk_can_send A t) wake_writer (r1, []) = (r2, ws2)"
  shows "same_status r r2" and "keeps_wakers r r2 (set ws1 \<union> set ws2)"
    and "sk_can_send A t \<or> \<not> sk_may_send A t \<Longrightarrow> \<not> writer_dropped r \<Longrightarrow>
      waker_of (write_readiness r2) = None"
    and "\<not> sk_may_recv A t \<Longrightarrow> \<not> reader_dropped r \<Longrightarrow> waker_of (read_readiness r2) = None"
  using assms
  by (auto simp: wake_defs same_status_def keeps_wakers_def split: if_splits option.splits)

section \<open>Which packets a connection accepts\<close>

lemma check_acceptability_error:
  "check_acceptability W A t ip repr = Inl e \<Longrightarrow> e = Dropped"
  by (auto simp: check_acceptability_def Let_def split: if_splits)

text \<open>Once both endpoints are known, exactly the packets of the flow between them are accepted.\<close>

lemma check_acceptability_flow:
  assumes "sk_state A t \<noteq> Closed" and "sk_state A t \<noteq> Listen"
    and "\<not> addr_is_unspecified W (ep_addr (sk_local_endpoint A t))"
    and "\<not> addr_is_unspecified W (ep_addr (sk_remote_endpoint A t))"
    and "ep_port (sk_remote_endpoint A t) \<noteq> 0"
  shows "check_acceptability W A t ip repr = Inr () \<longleftrightarrow>
    sk_local_endpoint A t = \<lparr>ep_addr = ip_dst_addr ip, ep_port = dst_port repr\<rparr>
    \<and> sk_remote_endpoint A t = \<lparr>ep_addr = ip_src_addr ip, ep_port = src_port repr\<rparr>"
proof -
  have eq: "e = \<lparr>ep_addr = a, ep_port = p\<rparr> \<longleftrightarrow> ep_addr e = a \<and> ep_port e = p" for e :: ip_endpoint and a p
    by (cases e) auto
  show ?thesis
    using assms by (auto simp: check_acceptability_def Let_def eq)
qed

section \<open>Processing\<close>

lemma Connection_process_cases:
  assumes "Connection_process W A D ts ip repr c q = Done (reply, c', q', ws)"
  obtains (rejected) e where "check_acceptability W A (tcp (socket c)) ip repr = Inl e"
      "reply = Inl e" "c' = c" "q' = q" "ws = []"
  | (accepted) t1 p where "check_acceptability W A (tcp (socket c)) ip repr = Inr ()"
      "sk_process A (tcp (socket c)) ts ip repr = (reply, t1)"
      "socket c' = (socket c)\<lparr>tcp := t1\<rparr>" "same_status (rw c) (rw c')"
      "p = (if both_dropped (rw c) \<and> sk_poll_at A t1 = Ingress
              \<and> \<not> DispatchQueue_contains q (Connection_handle c)
            then Now else sk_poll_at A t1)"
      "DispatchQueue_send D q (Connection_handle c) p = Done q'"
      "keeps_wakers (rw c) (rw c') (set ws)"
      "sk_can_recv A t1 \<or> \<not> sk_may_recv A t1 \<Longrightarrow> \<not> reader_dropped (rw c) \<Longrightarrow>
         waker_of (read_readiness (rw c')) = None"
      "sk_may_send A t1 \<Longrightarrow> write_readiness (rw c') = write_readiness (rw c)"
      "\<not> sk_may_send A t1 \<Longrightarrow> \<not> writer_dropped (rw c) \<Longrightarrow> waker_of (write_readiness (rw c')) = None"
proof (cases "check_acceptability W A (tcp (socket c)) ip repr")
  case (Inl e)
  with assms show ?thesis
    by (intro rejected) (auto simp: Connection_process_def Let_def)
next
  case (Inr u)
  obtain r0 t1 where proc: "sk_process A (tcp (socket c)) ts ip repr = (r0, t1)"
    by (cases "sk_process A (tcp (socket c)) ts ip repr")
  obtain r1 ws1 where w1: "wake_if (sk_can_recv A t1) wake_reader (rw c, []) = (r1, ws1)"
    by (cases "wake_if (sk_can_recv A t1) wake_reader (rw c, [])")
  obtain r2 ws2 where w2: "wake_to_close A t1 r1 = (r2, ws2)"
    by (cases "wake_to_close A t1 r1")
  note wakes = process_wakes [OF w1 w2]
  show ?thesis
    by (rule accepted [of t1])
      (use assms Inr proc w1 w2 wakes same_status_both [OF wakes(1)] in
        \<open>auto simp: Connection_process_def Let_def\<close>)
qed

lemma Connection_process_handle [frame_simps]:
  assumes "Connection_process W A D ts ip repr c q = Done (reply, c', q', ws)"
  shows "Connection_handle c' = Connection_handle c" and "same_status (rw c) (rw c')"
    and "polling_active (socket c') = polling_active (socket c)"
  using assms
  by (auto elim!: Connection_process_cases simp: Connection_handle_def same_status_def)

section \<open>Dispatching\<close>

definition finished :: "wire_api \<Rightarrow> 's tcp_api \<Rightarrow> (smol_error, unit) result \<Rightarrow> 's \<Rightarrow> bool" where
  "finished W A r t \<longleftrightarrow>
     \<not> ep_is_specified W (sk_remote_endpoint A t) \<or> r = Inl Exhausted \<or> sk_poll_at A t = Ingress"

lemma Connection_dispatch_cases:
  assumes "Connection_dispatch W A D buf ts caps c q = Done (dr, buf', c', q', ws)"
  obtains r t where "buf = []"
    "run_dispatch (sk_dispatch A (tcp (socket c)) ts caps)
       (\<lambda>p b. packet_to_bytes W (PacketTcp p) b (checksum caps)) [] = Done (r, t, buf')"
    "tcp (socket c') = t" "same_status (rw c) (rw c')" "keeps_wakers (rw c) (rw c') (set ws)"
    "dr \<longleftrightarrow> both_dropped (rw c) \<and> finished W A r t"
    "dr \<Longrightarrow> q' = q"
    "\<not> dr \<Longrightarrow> DispatchQueue_send D q (Connection_handle c) (sk_poll_at A t) = Done q'"
    "\<not> dr \<Longrightarrow> polling_active (socket c') \<longleftrightarrow> sk_poll_at A t = Now"
    "sk_can_send A t \<or> \<not> sk_may_send A t \<Longrightarrow> \<not> writer_dropped (rw c) \<Longrightarrow>
       waker_of (write_readiness (rw c')) = None"
    "\<not> sk_may_recv A t \<Longrightarrow> \<not> reader_dropped (rw c) \<Longrightarrow> waker_of (read_readiness (rw c')) = None"
proof -
  have empty: "buf = []"
    using assms by (auto simp: Connection_dispatch_def split: if_splits)
  with assms obtain r t b where run:
    "run_dispatch (sk_dispatch A (tcp (socket c)) ts caps)
       (\<lambda>p b. packet_to_bytes W (PacketTcp p) b (checksum caps)) [] = Done (r, t, b)"
    by (auto simp: Connection_dispatch_def)
  obtain r1 ws1 where w1: "wake_to_close A t (rw c) = (r1, ws1)"
    by (cases "wake_to_close A t (rw c)")
  obtain r2 ws2 where w2: "wake_if (sk_can_send A t) wake_writer (r1, []) = (r2, ws2)"
    by (cases "wake_if (sk_can_send A t) wake_writer (r1, [])")
  note wakes = dispatch_wakes [OF w1 w2]
  note both = same_status_both [OF wakes(1)]
  show thesis
  proof (cases "both_dropped (rw c) \<and> finished W A r t")
    case True
    then show thesis
      using assms empty run w1 w2 wakes both
      by (intro that [of r t]) (auto simp: Connection_dispatch_def finished_def Let_def)
  next
    case False
    then have "Connection_dispatch W A D buf ts caps c q =
        and_then (DispatchQueue_send D q (Connection_handle c) (sk_poll_at A t)) (\<lambda>q1.
          Done (False, b,
            c\<lparr>rw := r2, socket := (socket c)\<lparr>tcp := t, polling_active := (sk_poll_at A t = Now)\<rparr>\<rparr>,
            q1, ws1 @ ws2))"
      using empty run w1 w2 both
      by (auto simp: Connection_dispatch_def finished_def Let_def)
    then show thesis
      using assms empty run False wakes
      by (intro that [of r t]) auto
  qed
qed

lemma Connection_dispatch_handle [frame_simps]:
  assumes "Connection_dispatch W A D buf ts caps c q = Done (dr, buf', c', q', ws)"
  shows "Connection_handle c' = Connection_handle c" and "same_status (rw c) (rw c')"
proof -
  show "same_status (rw c) (rw c')"
    using assms by (rule Connection_dispatch_cases)
  then show "Connection_handle c' = Connection_handle c"
    by (simp add: Connection_handle_def same_status_def)
qed

section \<open>Dropping a half\<close>

lemma Connection_drop_half_cases:
  assumes "Connection_drop_half A D side c q = Done (c', q')"
  obtains (still_open) "c' = c\<lparr>rw := mark_dropped side (rw c)\<rparr>" "q' = q" "side = CloseRead"
      "\<not> writer_dropped (rw c)"
  | (closed) p where "rw c' = mark_dropped side (rw c)"
      "socket c' = (socket c)\<lparr>tcp := sk_close A (tcp (socket c))\<rparr>"
      "writer_dropped (rw c')"
      "p = (if both_dropped (rw c') \<and> sk_poll_at A (tcp (socket c')) = Ingress then Now
            else sk_poll_at A (tcp (socket c')))"
      "DispatchQueue_send D q (Connection_handle c) p = Done q'"
  using assms
  by (cases side) (auto simp: Connection_drop_half_def Let_def split: if_splits)

lemma mark_dropped_simps [simp]:
  "rw_handle (mark_dropped side r) = rw_handle r"
  "reader_dropped (mark_dropped side r) \<longleftrightarrow> side = CloseRead \<or> reader_dropped r"
  "writer_dropped (mark_dropped side r) \<longleftrightarrow> side = CloseWrite \<or> writer_dropped r"
  "read_readiness (mark_dropped side r) = read_readiness r"
  "write_readiness (mark_dropped side r) = write_readiness r"
  by (cases side; simp)+

lemma Connection_drop_half_handle [frame_simps]:
  assumes "Connection_drop_half A D side c q = Done (c', q')"
  shows "Connection_handle c' = Connection_handle c" and "rw c' = mark_dropped side (rw c)"
    and "polling_active (socket c') = polling_active (socket c)"
  using assms
  by (auto elim!: Connection_drop_half_cases simp: Connection_handle_def)

section \<open>What the operations do to the schedule\<close>

text \<open>
  Every operation of a connection touches the deadline of its own handle only, never takes one
  away, and keeps a connection with two dropped halves scheduled, so that it is removed in the end.
\<close>

definition touches_only ::
    "('q, 'k) entries \<Rightarrow> socket_handle \<Rightarrow> ('q, 'k) dispatch_queue \<Rightarrow> ('q, 'k) dispatch_queue \<Rightarrow> bool" where
  "touches_only ent h q q' \<longleftrightarrow>
     queue_inv ent q' \<and> dq_clock q' = dq_clock q \<and> dom (due ent q) \<subseteq> dom (due ent q')
     \<and> dom (due ent q') \<subseteq> insert h (dom (due ent q))
     \<and> (\<forall>h'. h' \<noteq> h \<longrightarrow> due ent q' h' = due ent q h')"

lemma touches_only_refl: "queue_inv ent q \<Longrightarrow> touches_only ent h q q"
  by (auto simp: touches_only_def)

context delay_queue
begin

lemma send_touches_only:
  assumes "queue_inv ent q" and "DispatchQueue_send D q h p = Done q'"
  shows "touches_only ent h q q'"
  using sched.send_dom [OF assms] sched.send_other [OF assms] DispatchQueue_send_Done [OF assms]
  by (auto simp: touches_only_def)

lemma process_queue:
  assumes "queue_inv ent q" and "Connection_process W A D ts ip repr c q = Done (reply, c', q', ws)"
  shows "touches_only ent (Connection_handle c) q q'"
    and "both_dropped (rw c) \<Longrightarrow> q' = q \<or> Connection_handle c \<in> dom (due ent q')"
proof -
  from assms(2) show "touches_only ent (Connection_handle c) q q'"
    by (rule Connection_process_cases)
      (use assms(1) send_touches_only touches_only_refl in \<open>auto\<close>)
  assume both: "both_dropped (rw c)"
  from assms(2) show "q' = q \<or> Connection_handle c \<in> dom (due ent q')"
  proof (rule Connection_process_cases)
    fix t1 p
    assume p: "p = (if both_dropped (rw c) \<and> sk_poll_at A t1 = Ingress
              \<and> \<not> DispatchQueue_contains q (Connection_handle c)
            then Now else sk_poll_at A t1)"
      and send: "DispatchQueue_send D q (Connection_handle c) p = Done q'"
    show ?thesis
      using sched.send_dom [OF assms(1) send] DispatchQueue_contains_due [OF assms(1)] p both
      by (auto split: if_splits)
  qed auto
qed

lemma dispatch_queue_kept:
  assumes "queue_inv ent q"
    and "Connection_dispatch W A D buf ts caps c q = Done (dr, buf', c', q', ws)"
  shows "touches_only ent (Connection_handle c) q q'"
    and "\<not> dr \<Longrightarrow> polling_active (socket c') \<or> both_dropped (rw c) \<Longrightarrow>
      Connection_handle c \<in> dom (due ent q')"
    and "dr \<Longrightarrow> both_dropped (rw c)"
proof -
  from assms(2) obtain r t where dr: "dr \<longleftrightarrow> both_dropped (rw c) \<and> finished W A r t"
    and same: "dr \<Longrightarrow> q' = q"
    and send: "\<not> dr \<Longrightarrow> DispatchQueue_send D q (Connection_handle c) (sk_poll_at A t) = Done q'"
    and active: "\<not> dr \<Longrightarrow> polling_active (socket c') \<longleftrightarrow> sk_poll_at A t = Now"
    by (rule Connection_dispatch_cases) (rule that; blast)
  show "touches_only ent (Connection_handle c) q q'"
    using same send assms(1) send_touches_only touches_only_refl by (cases dr) auto
  show "dr \<Longrightarrow> both_dropped (rw c)"
    using dr by simp
  assume "\<not> dr" and "polling_active (socket c') \<or> both_dropped (rw c)"
  with dr active have "sk_poll_at A t \<noteq> Ingress"
    by (auto simp: finished_def)
  then show "Connection_handle c \<in> dom (due ent q')"
    using sched.send_dom [OF assms(1) send [OF \<open>\<not> dr\<close>]] by simp
qed

lemma drop_half_queue:
  assumes "queue_inv ent q" and "Connection_drop_half A D side c q = Done (c', q')"
  shows "touches_only ent (Connection_handle c) q q'"
    and "both_dropped (rw c') \<Longrightarrow> Connection_handle c \<in> dom (due ent q')"
proof -
  from assms(2) show "touches_only ent (Connection_handle c) q q'"
    by (rule Connection_drop_half_cases)
      (use assms(1) send_touches_only touches_only_refl in \<open>auto\<close>)
  assume both: "both_dropped (rw c')"
  from assms(2) show "Connection_handle c \<in> dom (due ent q')"
  proof (rule Connection_drop_half_cases)
    assume "c' = c\<lparr>rw := mark_dropped side (rw c)\<rparr>" "\<not> writer_dropped (rw c)" "side = CloseRead"
    with both show ?thesis
      by (simp add: both_dropped_def)
  next
    fix p
    assume "p = (if both_dropped (rw c') \<and> sk_poll_at A (tcp (socket c')) = Ingress then Now
            else sk_poll_at A (tcp (socket c')))"
      and send: "DispatchQueue_send D q (Connection_handle c) p = Done q'"
    with both show ?thesis
      using sched.send_dom [OF assms(1) send] by (auto split: if_splits)
  qed
qed

text \<open>The polling times of the socket can be represented: then no operation panics.\<close>

lemma process_no_panic:
  assumes "queue_inv ent q" and "\<And>t. representable in_range (dq_clock q) (sk_poll_at A t)"
    and "in_range (origin (dq_clock q))"
  shows "no_panic (Connection_process W A D ts ip repr c q)"
proof -
  have "no_panic (DispatchQueue_send D q h p)" if "p = Now \<or> (\<exists>t. p = sk_poll_at A t)" for h p
    using that assms DispatchQueue_send_no_panic [OF assms(1), of p h] by auto
  then show ?thesis
    by (auto simp: Connection_process_def Let_def no_panic_iff and_then_Done_iff
        split: sum.splits prod.splits)
qed

lemma drop_half_no_panic:
  assumes "queue_inv ent q" and "\<And>t. representable in_range (dq_clock q) (sk_poll_at A t)"
    and "in_range (origin (dq_clock q))"
  shows "no_panic (Connection_drop_half A D side c q)"
proof -
  have "no_panic (DispatchQueue_send D q h p)" if "p = Now \<or> (\<exists>t. p = sk_poll_at A t)" for h p
    using that assms DispatchQueue_send_no_panic [OF assms(1), of p h] by auto
  then show ?thesis
    by (auto simp: Connection_drop_half_def Let_def no_panic_iff and_then_Done_iff)
qed

end

section \<open>Properties of a connection\<close>

abbreviation flow_sock :: sock where
  "flow_sock \<equiv> (sk_new sample_tcp 16 16)\<lparr>so_state := Established,
     so_local := \<lparr>ep_addr = Ipv4 (10, 0, 0, 2), ep_port = 80\<rparr>,
     so_remote := \<lparr>ep_addr = Ipv4 (10, 0, 0, 1), ep_port = 5\<rparr>\<rparr>"

abbreviation flow_ip :: ip_repr where
  "flow_ip \<equiv> IpReprV4 \<lparr>v4_src_addr = (10, 0, 0, 1), v4_dst_addr = (10, 0, 0, 2),
     v4_protocol = ProtoTcp, v4_rest = []\<rparr>"

abbreviation flow_tcp :: tcp_repr where
  "flow_tcp \<equiv> \<lparr>src_port = 5, dst_port = 80, control = CtlPsh, ack_number = Some 1, tcp_rest = [7]\<rparr>"

abbreviation flow_conn :: "sock connection" where
  "flow_conn \<equiv> Connection_new \<lparr>tcp = flow_sock, polling_active = False\<rparr> sample_handle
     \<lparr>waker_of = Some 4\<rparr> \<lparr>waker_of = Some 6\<rparr>"

text \<open>
  (C24) A connection whose two endpoints are known accepts exactly the packets that travel from its
  remote to its local endpoint.
\<close>

theorem accepts_exactly_its_flow:
  assumes "sk_state A t \<noteq> Closed" and "sk_state A t \<noteq> Listen"
    and "\<not> addr_is_unspecified W (ep_addr (sk_local_endpoint A t))"
    and "\<not> addr_is_unspecified W (ep_addr (sk_remote_endpoint A t))"
    and "ep_port (sk_remote_endpoint A t) \<noteq> 0"
  shows "check_acceptability W A t ip repr = Inr () \<longleftrightarrow>
    sk_local_endpoint A t = \<lparr>ep_addr = ip_dst_addr ip, ep_port = dst_port repr\<rparr>
    \<and> sk_remote_endpoint A t = \<lparr>ep_addr = ip_src_addr ip, ep_port = src_port repr\<rparr>"
  using assms by (rule check_acceptability_flow)

theorem accepts_exactly_its_flow_witness:
  "check_acceptability sample_wire sample_tcp flow_sock flow_ip flow_tcp = Inr ()
   \<and> check_acceptability sample_wire sample_tcp flow_sock flow_ip (flow_tcp\<lparr>src_port := 6\<rparr>) \<noteq> Inr ()"
  using accepts_exactly_its_flow [of sample_tcp flow_sock sample_wire flow_ip flow_tcp]
    accepts_exactly_its_flow [of sample_tcp flow_sock sample_wire flow_ip "flow_tcp\<lparr>src_port := 6\<rparr>"]
  by (simp add: sample_tcp_def sample_wire_def)

text \<open>
  A packet that is not acceptable is answered with \<open>Dropped\<close> and changes neither the
  connection nor the queue, and wakes nobody. An accepted packet is given to the socket, the
  status of the halves and the polling flag stay, and the connection is rescheduled by the socket's
  polling time; only when both halves are gone, the socket waits for the peer and nothing is scheduled
  it is scheduled at once, so that it is removed.
\<close>

theorem process_outcome:
  assumes "Connection_process W A D ts ip repr c q = Done (reply, c', q', ws)"
  shows "case check_acceptability W A (tcp (socket c)) ip repr of
      Inl e \<Rightarrow> e = Dropped \<and> reply = Inl Dropped \<and> c' = c \<and> q' = q \<and> ws = []
    | Inr _ \<Rightarrow> sk_process A (tcp (socket c)) ts ip repr = (reply, tcp (socket c'))
        \<and> polling_active (socket c') = polling_active (socket c) \<and> same_status (rw c) (rw c')
        \<and> DispatchQueue_send D q (Connection_handle c)
            (if both_dropped (rw c) \<and> sk_poll_at A (tcp (socket c')) = Ingress
                \<and> \<not> DispatchQueue_contains q (Connection_handle c)
             then Now else sk_poll_at A (tcp (socket c'))) = Done q'"
  using assms
proof (cases rule: Connection_process_cases)
  case (rejected e)
  with check_acceptability_error [OF rejected(1)] show ?thesis by simp
next
  case (accepted t1 p)
  then show ?thesis by (simp split del: if_split cong: if_cong)
qed

lemma sample_process:
  "\<exists>reply c' q' ws. Connection_process sample_wire sample_tcp slab_api 0 flow_ip flow_tcp flow_conn
     (DispatchQueue_new slab_api (Clock_new 0)) = Done (reply, c', q', ws)"
  by (simp add: Connection_process_def check_acceptability_def sample_tcp_def sample_wire_def
      sock_process_def Let_def Connection_new_def DispatchQueue_send_def case_prod_beta both_dropped_def wake_defs
      no_endpoint_def)

theorem process_outcome_witness:
  "\<exists>reply c' q' ws. Connection_process sample_wire sample_tcp slab_api 0 flow_ip flow_tcp flow_conn
     (DispatchQueue_new slab_api (Clock_new 0)) = Done (reply, c', q', ws)
     \<and> sk_process sample_tcp flow_sock 0 flow_ip flow_tcp = (reply, tcp (socket c'))"
proof -
  obtain reply c' q' ws where call: "Connection_process sample_wire sample_tcp slab_api 0 flow_ip flow_tcp
     flow_conn (DispatchQueue_new slab_api (Clock_new 0)) = Done (reply, c', q', ws)"
    using sample_process by blast
  have "check_acceptability sample_wire sample_tcp flow_sock flow_ip flow_tcp = Inr ()"
    by (simp add: check_acceptability_def sample_tcp_def sample_wire_def)
  with process_outcome [OF call] call show ?thesis
    by (auto simp: Connection_new_def)
qed

text \<open>
  No lost wake-up in processing: a waker is still in its cell or it was woken, and when the
  socket has bytes, or will have none any more, a reader that is not dropped has been woken.
\<close>

theorem process_wakes_reader:
  assumes "Connection_process W A D ts ip repr c q = Done (reply, c', q', ws)"
    and "check_acceptability W A (tcp (socket c)) ip repr = Inr ()"
    and "sk_can_recv A (tcp (socket c')) \<or> \<not> sk_may_recv A (tcp (socket c'))"
    and "\<not> reader_dropped (rw c)"
  shows "keeps_wakers (rw c) (rw c') (set ws) \<and> waker_of (read_readiness (rw c')) = None
    \<and> set_option (waker_of (read_readiness (rw c))) \<subseteq> set ws"
  using assms(1)
proof (cases rule: Connection_process_cases)
  case (rejected e)
  with assms(2) show ?thesis by simp
next
  case (accepted t1 p)
  then have "waker_of (read_readiness (rw c')) = None"
    using assms(3,4) by auto
  with accepted(7) show ?thesis
    by (auto simp: keeps_wakers_def)
qed

theorem process_wakes_reader_witness:
  "\<exists>reply c' q' ws. Connection_process sample_wire sample_tcp slab_api 0 flow_ip flow_tcp flow_conn
     (DispatchQueue_new slab_api (Clock_new 0)) = Done (reply, c', q', ws) \<and> 4 \<in> set ws"
proof -
  obtain reply c' q' ws where call: "Connection_process sample_wire sample_tcp slab_api 0 flow_ip flow_tcp
     flow_conn (DispatchQueue_new slab_api (Clock_new 0)) = Done (reply, c', q', ws)"
    using sample_process by blast
  have ok: "check_acceptability sample_wire sample_tcp (tcp (socket flow_conn)) flow_ip flow_tcp = Inr ()"
    by (simp add: check_acceptability_def sample_tcp_def sample_wire_def Connection_new_def)
  have "sk_process sample_tcp flow_sock 0 flow_ip flow_tcp = (reply, tcp (socket c'))"
    using call by (rule Connection_process_cases) (use ok in \<open>simp_all add: Connection_new_def\<close>)
  then have "sk_can_recv sample_tcp (tcp (socket c'))"
    by (auto simp: sample_tcp_def sock_process_def dest: sym)
  with process_wakes_reader [OF call ok] call show ?thesis
    by (auto simp: Connection_new_def)
qed

text \<open>
  Dispatching removes a connection exactly when both halves are gone and the socket is
  finished: it has no peer, had nothing to send, or only waits for the peer. Otherwise the
  connection is rescheduled by the socket's polling time, and its flag tells whether that is now.
\<close>

theorem dispatch_removal_decision:
  assumes "Connection_dispatch W A D buf ts caps c q = Done (dr, buf', c', q', ws)"
  shows "\<exists>r t. run_dispatch (sk_dispatch A (tcp (socket c)) ts caps)
       (\<lambda>p b. packet_to_bytes W (PacketTcp p) b (checksum caps)) [] = Done (r, t, buf')
    \<and> (dr \<longleftrightarrow> both_dropped (rw c) \<and> (\<not> ep_is_specified W (sk_remote_endpoint A t)
          \<or> r = Inl Exhausted \<or> sk_poll_at A t = Ingress))
    \<and> (if dr then q' = q
       else DispatchQueue_send D q (Connection_handle c) (sk_poll_at A t) = Done q'
         \<and> polling_active (socket c') = (sk_poll_at A t = Now))"
  using assms
proof (cases rule: Connection_dispatch_cases)
  case (1 r t)
  then show ?thesis
    by (intro exI [of _ r] exI [of _ t]) (auto simp: finished_def)
qed

lemma sample_dispatch:
  "\<exists>buf' c' q' ws. Connection_dispatch sample_wire sample_tcp slab_api [] 0
     \<lparr>max_transmission_unit = 1500, checksum = []\<rparr> flow_conn (DispatchQueue_new slab_api (Clock_new 0)) =
     Done (False, buf', c', q', ws)"
  by (simp add: Connection_dispatch_def sample_tcp_def sample_wire_def sock_dispatch_def Let_def
      Connection_new_def DispatchQueue_send_def case_prod_beta both_dropped_def wake_defs no_endpoint_def)

theorem dispatch_removal_decision_witness:
  "\<exists>buf' c' q' ws. Connection_dispatch sample_wire sample_tcp slab_api [] 0
     \<lparr>max_transmission_unit = 1500, checksum = []\<rparr> flow_conn (DispatchQueue_new slab_api (Clock_new 0)) =
     Done (False, buf', c', q', ws)
     \<and> (\<exists>t. polling_active (socket c') = (sk_poll_at sample_tcp t = Now))"
  using sample_dispatch dispatch_removal_decision by fastforce

text \<open>
  No lost wake-up in dispatching: a waker is still in its cell or it was woken; when there is
  room in the socket's send buffer, or sending is over, a writer that is not dropped has been woken,
  and when receiving is over, so has a reader.
\<close>

theorem dispatch_wakes_halves:
  assumes "Connection_dispatch W A D buf ts caps c q = Done (dr, buf', c', q', ws)"
  shows "keeps_wakers (rw c) (rw c') (set ws)
    \<and> (sk_can_send A (tcp (socket c')) \<or> \<not> sk_may_send A (tcp (socket c')) \<longrightarrow> \<not> writer_dropped (rw c) \<longrightarrow>
        waker_of (write_readiness (rw c')) = None)
    \<and> (\<not> sk_may_recv A (tcp (socket c')) \<longrightarrow> \<not> reader_dropped (rw c) \<longrightarrow>
        waker_of (read_readiness (rw c')) = None)"
  using assms by (cases rule: Connection_dispatch_cases) auto

theorem dispatch_wakes_halves_witness:
  "\<exists>dr buf' c' q' ws. Connection_dispatch sample_wire sample_tcp slab_api [] 0
     \<lparr>max_transmission_unit = 1500, checksum = []\<rparr> flow_conn (DispatchQueue_new slab_api (Clock_new 0)) =
     Done (dr, buf', c', q', ws) \<and> keeps_wakers (rw flow_conn) (rw c') (set ws)"
  using sample_dispatch dispatch_wakes_halves by blast

text \<open>
  Dropping the reader first leaves the socket and the queue alone. Once the writer is dropped
  the socket is closed, and after the second half is dropped the connection is scheduled,
  so that the loop will remove it.
\<close>

theorem drop_half_closes:
  assumes "delay_queue D ent in_range" and "queue_inv ent q"
    and "Connection_drop_half A D side c q = Done (c', q')"
  shows "rw c' = mark_dropped side (rw c)
    \<and> (if side = CloseRead \<and> \<not> writer_dropped (rw c) then socket c' = socket c \<and> q' = q
       else tcp (socket c') = sk_close A (tcp (socket c)))
    \<and> (both_dropped (rw c') \<longrightarrow> DispatchQueue_contains q' (Connection_handle c))"
proof (intro conjI impI)
  show "rw c' = mark_dropped side (rw c)"
    using Connection_drop_half_handle(2) [OF assms(3)] .
  show "if side = CloseRead \<and> \<not> writer_dropped (rw c) then socket c' = socket c \<and> q' = q
       else tcp (socket c') = sk_close A (tcp (socket c))"
    using assms(3) by (cases rule: Connection_drop_half_cases) (auto split: if_splits)
  assume "both_dropped (rw c')"
  then show "DispatchQueue_contains q' (Connection_handle c)"
    using delay_queue.drop_half_queue [OF assms]
    by (simp add: delay_queue.DispatchQueue_contains_due [OF assms(1)] touches_only_def)
qed

theorem drop_half_closes_witness:
  "\<exists>c' q'. Connection_drop_half sample_tcp slab_api CloseWrite
      (flow_conn\<lparr>rw := (rw flow_conn)\<lparr>reader_dropped := True\<rparr>\<rparr>) (DispatchQueue_new slab_api (Clock_new 0)) = Done (c', q')
     \<and> DispatchQueue_contains q' sample_handle"
proof -
  obtain c' q' where call: "Connection_drop_half sample_tcp slab_api CloseWrite
      (flow_conn\<lparr>rw := (rw flow_conn)\<lparr>reader_dropped := True\<rparr>\<rparr>) (DispatchQueue_new slab_api (Clock_new 0)) = Done (c', q')"
    using slab.drop_half_no_panic [OF slab_queue_new, of "Clock_new 0" sample_tcp CloseWrite
        "flow_conn\<lparr>rw := (rw flow_conn)\<lparr>reader_dropped := True\<rparr>\<rparr>"] sample_poll_times
    by (auto simp: no_panic_iff DispatchQueue_new_def)
  with drop_half_closes [OF slab.delay_queue_axioms slab_queue_new call] show ?thesis
    by (auto simp: Connection_new_def Connection_handle_def both_dropped_def)
qed

end
