(* ===== verification/Socket_Pool.thy ===== *)
theory Socket_Pool
  imports Connections
begin

text \<open>
  The pool of connections (\<open>src/ustunet/src/sockets/mod.rs\<close>): it finds or creates the connection
  of a packet, dispatches a connection whose timer expired, and removes it in the end.

  The streams of new connections go to the listener over a channel. When the listener is gone,
  the stream is dropped at once, and its halves report that. Beside the new state the functions
  return what they add to the channels and the tasks they wake, as an \<open>effects\<close> record. The fields
  that are only ends of channels (\<open>new_conns\<close>, \<open>send_poll\<close>, \<open>shutdown_builder\<close>) have no counterpart.
\<close>

section \<open>State\<close>

record ('s, 'q, 'k) socket_pool =
  sp_queue :: "('q, 'k) dispatch_queue"
  sp_sockets :: "addr_pair \<rightharpoonup> 's connection"
  sp_capabilities :: device_capabilities
  sp_clock :: clock

record effects =
  new_streams :: "tcp_stream list"
  close_msgs :: "close_msg list"
  woken :: "waker list"

definition no_effects :: effects where
  "no_effects = \<lparr>new_streams = [], close_msgs = [], woken = []\<rparr>"

definition SocketPool_new ::
    "device_capabilities \<Rightarrow> ('q, 'k) dispatch_queue \<Rightarrow> clock \<Rightarrow> ('s, 'q, 'k) socket_pool" where
  "SocketPool_new caps q c =
     \<lparr>sp_queue = q, sp_sockets = Map.empty, sp_capabilities = caps, sp_clock = c\<rparr>"

section \<open>Opening a socket\<close>

definition RX_BUF_SIZE :: nat where
  "RX_BUF_SIZE = 32768"

definition TX_BUF_SIZE :: nat where
  "TX_BUF_SIZE = RX_BUF_SIZE"

definition create_tcp_socket :: "'s tcp_api \<Rightarrow> 's" where
  "create_tcp_socket A = sk_new A RX_BUF_SIZE TX_BUF_SIZE"

definition open_socket :: "'s tcp_api \<Rightarrow> socket_addr \<Rightarrow> (smol_error, 's) result" where
  "open_socket A at =
     (let s = create_tcp_socket A
      in case (if \<not> sk_is_open A s then sk_listen A s at else Inr s) of
           Inl e \<Rightarrow> Inl e
         | Inr s1 \<Rightarrow> Inr (sk_set_ack_delay A s1 (Some 0)))"

section \<open>Finding or creating a connection\<close>

text \<open>
  The result of the send to the listener is given by \<open>listening\<close>; the close channel's receiver
  is the loop that runs this code, so it is alive.
\<close>

definition offer_stream :: "bool \<Rightarrow> tcp_stream \<Rightarrow> effects outcome" where
  "offer_stream listening s =
     (if listening then Done (no_effects\<lparr>new_streams := [s]\<rparr>)
      else and_then (TcpStream_drop True s) (\<lambda>ms. Done (no_effects\<lparr>close_msgs := ms\<rparr>)))"

definition create_syn ::
    "'s tcp_api \<Rightarrow> bool \<Rightarrow> addr_pair \<Rightarrow> tcp_repr \<Rightarrow> ('s, 'q, 'k) socket_pool \<Rightarrow>
     ((smol_error, unit) result \<times> ('s, 'q, 'k) socket_pool \<times> effects) outcome" where
  "create_syn A listening pair repr p =
     (case sp_sockets p pair of
        Some s \<Rightarrow> Done (Inr (), p, no_effects)
      | None \<Rightarrow>
          if control repr = CtlSyn then
            (case open_socket A (local_side pair) of
               Inl e \<Rightarrow> Done (Inl e, p, no_effects)
             | Inr s \<Rightarrow>
                 let (stream, c) = TcpStream_new s pair
                 in and_then (offer_stream listening stream) (\<lambda>eff.
                      if sp_sockets p pair = None
                      then Done (Inr (), p\<lparr>sp_sockets := (sp_sockets p)(pair \<mapsto> c)\<rparr>, eff)
                      else Panicked SocketAlreadyThere))
          else Done (Inl Dropped, p, no_effects))"

section \<open>The operations\<close>

definition SocketPool_process ::
    "wire_api \<Rightarrow> 's tcp_api \<Rightarrow> ('q, 'k) delay_api \<Rightarrow> bool \<Rightarrow> instant \<Rightarrow> ip_repr \<Rightarrow> tcp_repr \<Rightarrow>
     ('s, 'q, 'k) socket_pool \<Rightarrow>
     ((smol_error, reply) result \<times> ('s, 'q, 'k) socket_pool \<times> effects) outcome" where
  "SocketPool_process W A D listening now ip repr p =
     (case packet_pair W ip repr of
        Inl e \<Rightarrow> Done (Inl e, p, no_effects)
      | Inr pair \<Rightarrow>
          if control repr = CtlSyn \<and> ack_number repr \<noteq> None
          then Done (Inl Dropped, p, no_effects)
          else and_then (create_syn A listening pair repr p) (\<lambda>(r, p1, eff).
            case r of
              Inl e \<Rightarrow> Done (Inl e, p1, eff)
            | Inr _ \<Rightarrow>
                and_then (expect SocketMissing (sp_sockets p1 pair)) (\<lambda>c.
                and_then (Connection_process W A D (timestamp (sp_clock p1) now) ip repr c (sp_queue p1))
                  (\<lambda>(reply, c', q, ws).
                    Done (reply,
                          p1\<lparr>sp_queue := q, sp_sockets := (sp_sockets p1)(pair \<mapsto> c')\<rparr>,
                          eff\<lparr>woken := ws\<rparr>)))))"

definition SocketPool_dispatch ::
    "wire_api \<Rightarrow> 's tcp_api \<Rightarrow> ('q, 'k) delay_api \<Rightarrow> instant \<Rightarrow> bytes \<Rightarrow> addr_pair \<Rightarrow>
     ('s, 'q, 'k) socket_pool \<Rightarrow> (bytes \<times> ('s, 'q, 'k) socket_pool \<times> effects) outcome" where
  "SocketPool_dispatch W A D now buf addr p =
     (if buf \<noteq> [] then Panicked BufferNotEmpty
      else and_then (expect DispatchAfterDrop (sp_sockets p addr)) (\<lambda>c.
        and_then (Connection_dispatch W A D buf (timestamp (sp_clock p) now) (sp_capabilities p) c (sp_queue p))
          (\<lambda>(drop, buf', c', q, ws).
            let p1 = p\<lparr>sp_queue := q, sp_sockets := (sp_sockets p)(addr \<mapsto> c')\<rparr>;
                eff = no_effects\<lparr>woken := ws\<rparr>
            in if drop
               then and_then (expect SocketNotRemoved (sp_sockets p1 addr)) (\<lambda>_.
                    and_then (DispatchQueue_remove D (sp_queue p1) addr) (\<lambda>q'.
                      Done (buf',
                            p1\<lparr>sp_sockets := (sp_sockets p1)(addr := None), sp_queue := q'\<rparr>, eff)))
               else Done (buf', p1, eff))))"

definition SocketPool_drop_tcp_half ::
    "'s tcp_api \<Rightarrow> ('q, 'k) delay_api \<Rightarrow> socket_handle \<Rightarrow> close \<Rightarrow> ('s, 'q, 'k) socket_pool \<Rightarrow>
     ('s, 'q, 'k) socket_pool outcome" where
  "SocketPool_drop_tcp_half A D h side p =
     and_then (expect DropAfterRemove (sp_sockets p h)) (\<lambda>c.
       and_then (Connection_drop_half A D side c (sp_queue p)) (\<lambda>(c', q).
         Done (p\<lparr>sp_queue := q, sp_sockets := (sp_sockets p)(h \<mapsto> c')\<rparr>)))"

section \<open>Creating a connection\<close>

lemma TcpStream_new_simps [simp]:
  "ts_addr (fst (TcpStream_new t h)) = h"
  "rh_shutdown_notifier (ts_reader (fst (TcpStream_new t h))) = \<lparr>hc_socket = h, hc_rw = CloseRead\<rparr>"
  "wh_shutdown_notifier (ts_writer (fst (TcpStream_new t h))) = \<lparr>hc_socket = h, hc_rw = CloseWrite\<rparr>"
  "wh_handle (ts_writer (fst (TcpStream_new t h))) = h"
  "Connection_handle (snd (TcpStream_new t h)) = h"
  "\<not> reader_dropped (rw (snd (TcpStream_new t h)))"
  "\<not> writer_dropped (rw (snd (TcpStream_new t h)))"
  "socket (snd (TcpStream_new t h)) = \<lparr>tcp = t, polling_active = False\<rparr>"
  by (simp_all add: TcpStream_new_def ReadHalf_new_def WriteHalf_new_def Connection_new_def
      Connection_handle_def CloseSender_build_def)

lemma offer_stream_new:
  "offer_stream listening (fst (TcpStream_new t h)) =
     Done (if listening then no_effects\<lparr>new_streams := [fst (TcpStream_new t h)]\<rparr>
           else no_effects\<lparr>close_msgs := [(h, CloseWrite), (h, CloseRead)]\<rparr>)"
  by (simp add: offer_stream_def TcpStream_drop_def WriteHalf_drop_def ReadHalf_drop_def
      HalfCloseSender_notify_def CloseSender_notify_def)

lemma create_syn_eq:
  "create_syn A listening pair repr p =
     Done (if sp_sockets p pair \<noteq> None then (Inr (), p, no_effects)
           else if control repr \<noteq> CtlSyn then (Inl Dropped, p, no_effects)
           else case open_socket A (local_side pair) of
                  Inl e \<Rightarrow> (Inl e, p, no_effects)
                | Inr t \<Rightarrow>
                    (Inr (), p\<lparr>sp_sockets := (sp_sockets p)(pair \<mapsto> snd (TcpStream_new t pair))\<rparr>,
                     if listening then no_effects\<lparr>new_streams := [fst (TcpStream_new t pair)]\<rparr>
                     else no_effects\<lparr>close_msgs := [(pair, CloseWrite), (pair, CloseRead)]\<rparr>))"
  by (auto simp: create_syn_def offer_stream_new case_prod_beta split: option.splits sum.splits)

section \<open>Processing, by cases\<close>

lemma SocketPool_process_eq:
  "SocketPool_process W A D listening now ip repr p =
     (case packet_pair W ip repr of
        Inl e \<Rightarrow> Done (Inl e, p, no_effects)
      | Inr pair \<Rightarrow>
          if control repr = CtlSyn \<and> ack_number repr \<noteq> None
          then Done (Inl Dropped, p, no_effects)
          else (case sp_sockets p pair of
            Some c \<Rightarrow>
              and_then (Connection_process W A D (timestamp (sp_clock p) now) ip repr c (sp_queue p))
                (\<lambda>(reply, c', q, ws).
                  Done (reply, p\<lparr>sp_queue := q, sp_sockets := (sp_sockets p)(pair \<mapsto> c')\<rparr>,
                        no_effects\<lparr>woken := ws\<rparr>))
          | None \<Rightarrow>
              if control repr \<noteq> CtlSyn then Done (Inl Dropped, p, no_effects)
              else (case open_socket A (local_side pair) of
                Inl e \<Rightarrow> Done (Inl e, p, no_effects)
              | Inr t \<Rightarrow>
                  and_then (Connection_process W A D (timestamp (sp_clock p) now) ip repr
                      (snd (TcpStream_new t pair)) (sp_queue p))
                    (\<lambda>(reply, c', q, ws).
                      Done (reply, p\<lparr>sp_queue := q, sp_sockets := (sp_sockets p)(pair \<mapsto> c')\<rparr>,
                            if listening
                            then no_effects\<lparr>new_streams := [fst (TcpStream_new t pair)], woken := ws\<rparr>
                            else no_effects\<lparr>close_msgs := [(pair, CloseWrite), (pair, CloseRead)],
                                            woken := ws\<rparr>)))))"
  unfolding SocketPool_process_def create_syn_eq
  by (cases "packet_pair W ip repr"; simp)
    (auto split: option.splits sum.splits cong: if_cong intro!: arg_cong2 [where f = and_then])

lemma SocketPool_process_cases:
  assumes "SocketPool_process W A D listening now ip repr p = Done (r, p', eff)"
  obtains (refused) e where "r = Inl e" "p' = p" "eff = no_effects"
  | (found) pair c c' q ws where "packet_pair W ip repr = Inr pair" "sp_sockets p pair = Some c"
      "Connection_process W A D (timestamp (sp_clock p) now) ip repr c (sp_queue p) = Done (r, c', q, ws)"
      "p' = p\<lparr>sp_queue := q, sp_sockets := (sp_sockets p)(pair \<mapsto> c')\<rparr>"
      "eff = no_effects\<lparr>woken := ws\<rparr>"
  | (created) pair t c' q ws where "packet_pair W ip repr = Inr pair" "sp_sockets p pair = None"
      "control repr = CtlSyn" "ack_number repr = None" "open_socket A (local_side pair) = Inr t"
      "Connection_process W A D (timestamp (sp_clock p) now) ip repr
         (snd (TcpStream_new t pair)) (sp_queue p) = Done (r, c', q, ws)"
      "p' = p\<lparr>sp_queue := q, sp_sockets := (sp_sockets p)(pair \<mapsto> c')\<rparr>"
      "eff = (if listening then no_effects\<lparr>new_streams := [fst (TcpStream_new t pair)], woken := ws\<rparr>
              else no_effects\<lparr>close_msgs := [(pair, CloseWrite), (pair, CloseRead)], woken := ws\<rparr>)"
proof -
  note eq = assms [unfolded SocketPool_process_eq]
  show thesis
  proof (cases "packet_pair W ip repr")
    case (Inl e)
    with eq show ?thesis by (intro refused) auto
  next
    case pair: (Inr pair)
    show ?thesis
    proof (cases "sp_sockets p pair")
      case (Some c)
      with eq pair show ?thesis
        by (auto split: if_splits intro: refused found [OF pair Some])
    next
      case None
      with eq pair show ?thesis
        by (auto split: if_splits sum.splits intro: refused created [OF pair None])
    qed
  qed
qed

lemma SocketPool_dispatch_cases:
  assumes "SocketPool_dispatch W A D now buf addr p = Done (buf', p', eff)"
  obtains (kept) c c' q ws where "buf = []" "sp_sockets p addr = Some c"
      "Connection_dispatch W A D [] (timestamp (sp_clock p) now) (sp_capabilities p) c (sp_queue p) =
         Done (False, buf', c', q, ws)"
      "p' = p\<lparr>sp_queue := q, sp_sockets := (sp_sockets p)(addr \<mapsto> c')\<rparr>"
      "eff = no_effects\<lparr>woken := ws\<rparr>"
  | (removed) c c' q q' ws where "buf = []" "sp_sockets p addr = Some c"
      "Connection_dispatch W A D [] (timestamp (sp_clock p) now) (sp_capabilities p) c (sp_queue p) =
         Done (True, buf', c', q, ws)"
      "DispatchQueue_remove D q addr = Done q'"
      "p' = p\<lparr>sp_queue := q', sp_sockets := (sp_sockets p)(addr := None)\<rparr>"
      "eff = no_effects\<lparr>woken := ws\<rparr>"
proof -
  from assms obtain c dr b c' q ws where c: "buf = []" "sp_sockets p addr = Some c"
    and call: "Connection_dispatch W A D [] (timestamp (sp_clock p) now) (sp_capabilities p) c (sp_queue p) =
         Done (dr, b, c', q, ws)"
    by (auto simp: SocketPool_dispatch_def split: if_splits)
  show thesis
  proof (cases dr)
    case True
    with assms c call show thesis
      by (auto simp: SocketPool_dispatch_def Let_def intro: removed)
  next
    case False
    with assms c call show thesis
      by (auto simp: SocketPool_dispatch_def Let_def intro: kept)
  qed
qed

lemma SocketPool_drop_cases:
  assumes "SocketPool_drop_tcp_half A D h side p = Done p'"
  obtains c c' q where "sp_sockets p h = Some c"
    "Connection_drop_half A D side c (sp_queue p) = Done (c', q)"
    "p' = p\<lparr>sp_queue := q, sp_sockets := (sp_sockets p)(h \<mapsto> c')\<rparr>"
  using assms by (auto simp: SocketPool_drop_tcp_half_def)

section \<open>The invariant of the pool\<close>

text \<open>
  A connection is kept under its own handle. A connection that is being polled, or whose two
  halves are gone, is scheduled, or it is the one (\<open>np\<close>) the loop took from the queue and is
  about to dispatch: otherwise its bytes would not be sent and it would never be removed.
\<close>

definition needs_poll :: "'s connection \<Rightarrow> bool" where
  "needs_poll c \<longleftrightarrow> polling_active (socket c) \<or> both_dropped (rw c)"

definition pool_inv ::
    "('q, 'k) entries \<Rightarrow> clock \<Rightarrow> addr_pair option \<Rightarrow> ('s, 'q, 'k) socket_pool \<Rightarrow> bool" where
  "pool_inv ent clk np p \<longleftrightarrow>
     queue_inv ent (sp_queue p) \<and> dq_clock (sp_queue p) = clk \<and> sp_clock p = clk
     \<and> (\<forall>h c. sp_sockets p h = Some c \<longrightarrow> Connection_handle c = h)
     \<and> (\<forall>h c. sp_sockets p h = Some c \<longrightarrow> needs_poll c \<longrightarrow>
          h \<in> dom (due ent (sp_queue p)) \<or> np = Some h)"

lemma pool_invD:
  assumes "pool_inv ent clk np p"
  shows "queue_inv ent (sp_queue p)" and "dq_clock (sp_queue p) = clk" and "sp_clock p = clk"
    and "sp_sockets p h = Some c \<Longrightarrow> Connection_handle c = h"
    and "sp_sockets p h = Some c \<Longrightarrow> needs_poll c \<Longrightarrow>
      h \<in> dom (due ent (sp_queue p)) \<or> np = Some h"
  using assms by (auto simp: pool_inv_def)

lemma pool_invI:
  assumes "queue_inv ent (sp_queue p)" and "dq_clock (sp_queue p) = clk" and "sp_clock p = clk"
    and "\<And>h c. sp_sockets p h = Some c \<Longrightarrow> Connection_handle c = h"
    and "\<And>h c. sp_sockets p h = Some c \<Longrightarrow> needs_poll c \<Longrightarrow>
      h \<in> dom (due ent (sp_queue p)) \<or> np = Some h"
  shows "pool_inv ent clk np p"
  unfolding pool_inv_def using assms by blast

text \<open>Replacing one connection, with a queue that touched only its deadline.\<close>

lemma pool_inv_update:
  assumes inv: "pool_inv ent clk np p" and q: "touches_only ent h (sp_queue p) q"
    and c: "Connection_handle c = h"
    and sched: "needs_poll c \<Longrightarrow> h \<in> dom (due ent q) \<or> np = Some h"
  shows "pool_inv ent clk np (p\<lparr>sp_queue := q, sp_sockets := (sp_sockets p)(h \<mapsto> c)\<rparr>)"
proof (rule pool_invI)
  fix h' c'
  assume "sp_sockets (p\<lparr>sp_queue := q, sp_sockets := (sp_sockets p)(h \<mapsto> c)\<rparr>) h' = Some c'"
  then consider "h' = h" "c' = c" | "h' \<noteq> h" "sp_sockets p h' = Some c'"
    by (auto split: if_splits)
  note cases = this
  from cases show "Connection_handle c' = h'"
    by cases (auto simp: c pool_invD(4) [OF inv])
  assume needs: "needs_poll c'"
  from cases show "h' \<in> dom (due ent (sp_queue (p\<lparr>sp_queue := q, sp_sockets := (sp_sockets p)(h \<mapsto> c)\<rparr>)))
      \<or> np = Some h'"
  proof cases
    case 1
    with sched needs show ?thesis by simp
  next
    case 2
    with pool_invD(5) [OF inv 2(2) needs] q show ?thesis
      by (auto simp: touches_only_def)
  qed
qed (use q pool_invD [OF inv] in \<open>simp_all add: touches_only_def\<close>)

text \<open>The exception ends when its connection is gone or scheduled again.\<close>

lemma pool_inv_handled:
  assumes inv: "pool_inv ent clk (Some h) p"
    and "\<And>c. sp_sockets p h = Some c \<Longrightarrow> needs_poll c \<Longrightarrow> h \<in> dom (due ent (sp_queue p))"
  shows "pool_inv ent clk None p"
proof (rule pool_invI)
  fix h' c
  assume c: "sp_sockets p h' = Some c" "needs_poll c"
  show "h' \<in> dom (due ent (sp_queue p)) \<or> None = Some h'"
    using pool_invD(5) [OF inv c] assms(2) c by blast
qed (use pool_invD [OF inv] in auto)

lemma needs_poll_same:
  assumes "same_status (rw c) (rw c')" and "polling_active (socket c') = polling_active (socket c)"
  shows "needs_poll c' = needs_poll c"
  using assms same_status_both by (auto simp: needs_poll_def)

text \<open>
  The libraries a pool runs on: a timer queue, packet printers, and a socket whose polling times the
  clock and the timer can represent. A state of type \<open>'s\<close> is any state the socket can be in.
\<close>

locale net_stack = delay_queue D ent in_range + packet_emitters W
  for D :: "('q, 'k) delay_api" and ent :: "('q, 'k) entries" and in_range :: "instant \<Rightarrow> bool"
    and W :: wire_api +
  fixes A :: "'s tcp_api" and clk :: clock
  assumes origin_in_range: "in_range (origin clk)"
    and poll_times: "representable in_range clk (sk_poll_at A t)"
begin

lemma pool_new: "pool_inv ent clk np (SocketPool_new caps (DispatchQueue_new D clk) clk)"
  by (simp add: pool_inv_def SocketPool_new_def queue_new) (simp add: DispatchQueue_new_def)

lemma conn_process_scheduled:
  assumes inv: "queue_inv ent q"
    and call: "Connection_process W A D ts ip repr c q = Done (reply, c', q', ws)"
    and sched: "needs_poll c \<Longrightarrow> Connection_handle c \<in> dom (due ent q) \<or> np = Some (Connection_handle c)"
    and "needs_poll c'"
  shows "Connection_handle c \<in> dom (due ent q') \<or> np = Some (Connection_handle c)"
proof -
  have "needs_poll c"
    using assms(4) needs_poll_same Connection_process_handle [OF call] by blast
  with sched process_queue(1) [OF inv call] show ?thesis
    by (auto simp: touches_only_def)
qed

lemma process_pool_inv:
  assumes inv: "pool_inv ent clk np p"
    and call: "SocketPool_process W A D listening now ip repr p = Done (r, p', eff)"
  shows "pool_inv ent clk np p'"
  using call
proof (cases rule: SocketPool_process_cases)
  case (refused e)
  with inv show ?thesis by simp
next
  case (found pair c c' q ws)
  note I = pool_invD [OF inv]
  have h: "Connection_handle c = pair" "Connection_handle c' = pair"
    using I(4) found Connection_process_handle [OF found(3)] by auto
  have "touches_only ent pair (sp_queue p) q"
    using process_queue(1) [OF I(1) found(3)] h by simp
  moreover have "needs_poll c' \<Longrightarrow> pair \<in> dom (due ent q) \<or> np = Some pair"
    using conn_process_scheduled [OF I(1) found(3)] I(5) found(2) h by auto
  ultimately show ?thesis
    unfolding found(4) using inv h(2) by (intro pool_inv_update)
next
  case (created pair t c' q ws)
  note I = pool_invD [OF inv]
  have h: "Connection_handle c' = pair"
    using Connection_process_handle [OF created(6)] by simp
  have "touches_only ent pair (sp_queue p) q"
    using process_queue(1) [OF I(1) created(6)] by simp
  moreover have "\<not> needs_poll c'"
    using needs_poll_same Connection_process_handle [OF created(6)]
    by (auto simp: needs_poll_def both_dropped_def same_status_def)
  ultimately show ?thesis
    unfolding created(7) using inv h by (intro pool_inv_update) auto
qed

lemma dispatch_pool_inv:
  assumes inv: "pool_inv ent clk (Some h) p"
    and call: "SocketPool_dispatch W A D now buf h p = Done (buf', p', eff)"
  shows "pool_inv ent clk None p'"
proof -
  note I = pool_invD [OF inv]
  from call show ?thesis
  proof (cases rule: SocketPool_dispatch_cases)
    case (kept c c' q ws)
    have h: "Connection_handle c = h" "Connection_handle c' = h"
      using I(4) kept Connection_dispatch_handle [OF kept(3)] by auto
    have t: "touches_only ent h (sp_queue p) q"
      using dispatch_queue_kept(1) [OF I(1) kept(3)] h by simp
    have dom: "needs_poll c' \<Longrightarrow> h \<in> dom (due ent q)"
      using dispatch_queue_kept(2) [OF I(1) kept(3)] h
        same_status_both [OF Connection_dispatch_handle(2) [OF kept(3)]]
      by (auto simp: needs_poll_def)
    have "pool_inv ent clk (Some h) p'"
      unfolding kept(4) using inv t h(2) by (rule pool_inv_update) (use dom in auto)
    then show ?thesis
      by (rule pool_inv_handled) (use kept(4) dom in auto)
  next
    case (removed c c' q q' ws)
    have h: "Connection_handle c = h"
      using I(4) removed by auto
    have t: "touches_only ent h (sp_queue p) q"
      using dispatch_queue_kept(1) [OF I(1) removed(3)] h by simp
    then obtain q'' where "DispatchQueue_remove D q h = Done q''" "queue_inv ent q''"
      "due ent q'' = (due ent q)(h := None)" "dq_clock q'' = dq_clock q"
      using DispatchQueue_remove_spec [of q h] by (auto simp: touches_only_def)
    with removed(4,5) t inv show ?thesis
      by (fastforce simp: pool_inv_def touches_only_def)
  qed
qed

lemma drop_pool_inv:
  assumes inv: "pool_inv ent clk np p"
    and call: "SocketPool_drop_tcp_half A D h side p = Done p'"
  shows "pool_inv ent clk np p'"
proof -
  note I = pool_invD [OF inv]
  from call obtain c c' q where c: "sp_sockets p h = Some c"
    and d: "Connection_drop_half A D side c (sp_queue p) = Done (c', q)"
    and p': "p' = p\<lparr>sp_queue := q, sp_sockets := (sp_sockets p)(h \<mapsto> c')\<rparr>"
    by (rule SocketPool_drop_cases)
  have h: "Connection_handle c = h" "Connection_handle c' = h"
    using I(4) [OF c] Connection_drop_half_handle [OF d] by auto
  have t: "touches_only ent h (sp_queue p) q"
    using drop_half_queue(1) [OF I(1) d] h by simp
  have "needs_poll c' \<Longrightarrow> h \<in> dom (due ent q) \<or> np = Some h"
    using drop_half_queue(2) [OF I(1) d] Connection_drop_half_handle(3) [OF d] I(5) [OF c] h t
    by (auto simp: needs_poll_def touches_only_def dest: subsetD)
  then show ?thesis
    unfolding p' using inv t h(2) by (intro pool_inv_update)
qed

text \<open>A timer that expires moves the exception to its connection.\<close>

lemma expire_pool_inv:
  assumes inv: "pool_inv ent clk None p"
    and call: "DispatchQueue_poll D now (sp_queue p) = Done (r, q)"
  shows "pool_inv ent clk (case r of Ready h \<Rightarrow> Some h | Pending \<Rightarrow> None) (p\<lparr>sp_queue := q\<rparr>)"
  using DispatchQueue_poll_spec [of "sp_queue p" now] call pool_invD [OF inv]
  by (auto simp: pool_inv_def split: poll.splits)

text \<open>An update of a polling time keeps the invariant, whatever connection it names.\<close>

lemma update_pool_inv:
  assumes inv: "pool_inv ent clk np p"
    and call: "DispatchQueue_send D (sp_queue p) h t = Done q"
  shows "pool_inv ent clk np (p\<lparr>sp_queue := q\<rparr>)"
  using send_touches_only [OF pool_invD(1) [OF inv] call] inv
  by (fastforce simp: pool_inv_def touches_only_def)

text \<open>Under the invariant the operations of the pool do not panic.\<close>

lemma conn_no_panic_facts:
  assumes "pool_inv ent clk np p"
  shows "queue_inv ent (sp_queue p)" and "representable in_range (dq_clock (sp_queue p)) (sk_poll_at A t)"
    and "in_range (origin (dq_clock (sp_queue p)))"
  using pool_invD [OF assms] poll_times origin_in_range by simp_all

lemma process_pool_no_panic:
  assumes "pool_inv ent clk np p"
  shows "no_panic (SocketPool_process W A D listening now ip repr p)"
  using process_no_panic [OF conn_no_panic_facts [OF assms]]
  by (auto simp: SocketPool_process_eq no_panic_iff and_then_Done_iff split: sum.splits option.splits)

lemma run_dispatch_no_panic:
  "no_panic (run_dispatch d (\<lambda>p b. packet_to_bytes W (PacketTcp p) b caps) [])"
proof (cases d)
  case (Emit p k)
  obtain r b where "packet_to_bytes W (PacketTcp p) [] caps = Done (r, b)"
    using packet_to_bytes_no_panic by (metis no_panic_iff prod.exhaust)
  with Emit show ?thesis by (simp split: prod.split)
qed simp

lemma conn_dispatch_no_panic:
  assumes "pool_inv ent clk np p"
  shows "no_panic (Connection_dispatch W A D [] ts caps c (sp_queue p))"
proof -
  have send: "\<exists>q. DispatchQueue_send D (sp_queue p) h (sk_poll_at A t) = Done q" for h t
    using conn_no_panic_facts [OF assms] DispatchQueue_send_no_panic no_panic_iff by blast
  obtain r t b where run: "run_dispatch (sk_dispatch A (tcp (socket c)) ts caps)
       (\<lambda>p b. packet_to_bytes W (PacketTcp p) b (checksum caps)) [] = Done (r, t, b)"
    using run_dispatch_no_panic by (metis no_panic_iff prod.exhaust)
  show ?thesis
    using send [of "Connection_handle c" t] run
    by (auto simp: Connection_dispatch_def Let_def split: prod.split)
qed

lemma dispatch_pool_no_panic:
  assumes inv: "pool_inv ent clk np p" and pooled: "h \<in> dom (sp_sockets p)"
  shows "no_panic (SocketPool_dispatch W A D now [] h p)"
proof -
  obtain c where c: "sp_sockets p h = Some c"
    using pooled by auto
  obtain dr buf c' q ws where call:
    "Connection_dispatch W A D [] (timestamp (sp_clock p) now) (sp_capabilities p) c (sp_queue p) =
       Done (dr, buf, c', q, ws)"
    using conn_dispatch_no_panic [OF inv, of _ _ c] by (metis no_panic_iff prod.exhaust)
  have "queue_inv ent q"
    using dispatch_queue_kept(1) [OF pool_invD(1) [OF inv] call] by (simp add: touches_only_def)
  then obtain q' where "DispatchQueue_remove D q h = Done q'"
    using DispatchQueue_remove_spec by blast
  with c call show ?thesis
    by (simp add: SocketPool_dispatch_def Let_def)
qed

lemma drop_pool_no_panic:
  assumes inv: "pool_inv ent clk np p" and "h \<in> dom (sp_sockets p)"
  shows "no_panic (SocketPool_drop_tcp_half A D h side p)"
proof -
  obtain c where "sp_sockets p h = Some c"
    using assms(2) by auto
  then show ?thesis
    using drop_half_no_panic [OF conn_no_panic_facts [OF inv], of side c]
    by (auto simp: SocketPool_drop_tcp_half_def no_panic_iff)
qed

end

section \<open>Accounting for the halves\<close>

text \<open>
  A half of a pooled connection is open until the loop has handled the message that it was dropped.
\<close>

fun dropped_side :: "close \<Rightarrow> rw_status \<Rightarrow> bool" where
  "dropped_side CloseRead r = reader_dropped r"
| "dropped_side CloseWrite r = writer_dropped r"

definition open_half :: "(addr_pair \<rightharpoonup> 's connection) \<Rightarrow> close_msg \<Rightarrow> bool" where
  "open_half m x \<longleftrightarrow> (\<exists>c. m (fst x) = Some c \<and> \<not> dropped_side (snd x) (rw c))"

definition named_stream :: "tcp_stream \<Rightarrow> bool" where
  "named_stream s \<longleftrightarrow>
     rh_shutdown_notifier (ts_reader s) = CloseSender_build (ts_addr s) CloseRead
     \<and> wh_shutdown_notifier (ts_writer s) = CloseSender_build (ts_addr s) CloseWrite
     \<and> wh_handle (ts_writer s) = ts_addr s"

lemma named_stream_new: "named_stream (fst (TcpStream_new t h))"
  by (simp add: named_stream_def CloseSender_build_def)

lemma dropped_side_simps [simp]:
  "dropped_side side (mark_dropped side' r) \<longleftrightarrow> side = side' \<or> dropped_side side r"
  "\<not> dropped_side side (rw (snd (TcpStream_new t h)))"
  by (cases side; cases side'; simp)+

lemma same_status_side: "same_status r r' \<Longrightarrow> dropped_side side r' = dropped_side side r"
  by (cases side) (auto simp: same_status_def)

lemma both_dropped_side: "both_dropped r \<longleftrightarrow> (\<forall>side. dropped_side side r)"
  by (metis both_dropped_def close.exhaust dropped_side.simps)

text \<open>
  What processing does to the pool: nothing, or one connection is replaced and keeps its status,
  or one is new, and then its stream, or the two messages of the dropped stream, are the effects.
\<close>

lemma process_change:
  assumes "SocketPool_process W A D listening now ip repr p = Done (r, p', eff)"
  obtains (refused) "p' = p" "eff = no_effects"
  | (replaced) pair c c' q where "packet_pair W ip repr = Inr pair" "sp_sockets p pair = Some c"
      "same_status (rw c) (rw c')" "p' = p\<lparr>sp_queue := q, sp_sockets := (sp_sockets p)(pair \<mapsto> c')\<rparr>"
      "new_streams eff = []" "close_msgs eff = []"
  | (created) pair t c' q where "packet_pair W ip repr = Inr pair" "sp_sockets p pair = None"
      "control repr = CtlSyn" "ack_number repr = None" "open_socket A (local_side pair) = Inr t"
      "\<And>side. \<not> dropped_side side (rw c')" "p' = p\<lparr>sp_queue := q, sp_sockets := (sp_sockets p)(pair \<mapsto> c')\<rparr>"
      "new_streams eff = (if listening then [fst (TcpStream_new t pair)] else [])"
      "close_msgs eff = (if listening then [] else [(pair, CloseWrite), (pair, CloseRead)])"
  using assms
proof (cases rule: SocketPool_process_cases)
  case (refused e)
  with that(1) show ?thesis by blast
next
  case (found pair c c' q ws)
  with Connection_process_handle(2) [OF found(3)] that(2) show ?thesis
    by (simp add: no_effects_def)
next
  case (created pair t c' q ws)
  with same_status_side [OF Connection_process_handle(2) [OF created(6)]] show ?thesis
    by (intro that(3) [of pair t c' q]) (auto simp: no_effects_def)
qed

lemma process_open_half:
  assumes "SocketPool_process W A D listening now ip repr p = Done (r, p', eff)"
  shows "open_half (sp_sockets p') x \<longleftrightarrow>
      open_half (sp_sockets p) x \<or> fst x \<in> ts_addr ` set (new_streams eff) \<or> x \<in> set (close_msgs eff)"
  using assms
proof (cases rule: process_change)
  case refused
  then show ?thesis by (simp add: no_effects_def)
next
  case (replaced pair c c' q)
  with same_status_side [OF replaced(3)] show ?thesis
    by (auto simp: open_half_def)
next
  case (created pair t c' q)
  have x: "x = (pair, CloseRead) \<or> x = (pair, CloseWrite) \<longleftrightarrow> fst x = pair"
    by (cases x; cases "snd x") auto
  with created show ?thesis
    by (auto simp: open_half_def)
qed

lemma process_effects:
  assumes "SocketPool_process W A D listening now ip repr p = Done (r, p', eff)"
  shows "\<forall>s \<in> set (new_streams eff). named_stream s \<and> sp_sockets p (ts_addr s) = None
      \<and> close_msgs eff = []"
    and "\<forall>m \<in> set (close_msgs eff). sp_sockets p (fst m) = None"
    and "distinct (close_msgs eff)"
  using assms
  by (cases rule: process_change; simp add: no_effects_def named_stream_new)+

lemma dispatch_open_half:
  assumes "SocketPool_dispatch W A D now buf h p = Done (buf', p', eff)"
  shows "open_half (sp_sockets p') x \<longleftrightarrow> open_half (sp_sockets p) x"
    and "new_streams eff = []" and "close_msgs eff = []"
proof -
  show "open_half (sp_sockets p') x \<longleftrightarrow> open_half (sp_sockets p) x"
    using assms
  proof (cases rule: SocketPool_dispatch_cases)
    case (kept c c' q ws)
    with same_status_side [OF Connection_dispatch_handle(2) [OF kept(3)]] show ?thesis
      by (auto simp: open_half_def)
  next
    case (removed c c' q q' ws)
    have "both_dropped (rw c)"
      using removed(3) by (rule Connection_dispatch_cases) blast
    with removed show ?thesis
      by (auto simp: open_half_def both_dropped_side)
  qed
  show "new_streams eff = []" "close_msgs eff = []"
    using assms by (cases rule: SocketPool_dispatch_cases; simp add: no_effects_def)+
qed

lemma drop_open_half:
  assumes "SocketPool_drop_tcp_half A D h side p = Done p'"
  shows "open_half (sp_sockets p') x \<longleftrightarrow> open_half (sp_sockets p) x \<and> x \<noteq> (h, side)"
proof -
  from assms obtain c c' q where "sp_sockets p h = Some c"
    and d: "Connection_drop_half A D side c (sp_queue p) = Done (c', q)"
    and "p' = p\<lparr>sp_queue := q, sp_sockets := (sp_sockets p)(h \<mapsto> c')\<rparr>"
    by (rule SocketPool_drop_cases)
  with Connection_drop_half_handle(2) [OF d] show ?thesis
    by (cases x) (auto simp: open_half_def)
qed

text \<open>Which connections are scheduled: only pooled ones, and the one being dispatched.\<close>

definition fresh_pool :: "('q, 'k) entries \<Rightarrow> addr_pair option \<Rightarrow> ('s, 'q, 'k) socket_pool \<Rightarrow> bool" where
  "fresh_pool ent np p \<longleftrightarrow> dom (due ent (sp_queue p)) \<union> set_option np \<subseteq> dom (sp_sockets p)"

lemma fresh_pool_touches:
  assumes "fresh_pool ent np p" and "touches_only ent h (sp_queue p) (sp_queue p')"
    and "dom (sp_sockets p') = insert h (dom (sp_sockets p))"
  shows "fresh_pool ent np p'"
  using assms unfolding fresh_pool_def touches_only_def by blast

context net_stack
begin

lemma process_touches:
  assumes inv: "pool_inv ent clk np p"
    and call: "SocketPool_process W A D listening now ip repr p = Done (r, p', eff)"
  shows "(p' = p \<and> eff = no_effects) \<or> (\<exists>pair. packet_pair W ip repr = Inr pair \<and>
     touches_only ent pair (sp_queue p) (sp_queue p') \<and> (\<exists>c'. sp_sockets p' = (sp_sockets p)(pair \<mapsto> c')))"
  using call
proof (cases rule: SocketPool_process_cases)
  case (found pair c c' q ws)
  then have "Connection_handle c = pair"
    using pool_invD(4) [OF inv] by blast
  with process_queue(1) [OF pool_invD(1) [OF inv] found(3)] found show ?thesis
    by auto
next
  case (created pair t c' q ws)
  with process_queue(1) [OF pool_invD(1) [OF inv] created(6)] show ?thesis
    by auto
qed simp

lemma process_fresh:
  assumes inv: "pool_inv ent clk np p" and fresh: "fresh_pool ent np p"
    and call: "SocketPool_process W A D listening now ip repr p = Done (r, p', eff)"
  shows "fresh_pool ent np p'"
  using process_touches [OF inv call] fresh by (auto intro: fresh_pool_touches [OF fresh])

lemma dispatch_touches:
  assumes inv: "pool_inv ent clk np p"
    and call: "SocketPool_dispatch W A D now buf h p = Done (buf', p', eff)"
  shows "(\<forall>h'. h' \<noteq> h \<longrightarrow> sp_sockets p' h' = sp_sockets p h'
      \<and> due ent (sp_queue p') h' = due ent (sp_queue p) h')
    \<and> (h \<in> dom (due ent (sp_queue p')) \<longrightarrow> h \<in> dom (sp_sockets p'))"
  using call
proof (cases rule: SocketPool_dispatch_cases)
  case (kept c c' q ws)
  then have "Connection_handle c = h"
    using pool_invD(4) [OF inv] by blast
  with dispatch_queue_kept(1) [OF pool_invD(1) [OF inv] kept(3)] kept show ?thesis
    by (auto simp: touches_only_def)
next
  case (removed c c' q q' ws)
  then have h: "Connection_handle c = h"
    using pool_invD(4) [OF inv] by blast
  have t: "touches_only ent h (sp_queue p) q"
    using dispatch_queue_kept(1) [OF pool_invD(1) [OF inv] removed(3)] h by simp
  then have "due ent q' = (due ent q)(h := None)"
    using DispatchQueue_remove_spec [of q h] removed(4) by (auto simp: touches_only_def)
  with t removed show ?thesis
    by (auto simp: touches_only_def)
qed

lemma dispatch_fresh:
  assumes inv: "pool_inv ent clk (Some h) p" and fresh: "fresh_pool ent (Some h) p"
    and call: "SocketPool_dispatch W A D now buf h p = Done (buf', p', eff)"
  shows "fresh_pool ent None p'"
  unfolding fresh_pool_def
proof
  fix x
  assume "x \<in> dom (due ent (sp_queue p')) \<union> set_option None"
  then show "x \<in> dom (sp_sockets p')"
    using dispatch_touches [OF inv call] fresh
    by (cases "x = h") (force simp: fresh_pool_def)+
qed

lemma drop_fresh:
  assumes inv: "pool_inv ent clk np p" and fresh: "fresh_pool ent np p"
    and call: "SocketPool_drop_tcp_half A D h side p = Done p'"
  shows "fresh_pool ent np p'"
proof -
  from call obtain c c' q where c: "sp_sockets p h = Some c"
    and d: "Connection_drop_half A D side c (sp_queue p) = Done (c', q)"
    and p': "p' = p\<lparr>sp_queue := q, sp_sockets := (sp_sockets p)(h \<mapsto> c')\<rparr>"
    by (rule SocketPool_drop_cases)
  have "touches_only ent h (sp_queue p) q"
    using drop_half_queue(1) [OF pool_invD(1) [OF inv] d] pool_invD(4) [OF inv c] by simp
  with fresh p' c show ?thesis
    by (intro fresh_pool_touches [OF fresh]) auto
qed

lemma expire_fresh:
  assumes inv: "pool_inv ent clk None p" and fresh: "fresh_pool ent None p"
    and call: "DispatchQueue_poll D now (sp_queue p) = Done (r, q)"
  shows "fresh_pool ent (case r of Ready h \<Rightarrow> Some h | Pending \<Rightarrow> None) (p\<lparr>sp_queue := q\<rparr>)"
  using DispatchQueue_poll_spec [of "sp_queue p" now] call pool_invD(1) [OF inv] fresh
  by (auto simp: fresh_pool_def split: poll.splits)

lemma update_fresh:
  assumes inv: "pool_inv ent clk np p" and fresh: "fresh_pool ent np p"
    and call: "DispatchQueue_send D (sp_queue p) h t = Done q" and "h \<in> dom (sp_sockets p)"
  shows "fresh_pool ent np (p\<lparr>sp_queue := q\<rparr>)"
  using fresh by (rule fresh_pool_touches)
    (use send_touches_only [OF pool_invD(1) [OF inv] call] assms(4) in auto)

end

section \<open>The laws hold for the sample libraries\<close>

interpretation sample_net: net_stack slab_api map_of "\<lambda>_. True" sample_wire sample_tcp "Clock_new 0"
  by unfold_locales (auto simp: sample_poll_times)

section \<open>Properties of the pool\<close>

abbreviation sample_caps :: device_capabilities where
  "sample_caps \<equiv> \<lparr>max_transmission_unit = 1500, checksum = []\<rparr>"

abbreviation sample_pool :: "(sock, slab, nat) socket_pool" where
  "sample_pool \<equiv> SocketPool_new sample_caps (DispatchQueue_new slab_api (Clock_new 0)) (Clock_new 0)"

abbreviation syn_tcp :: tcp_repr where
  "syn_tcp \<equiv> \<lparr>src_port = 5, dst_port = 80, control = CtlSyn, ack_number = None, tcp_rest = []\<rparr>"

lemma sample_pair: "packet_pair sample_wire flow_ip syn_tcp = Inr sample_handle"
  by (simp add: packet_pair_def)

lemma sample_process_done:
  obtains r p' eff where
    "SocketPool_process sample_wire sample_tcp slab_api True 3 flow_ip syn_tcp sample_pool = Done (r, p', eff)"
  using sample_net.process_pool_no_panic [OF sample_net.pool_new, of True 3 flow_ip syn_tcp sample_caps]
  by (metis no_panic_iff prod.exhaust)

text \<open>
  (C19) The operations of the pool keep its invariant: every connection is stored under its own
  handle, the queue's keys and timers agree, and a connection that is being polled or whose halves
  are both gone is scheduled, but for the one the loop is about to dispatch; and dispatching that
  one settles it.
\<close>

theorem pool_invariant_kept:
  assumes "net_stack D ent in_range W A clk" and "pool_inv ent clk np p"
  shows "(SocketPool_process W A D listening now ip repr p = Done (r, p1, eff) \<longrightarrow> pool_inv ent clk np p1)
    \<and> (np = Some h \<and> SocketPool_dispatch W A D now buf h p = Done (buf', p2, eff) \<longrightarrow> pool_inv ent clk None p2)
    \<and> (SocketPool_drop_tcp_half A D h side p = Done p3 \<longrightarrow> pool_inv ent clk np p3)"
  using net_stack.process_pool_inv [OF assms, of listening now ip repr r p1 eff]
    net_stack.drop_pool_inv [OF assms, of h side p3] assms(2)
    net_stack.dispatch_pool_inv [OF assms(1), of h p now buf buf' p2 eff]
  by auto

theorem pool_invariant_kept_witness:
  "\<exists>r p' eff. SocketPool_process sample_wire sample_tcp slab_api True 3 flow_ip syn_tcp sample_pool = Done (r, p', eff)
     \<and> pool_inv map_of (Clock_new 0) None p'"
proof -
  obtain r p' eff where
    "SocketPool_process sample_wire sample_tcp slab_api True 3 flow_ip syn_tcp sample_pool = Done (r, p', eff)"
    by (rule sample_process_done)
  with pool_invariant_kept [OF sample_net.net_stack_axioms sample_net.pool_new] show ?thesis by blast
qed

text \<open>
  Under the invariant processing a packet never panics, and neither does dispatching a pooled
  connection into an empty buffer or dropping a half of one.
\<close>

theorem pool_operations_total:
  assumes "net_stack D ent in_range W A clk" and "pool_inv ent clk np p"
  shows "no_panic (SocketPool_process W A D listening now ip repr p)
    \<and> (h \<in> dom (sp_sockets p) \<longrightarrow> no_panic (SocketPool_dispatch W A D now [] h p)
        \<and> no_panic (SocketPool_drop_tcp_half A D h side p))"
  using net_stack.process_pool_no_panic [OF assms] net_stack.dispatch_pool_no_panic [OF assms]
    net_stack.drop_pool_no_panic [OF assms]
  by blast

theorem pool_operations_total_witness:
  "no_panic (SocketPool_process sample_wire sample_tcp slab_api False 3 flow_ip flow_tcp sample_pool)"
  using pool_operations_total [OF sample_net.net_stack_axioms sample_net.pool_new] by blast

text \<open>
  (C20) Isolation: a packet touches the connection of its own pair of addresses only. Every other
  connection and every other deadline is as before, and a packet without a pair changes nothing.
\<close>

theorem process_isolated:
  assumes "net_stack D ent in_range W A clk" and "pool_inv ent clk np p"
    and "SocketPool_process W A D listening now ip repr p = Done (r, p', eff)"
    and "packet_pair W ip repr \<noteq> Inr h"
  shows "sp_sockets p' h = sp_sockets p h \<and> due ent (sp_queue p') h = due ent (sp_queue p) h"
  using net_stack.process_touches [OF assms(1-3)] assms(4) by (auto simp: touches_only_def)

theorem process_isolated_witness:
  "\<exists>r p' eff. SocketPool_process sample_wire sample_tcp slab_api True 3 flow_ip syn_tcp sample_pool = Done (r, p', eff)
     \<and> sp_sockets p' (sample_handle\<lparr>peer := SockV4 (10, 0, 0, 1) 6\<rparr>) = None"
proof -
  obtain r p' eff where
    call: "SocketPool_process sample_wire sample_tcp slab_api True 3 flow_ip syn_tcp sample_pool = Done (r, p', eff)"
    by (rule sample_process_done)
  with process_isolated [OF sample_net.net_stack_axioms sample_net.pool_new call,
      of "sample_handle\<lparr>peer := SockV4 (10, 0, 0, 1) 6\<rparr>"] show ?thesis
    by (auto simp: sample_pair SocketPool_new_def)
qed

text \<open>
  (C23) Only a SYN without ACK creates a connection. Its stream is then offered to the listener,
  with the pair as its address; when the listener is gone, the stream is dropped and both
  halves report that.
\<close>

theorem only_syn_creates:
  assumes "SocketPool_process W A D listening now ip repr p = Done (r, p', eff)"
    and "h \<notin> dom (sp_sockets p)" and "h \<in> dom (sp_sockets p')"
  shows "packet_pair W ip repr = Inr h \<and> control repr = CtlSyn \<and> ack_number repr = None
    \<and> (\<exists>t. open_socket A (local_side h) = Inr t
        \<and> new_streams eff = (if listening then [fst (TcpStream_new t h)] else [])
        \<and> close_msgs eff = (if listening then [] else [(h, CloseWrite), (h, CloseRead)]))"
  using assms(1) by (cases rule: process_change) (use assms(2,3) in \<open>auto split: if_splits\<close>)

text \<open>
  (C22) A SYN for an unknown pair does create the connection when the socket can be opened at the
  local address: processing succeeds, the pair is pooled and the listener gets its stream.
\<close>

theorem syn_opens_connection:
  assumes "net_stack D ent in_range W A clk" and "pool_inv ent clk np p"
    and "packet_pair W ip repr = Inr h" and "h \<notin> dom (sp_sockets p)"
    and "control repr = CtlSyn" and "ack_number repr = None" and "open_socket A (local_side h) = Inr t"
  shows "\<exists>r p' eff. SocketPool_process W A D True now ip repr p = Done (r, p', eff)
    \<and> h \<in> dom (sp_sockets p') \<and> new_streams eff = [fst (TcpStream_new t h)]"
proof -
  obtain r p' eff where call: "SocketPool_process W A D True now ip repr p = Done (r, p', eff)"
    using net_stack.process_pool_no_panic [OF assms(1,2)] by (metis no_panic_iff prod.exhaust)
  with assms(3-7) show ?thesis
    by (auto simp: SocketPool_process_eq domIff no_effects_def)
qed

theorem syn_opens_connection_witness:
  "\<exists>r p' eff. SocketPool_process sample_wire sample_tcp slab_api True 3 flow_ip syn_tcp sample_pool = Done (r, p', eff)
     \<and> sample_handle \<in> dom (sp_sockets p')"
proof -
  have "\<exists>t. open_socket sample_tcp (local_side sample_handle) = Inr t"
    by (simp add: open_socket_def create_tcp_socket_def sample_tcp_def so_open_def)
  then obtain t where "open_socket sample_tcp (local_side sample_handle) = Inr t" by blast
  with syn_opens_connection [OF sample_net.net_stack_axioms sample_net.pool_new sample_pair, of sample_caps t 3]
  show ?thesis
    by (auto simp: SocketPool_new_def)
qed

theorem only_syn_creates_witness:
  "\<exists>r p' eff. SocketPool_process sample_wire sample_tcp slab_api True 3 flow_ip syn_tcp sample_pool = Done (r, p', eff)
     \<and> length (new_streams eff) = 1"
proof -
  have "\<exists>t. open_socket sample_tcp (local_side sample_handle) = Inr t"
    by (simp add: open_socket_def create_tcp_socket_def sample_tcp_def so_open_def)
  moreover obtain r p' eff where
    call: "SocketPool_process sample_wire sample_tcp slab_api True 3 flow_ip syn_tcp sample_pool = Done (r, p', eff)"
    by (rule sample_process_done)
  ultimately have "sample_handle \<in> dom (sp_sockets p')"
    by (auto simp: SocketPool_process_eq sample_pair SocketPool_new_def)
  with only_syn_creates [OF call, of sample_handle] call show ?thesis
    by (auto simp: SocketPool_new_def)
qed

text \<open>
  A segment that carries SYN and ACK, and a segment without SYN for an unknown pair, is
  refused with \<open>Dropped\<close>: no reply, no new connection, nothing scheduled.
\<close>

theorem stray_segments_dropped:
  assumes "packet_pair W ip repr = Inr h"
    and "control repr = CtlSyn \<and> ack_number repr \<noteq> None \<or> control repr \<noteq> CtlSyn \<and> h \<notin> dom (sp_sockets p)"
  shows "SocketPool_process W A D listening now ip repr p = Done (Inl Dropped, p, no_effects)"
  using assms by (auto simp: SocketPool_process_eq domIff split: option.split)

theorem stray_segments_dropped_witness:
  "SocketPool_process sample_wire sample_tcp slab_api True 3 flow_ip flow_tcp sample_pool =
     Done (Inl Dropped, sample_pool, no_effects)"
  by (rule stray_segments_dropped [of _ _ _ sample_handle])
    (simp_all add: packet_pair_def SocketPool_new_def)

text \<open>
  (C21) Dispatching removes a pooled connection exactly when both its halves are gone and its socket
  is finished; then its timer is gone too. Other connections and deadlines are untouched.
\<close>

theorem dispatch_removes_finished:
  assumes "net_stack D ent in_range W A clk" and "pool_inv ent clk np p"
    and "SocketPool_dispatch W A D now buf h p = Done (buf', p', eff)" and "sp_sockets p h = Some c"
  shows "(h \<notin> dom (sp_sockets p') \<longleftrightarrow> both_dropped (rw c) \<and>
      (\<exists>r t. run_dispatch (sk_dispatch A (tcp (socket c)) (timestamp clk now) (sp_capabilities p))
         (\<lambda>x b. packet_to_bytes W (PacketTcp x) b (checksum (sp_capabilities p))) [] = Done (r, t, buf')
         \<and> finished W A r t))
    \<and> (h \<notin> dom (sp_sockets p') \<longrightarrow> h \<notin> dom (due ent (sp_queue p')))
    \<and> (\<forall>h'. h' \<noteq> h \<longrightarrow> sp_sockets p' h' = sp_sockets p h'
        \<and> due ent (sp_queue p') h' = due ent (sp_queue p) h')"
proof -
  have clk: "sp_clock p = clk"
    using assms(2) by (rule pool_invD)
  have "h \<notin> dom (sp_sockets p') \<longleftrightarrow> both_dropped (rw c) \<and>
      (\<exists>r t. run_dispatch (sk_dispatch A (tcp (socket c)) (timestamp clk now) (sp_capabilities p))
         (\<lambda>x b. packet_to_bytes W (PacketTcp x) b (checksum (sp_capabilities p))) [] = Done (r, t, buf')
         \<and> finished W A r t)"
    using assms(3)
  proof (cases rule: SocketPool_dispatch_cases)
    case (kept c1 c' q ws)
    from kept(3) obtain r t where
      "run_dispatch (sk_dispatch A (tcp (socket c1)) (timestamp (sp_clock p) now) (sp_capabilities p))
         (\<lambda>x b. packet_to_bytes W (PacketTcp x) b (checksum (sp_capabilities p))) [] = Done (r, t, buf')"
      "\<not> (both_dropped (rw c1) \<and> finished W A r t)"
      by (rule Connection_dispatch_cases) blast
    with kept assms(4) clk show ?thesis by auto
  next
    case (removed c1 c' q q' ws)
    from removed(3) obtain r t where
      "run_dispatch (sk_dispatch A (tcp (socket c1)) (timestamp (sp_clock p) now) (sp_capabilities p))
         (\<lambda>x b. packet_to_bytes W (PacketTcp x) b (checksum (sp_capabilities p))) [] = Done (r, t, buf')"
      "both_dropped (rw c1) \<and> finished W A r t"
      by (rule Connection_dispatch_cases) blast
    with removed assms(4) clk show ?thesis by auto
  qed
  with net_stack.dispatch_touches [OF assms(1-3)] show ?thesis by blast
qed

abbreviation done_conn :: "sock connection" where
  "done_conn \<equiv> flow_conn\<lparr>rw := (rw flow_conn)\<lparr>reader_dropped := True, writer_dropped := True\<rparr>\<rparr>"

theorem dispatch_removes_finished_witness:
  "\<exists>buf p' eff. SocketPool_dispatch sample_wire sample_tcp slab_api 3 [] sample_handle
     (sample_pool\<lparr>sp_sockets := [sample_handle \<mapsto> done_conn]\<rparr>) = Done (buf, p', eff)
     \<and> sample_handle \<notin> dom (sp_sockets p')"
proof -
  let ?p = "sample_pool\<lparr>sp_sockets := [sample_handle \<mapsto> done_conn]\<rparr>"
  have inv: "pool_inv map_of (Clock_new 0) (Some sample_handle) ?p"
    using sample_net.pool_new [of "Some sample_handle" sample_caps]
    by (auto simp: pool_inv_def SocketPool_new_def Connection_handle_def Connection_new_def)
  obtain buf p' eff where
    call: "SocketPool_dispatch sample_wire sample_tcp slab_api 3 [] sample_handle ?p = Done (buf, p', eff)"
    using sample_net.dispatch_pool_no_panic [OF inv, of sample_handle 3] by (auto simp: no_panic_iff)
  have run: "run_dispatch (sk_dispatch sample_tcp flow_sock ts sample_caps) emit [] =
      Done (Inl Exhausted, flow_sock, [])" for ts emit
    by (simp add: sample_tcp_def sock_dispatch_def)
  have "buf = []"
    using call run by (auto simp: SocketPool_dispatch_def Connection_dispatch_def Let_def
        Connection_new_def SocketPool_new_def both_dropped_def wake_defs split: if_splits)
  with dispatch_removes_finished [OF sample_net.net_stack_axioms inv call, of done_conn] call run show ?thesis
    by (auto simp: SocketPool_new_def Connection_new_def both_dropped_def finished_def)
qed

end
