(* ===== verification/Interfaces.thy ===== *)
theory Interfaces
  imports Socket_Pool
begin

text \<open>
  The packet path of the loop (\<open>Interface\<close> in \<open>src/ustunet/src/dispatch/mod.rs\<close>): from the bytes
  read from the device, through the IPv4 or IPv6 and the TCP header, to the pool. An error at any
  stage ends the processing of the packet.
\<close>

record ('s, 'q, 'k) interface =
  if_sockets :: "('s, 'q, 'k) socket_pool"
  if_checksum_caps :: checksum_caps

definition Interface_dispatch ::
    "wire_api \<Rightarrow> 's tcp_api \<Rightarrow> ('q, 'k) delay_api \<Rightarrow> instant \<Rightarrow> bytes \<Rightarrow> addr_pair \<Rightarrow>
     ('s, 'q, 'k) interface \<Rightarrow> (bytes \<times> ('s, 'q, 'k) interface \<times> effects) outcome" where
  "Interface_dispatch W A D now buf addr i =
     and_then (SocketPool_dispatch W A D now buf addr (if_sockets i))
       (\<lambda>(buf', p, eff). Done (buf', i\<lparr>if_sockets := p\<rparr>, eff))"

definition process_tcp ::
    "wire_api \<Rightarrow> 's tcp_api \<Rightarrow> ('q, 'k) delay_api \<Rightarrow> bool \<Rightarrow> instant \<Rightarrow> ip_repr \<Rightarrow> bytes \<Rightarrow>
     ('s, 'q, 'k) interface \<Rightarrow>
     ((smol_error, reply) result \<times> ('s, 'q, 'k) interface \<times> effects) outcome" where
  "process_tcp W A D listening now ip payload i =
     (case tcp_new_checked W payload of
        Inl e \<Rightarrow> Done (Inl e, i, no_effects)
      | Inr tcp_packet \<Rightarrow>
          (case tcp_parse W tcp_packet (ip_src_addr ip) (ip_dst_addr ip) (if_checksum_caps i) of
             Inl e \<Rightarrow> Done (Inl e, i, no_effects)
           | Inr repr \<Rightarrow>
               and_then (SocketPool_process W A D listening now ip repr (if_sockets i))
                 (\<lambda>(r, p, eff). Done (r, i\<lparr>if_sockets := p\<rparr>, eff))))"

definition process_ipv4 ::
    "wire_api \<Rightarrow> 's tcp_api \<Rightarrow> ('q, 'k) delay_api \<Rightarrow> bool \<Rightarrow> instant \<Rightarrow> bytes \<Rightarrow>
     ('s, 'q, 'k) interface \<Rightarrow>
     ((smol_error, reply) result \<times> ('s, 'q, 'k) interface \<times> effects) outcome" where
  "process_ipv4 W A D listening now payload i =
     (case v4_new_checked W payload of
        Inl e \<Rightarrow> Done (Inl e, i, no_effects)
      | Inr ipv4_packet \<Rightarrow>
          (case v4_parse W ipv4_packet (if_checksum_caps i) of
             Inl e \<Rightarrow> Done (Inl e, i, no_effects)
           | Inr repr \<Rightarrow>
               if \<not> v4_is_unicast W (v4_src_addr repr) then Done (Inl Malformed, i, no_effects)
               else (case v4_protocol repr of
                       ProtoTcp \<Rightarrow>
                         process_tcp W A D listening now (IpReprV4 repr) (v4_payload W ipv4_packet) i
                     | ProtoOther x \<Rightarrow> Done (Inr None, i, no_effects))))"

definition process_ipv6 ::
    "wire_api \<Rightarrow> 's tcp_api \<Rightarrow> ('q, 'k) delay_api \<Rightarrow> bool \<Rightarrow> instant \<Rightarrow> bytes \<Rightarrow>
     ('s, 'q, 'k) interface \<Rightarrow>
     ((smol_error, reply) result \<times> ('s, 'q, 'k) interface \<times> effects) outcome" where
  "process_ipv6 W A D listening now payload i =
     (case v6_new_checked W payload of
        Inl e \<Rightarrow> Done (Inl e, i, no_effects)
      | Inr ipv6_packet \<Rightarrow>
          (case v6_parse W ipv6_packet of
             Inl e \<Rightarrow> Done (Inl e, i, no_effects)
           | Inr repr \<Rightarrow>
               if \<not> v6_is_unicast W (v6_src_addr repr) then Done (Inl Malformed, i, no_effects)
               else (case v6_next_header repr of
                       ProtoTcp \<Rightarrow>
                         process_tcp W A D listening now (IpReprV6 repr) (v6_payload W ipv6_packet) i
                     | ProtoOther x \<Rightarrow> Done (Inr None, i, no_effects))))"

definition Interface_process ::
    "wire_api \<Rightarrow> 's tcp_api \<Rightarrow> ('q, 'k) delay_api \<Rightarrow> bool \<Rightarrow> instant \<Rightarrow> bytes \<Rightarrow>
     ('s, 'q, 'k) interface \<Rightarrow>
     ((smol_error, reply) result \<times> ('s, 'q, 'k) interface \<times> effects) outcome" where
  "Interface_process W A D listening now packet i =
     (case packet of
        [] \<Rightarrow> Panicked IndexOutOfRange
      | b # bs \<Rightarrow>
          let v = b div 16
          in if v = 4 then process_ipv4 W A D listening now packet i
             else if v = 6 then process_ipv6 W A D listening now packet i
             else Done (Inl Dropped, i, no_effects))"

section \<open>What reaches the pool\<close>

fun unicast_tcp :: "wire_api \<Rightarrow> ip_repr \<Rightarrow> bool" where
  "unicast_tcp W (IpReprV4 r) \<longleftrightarrow> v4_is_unicast W (v4_src_addr r) \<and> v4_protocol r = ProtoTcp"
| "unicast_tcp W (IpReprV6 r) \<longleftrightarrow> v6_is_unicast W (v6_src_addr r) \<and> v6_next_header r = ProtoTcp"
| "unicast_tcp W (IpReprUnspecified s d x) \<longleftrightarrow> False"

text \<open>
  A packet either stops on the way, and then nothing changes and there is no reply, or the pool
  processes its two headers; the latter only when it is TCP from a unicast source.
\<close>

lemma process_tcp_cases:
  assumes "process_tcp W A D listening now ip payload i = Done (r, i', eff)"
  obtains (stopped) e where "r = Inl e" "i' = i" "eff = no_effects"
  | (pooled) repr b p where "tcp_new_checked W payload = Inr b"
      "tcp_parse W b (ip_src_addr ip) (ip_dst_addr ip) (if_checksum_caps i) = Inr repr"
      "SocketPool_process W A D listening now ip repr (if_sockets i) = Done (r, p, eff)"
      "i' = i\<lparr>if_sockets := p\<rparr>"
proof (cases "tcp_new_checked W payload")
  case (Inl e)
  with assms show ?thesis
    by (intro stopped) (auto simp: process_tcp_def)
next
  case b: (Inr b)
  show ?thesis
  proof (cases "tcp_parse W b (ip_src_addr ip) (ip_dst_addr ip) (if_checksum_caps i)")
    case (Inl e)
    with assms b show ?thesis
      by (intro stopped) (auto simp: process_tcp_def)
  next
    case (Inr repr)
    with assms b show ?thesis
      by (auto simp: process_tcp_def intro: pooled [OF b Inr])
  qed
qed

lemma Interface_process_cases:
  assumes "Interface_process W A D listening now packet i = Done (r, i', eff)"
  obtains (stopped) "r = Inr None \<or> (\<exists>e. r = Inl e)" "i' = i" "eff = no_effects"
  | (pooled) ip repr p where "unicast_tcp W ip"
      "SocketPool_process W A D listening now ip repr (if_sockets i) = Done (r, p, eff)"
      "i' = i\<lparr>if_sockets := p\<rparr>"
proof -
  have tcp: thesis
    if "process_tcp W A D listening now ip payload i = Done (r, i', eff)" and "unicast_tcp W ip" for ip payload
    using that(1) by (rule process_tcp_cases) (use stopped pooled that(2) in blast)+
  have 4: thesis if "process_ipv4 W A D listening now packet i = Done (r, i', eff)"
    using that stopped tcp [of "IpReprV4 _"]
    by (auto simp: process_ipv4_def split: sum.splits if_splits ip_protocol.splits)
  have 6: thesis if "process_ipv6 W A D listening now packet i = Done (r, i', eff)"
    using that stopped tcp [of "IpReprV6 _"]
    by (auto simp: process_ipv6_def split: sum.splits if_splits ip_protocol.splits)
  show thesis
    using assms 4 6 stopped
    by (auto simp: Interface_process_def Let_def split: list.splits if_splits)
qed

lemma Interface_dispatch_cases:
  assumes "Interface_dispatch W A D now buf h i = Done (buf', i', eff)"
  obtains p where "SocketPool_dispatch W A D now buf h (if_sockets i) = Done (buf', p, eff)"
    "i' = i\<lparr>if_sockets := p\<rparr>"
  using assms by (auto simp: Interface_dispatch_def)

context net_stack
begin

lemma Interface_process_no_panic:
  assumes inv: "pool_inv ent clk np (if_sockets i)" and "packet \<noteq> []"
  shows "no_panic (Interface_process W A D listening now packet i)"
proof -
  have "no_panic (process_tcp W A D listening now ip payload i)" for ip payload
  proof -
    have "\<exists>r p eff. SocketPool_process W A D listening now ip repr (if_sockets i) = Done (r, p, eff)" for repr
      using process_pool_no_panic [OF inv] by (metis no_panic_iff prod.exhaust)
    then show ?thesis
      by (fastforce simp: process_tcp_def split: sum.splits)
  qed
  with assms(2) show ?thesis
    by (auto simp: Interface_process_def process_ipv4_def process_ipv6_def Let_def neq_Nil_conv
        split: sum.splits ip_protocol.splits)
qed

end

section \<open>Properties of the packet path\<close>

text \<open>
  (C29) Only TCP packets from unicast sources reach the pool: any other packet, and any that a
  parser refuses, leaves the whole state unchanged and is not answered.
\<close>

theorem only_unicast_tcp_reaches_pool:
  assumes "Interface_process W A D listening now packet i = Done (r, i', eff)"
  shows "(i' = i \<and> eff = no_effects \<and> (r = Inr None \<or> (\<exists>e. r = Inl e)))
    \<or> (\<exists>ip repr p. unicast_tcp W ip \<and> i' = i\<lparr>if_sockets := p\<rparr>
        \<and> SocketPool_process W A D listening now ip repr (if_sockets i) = Done (r, p, eff))"
  using assms by (cases rule: Interface_process_cases) auto

abbreviation sample_if :: "(sock, slab, nat) interface" where
  "sample_if \<equiv> \<lparr>if_sockets = sample_pool, if_checksum_caps = []\<rparr>"

theorem only_unicast_tcp_reaches_pool_witness:
  "\<exists>r i' eff. Interface_process sample_wire sample_tcp slab_api True 3
      [64, 224, 0, 0, 1, 10, 0, 0, 2, 6, 5, 80, 2, 0] sample_if = Done (r, i', eff) \<and> i' = sample_if"
proof -
  have call: "Interface_process sample_wire sample_tcp slab_api True 3
      [64, 224, 0, 0, 1, 10, 0, 0, 2, 6, 5, 80, 2, 0] sample_if = Done (Inl Malformed, sample_if, no_effects)"
    by (simp add: Interface_process_def process_ipv4_def sample_wire_def sample_v4_parse_def nth_byte_def Let_def)
  from only_unicast_tcp_reaches_pool [OF call] call show ?thesis by blast
qed

text \<open>
  A packet that is not empty is processed without a panic, whatever its bytes are.
\<close>

theorem packet_path_total:
  assumes "net_stack D ent in_range W A clk" and "pool_inv ent clk np (if_sockets i)" and "packet \<noteq> []"
  shows "no_panic (Interface_process W A D listening now packet i)"
  using assms by (rule net_stack.Interface_process_no_panic)

theorem packet_path_total_witness:
  "no_panic (Interface_process sample_wire sample_tcp slab_api True 3 [69, 0] sample_if)"
  using packet_path_total [OF sample_net.net_stack_axioms, of None sample_if "[69, 0]" True 3]
    sample_net.pool_new [of None sample_caps]
  by simp

end
