(* ===== verification/Selector.thy ===== *)
theory Selector
  imports Prelude
begin

text \<open>
  The four-way selector of \<open>src/ustunet/src/util.rs\<close>: four slots, each empty or holding a
  future, and a future that polls the occupied slots in the order a, b, c, d, empties the first
  one that is ready and returns its output. A future is a value whose poll function reads and
  changes a world \<open>'w\<close> (the device, the channels); polling gives its output or nothing.
\<close>

section \<open>Slots\<close>

record ('a, 'b, 'c, 'd) selector =
  slot_a :: "'a option"
  slot_b :: "'b option"
  slot_c :: "'c option"
  slot_d :: "'d option"

datatype ('a, 'b, 'c, 'd) selected = SelA 'a | SelB 'b | SelC 'c | SelD 'd

definition Selector_new :: "('a, 'b, 'c, 'd) selector" where
  "Selector_new = \<lparr>slot_a = None, slot_b = None, slot_c = None, slot_d = None\<rparr>"

definition Selector_b :: "('a, 'b, 'c, 'd) selector \<Rightarrow> 'b option" where
  "Selector_b s = slot_b s"

definition insert_a :: "'a \<Rightarrow> ('a, 'b, 'c, 'd) selector \<Rightarrow> ('a, 'b, 'c, 'd) selector outcome" where
  "insert_a x s = (if slot_a s = None then Done (s\<lparr>slot_a := Some x\<rparr>) else Panicked SelectorOccupied)"

definition insert_b :: "'b \<Rightarrow> ('a, 'b, 'c, 'd) selector \<Rightarrow> ('a, 'b, 'c, 'd) selector outcome" where
  "insert_b x s = (if slot_b s = None then Done (s\<lparr>slot_b := Some x\<rparr>) else Panicked SelectorOccupied)"

definition insert_c :: "'c \<Rightarrow> ('a, 'b, 'c, 'd) selector \<Rightarrow> ('a, 'b, 'c, 'd) selector outcome" where
  "insert_c x s = (if slot_c s = None then Done (s\<lparr>slot_c := Some x\<rparr>) else Panicked SelectorOccupied)"

definition insert_d :: "'d \<Rightarrow> ('a, 'b, 'c, 'd) selector \<Rightarrow> ('a, 'b, 'c, 'd) selector outcome" where
  "insert_d x s = (if slot_d s = None then Done (s\<lparr>slot_d := Some x\<rparr>) else Panicked SelectorOccupied)"

section \<open>Polling\<close>

text \<open>
  A poll function may change the future it polls even when it is not ready, so the slot is
  written back. \<open>poll_slot\<close> is the test the source repeats for each slot.
\<close>

type_synonym ('f, 'o, 'w) poll_fun = "'f \<Rightarrow> 'w \<Rightarrow> 'o poll \<times> 'f \<times> 'w"

definition poll_slot :: "('f, 'o, 'w) poll_fun \<Rightarrow> 'f option \<Rightarrow> 'w \<Rightarrow> 'o poll \<times> 'f option \<times> 'w" where
  "poll_slot p slot w =
     (case slot of
        None \<Rightarrow> (Pending, None, w)
      | Some f \<Rightarrow>
          (case p f w of
             (Ready x, f', w') \<Rightarrow> (Ready x, None, w')
           | (Pending, f', w') \<Rightarrow> (Pending, Some f', w')))"

definition select_poll ::
    "('a, 'x, 'w) poll_fun \<Rightarrow> ('b, 'y, 'w) poll_fun \<Rightarrow> ('c, 'z, 'w) poll_fun \<Rightarrow>
     ('d, 'v, 'w) poll_fun \<Rightarrow> ('a, 'b, 'c, 'd) selector \<Rightarrow> 'w \<Rightarrow>
     ('x, 'y, 'z, 'v) selected poll \<times> ('a, 'b, 'c, 'd) selector \<times> 'w" where
  "select_poll pa pb pc pd s w =
     (case poll_slot pa (slot_a s) w of
        (Ready x, a', w1) \<Rightarrow> (Ready (SelA x), s\<lparr>slot_a := a'\<rparr>, w1)
      | (Pending, a', w1) \<Rightarrow>
     (case poll_slot pb (slot_b s) w1 of
        (Ready y, b', w2) \<Rightarrow> (Ready (SelB y), s\<lparr>slot_a := a', slot_b := b'\<rparr>, w2)
      | (Pending, b', w2) \<Rightarrow>
     (case poll_slot pc (slot_c s) w2 of
        (Ready z, c', w3) \<Rightarrow>
          (Ready (SelC z), s\<lparr>slot_a := a', slot_b := b', slot_c := c'\<rparr>, w3)
      | (Pending, c', w3) \<Rightarrow>
     (case poll_slot pd (slot_d s) w3 of
        (Ready v, d', w4) \<Rightarrow>
          (Ready (SelD v), s\<lparr>slot_a := a', slot_b := b', slot_c := c', slot_d := d'\<rparr>, w4)
      | (Pending, d', w4) \<Rightarrow>
          (Pending, s\<lparr>slot_a := a', slot_b := b', slot_c := c', slot_d := d'\<rparr>, w4)))))"

text \<open>Which slots are occupied, and which slot an output came from.\<close>

type_synonym occupancy = "bool \<times> bool \<times> bool \<times> bool"

definition occupied :: "('a, 'b, 'c, 'd) selector \<Rightarrow> occupancy" where
  "occupied s = (slot_a s \<noteq> None, slot_b s \<noteq> None, slot_c s \<noteq> None, slot_d s \<noteq> None)"

fun vacate :: "('a, 'b, 'c, 'd) selected poll \<Rightarrow> occupancy \<Rightarrow> occupancy" where
  "vacate (Ready (SelA x)) (a, b, c, d) = (False, b, c, d)"
| "vacate (Ready (SelB x)) (a, b, c, d) = (a, False, c, d)"
| "vacate (Ready (SelC x)) (a, b, c, d) = (a, b, False, d)"
| "vacate (Ready (SelD x)) (a, b, c, d) = (a, b, c, False)"
| "vacate Pending occ = occ"

fun source_was_occupied :: "('a, 'b, 'c, 'd) selected poll \<Rightarrow> occupancy \<Rightarrow> bool" where
  "source_was_occupied (Ready (SelA x)) (a, b, c, d) = a"
| "source_was_occupied (Ready (SelB x)) (a, b, c, d) = b"
| "source_was_occupied (Ready (SelC x)) (a, b, c, d) = c"
| "source_was_occupied (Ready (SelD x)) (a, b, c, d) = d"
| "source_was_occupied Pending occ = True"

lemma poll_slot_cases:
  assumes "poll_slot p slot w = (r, slot', w')"
  obtains (empty) "slot = None" "slot' = None" "w' = w" "r = Pending"
  | (ready) f x where "slot = Some f" "slot' = None" "r = Ready x" "fst (p f w) = Ready x"
      "w' = snd (snd (p f w))"
  | (pending) f f' where "slot = Some f" "slot' = Some f'" "r = Pending" "fst (p f w) = Pending"
      "w' = snd (snd (p f w))"
  using assms by (auto simp: poll_slot_def split: option.splits prod.splits poll.splits)

lemma poll_slot_None [simp]: "poll_slot p None w = (Pending, None, w)"
  by (simp add: poll_slot_def)

lemma poll_slot_pending: "poll_slot p sl v = (Pending, sl', v') \<Longrightarrow> (sl' = None) = (sl = None)"
  by (auto elim: poll_slot_cases)

lemma poll_slot_ready: "poll_slot p sl v = (Ready x, sl', v') \<Longrightarrow> sl \<noteq> None \<and> sl' = None"
  by (auto elim: poll_slot_cases)

text \<open>Only the slot the output came from is emptied, and it was occupied.\<close>

lemma select_poll_occupied:
  assumes "select_poll pa pb pc pd s w = (r, s', w')"
  shows "occupied s' = vacate r (occupied s)"
    and "source_was_occupied r (occupied s)"
  using assms unfolding select_poll_def occupied_def
  by (auto simp del: not_None_eq split: prod.splits poll.splits
      dest!: poll_slot_pending poll_slot_ready)

lemma insert_occupied:
  "insert_a x s = Done s' \<Longrightarrow> occupied s' = (True, snd (occupied s))"
  "insert_b y s = Done s' \<Longrightarrow> occupied s' = (fst (occupied s), True, snd (snd (occupied s)))"
  "insert_c z s = Done s' \<Longrightarrow>
     occupied s' = (fst (occupied s), fst (snd (occupied s)), True, snd (snd (snd (occupied s))))"
  "insert_d v s = Done s' \<Longrightarrow>
     occupied s' = (fst (occupied s), fst (snd (occupied s)), fst (snd (snd (occupied s))), True)"
  by (auto simp: insert_a_def insert_b_def insert_c_def insert_d_def occupied_def split: if_splits)

lemma insert_no_panic:
  "no_panic (insert_a x s) \<longleftrightarrow> \<not> fst (occupied s)"
  "no_panic (insert_b y s) \<longleftrightarrow> \<not> fst (snd (occupied s))"
  "no_panic (insert_c z s) \<longleftrightarrow> \<not> fst (snd (snd (occupied s)))"
  "no_panic (insert_d v s) \<longleftrightarrow> \<not> snd (snd (snd (occupied s)))"
  by (auto simp: insert_a_def insert_b_def insert_c_def insert_d_def occupied_def)

section \<open>Properties of the selector\<close>

text \<open>
  Polling the selector empties exactly the slot whose output it returns, that slot was
  occupied, and when nothing is ready every slot keeps its future.
\<close>

theorem select_poll_vacates:
  assumes "select_poll pa pb pc pd s w = (r, s', w')"
  shows "occupied s' = vacate r (occupied s) \<and> source_was_occupied r (occupied s)"
  using select_poll_occupied [OF assms] by simp

theorem select_poll_vacates_witness:
  "occupied (fst (snd (select_poll (\<lambda>f w. (Pending, f, w)) (\<lambda>f w. (Ready f, f, w))
      (\<lambda>f w. (Ready f, f, w)) (\<lambda>f w. (Ready f, f, w))
      \<lparr>slot_a = Some (1 :: nat), slot_b = Some (2 :: nat), slot_c = Some (3 :: nat), slot_d = None :: nat option\<rparr> ()))) =
     (True, False, True, False)"
  using select_poll_vacates [of "\<lambda>f w. (Pending :: nat poll, f, w)" "\<lambda>f w. (Ready f, f, w)"
      "\<lambda>f w. (Ready f, f, w)" "\<lambda>f w. (Ready f, f, w)"
      "\<lparr>slot_a = Some (1 :: nat), slot_b = Some (2 :: nat), slot_c = Some (3 :: nat), slot_d = None :: nat option\<rparr>"
      "()" "Ready (SelB 2)"
      "\<lparr>slot_a = Some 1, slot_b = None, slot_c = Some 3, slot_d = None\<rparr>" "()"]
  by (simp add: select_poll_def poll_slot_def occupied_def)

end
