(* ===== verification/Io_Loop.thy ===== *)
theory Io_Loop
  imports Interfaces Selector
begin

text \<open>
  The loop that owns the device and the pool (\<open>io_loop\<close> in \<open>src/ustunet/src/dispatch/mod.rs\<close>).
  One round of the loop has two phases:

  \<^item> at the top (\<open>io_egress\<close>) it fills the write buffer, with a waiting reply or else with a packet
    of the connection whose timer expired, and starts to write;
  \<^item> then (\<open>io_select\<close>) it waits for the first of: the write is done, a packet was read, a half
    was dropped, a polling time was updated, or a timer expired; and handles that.

  The device is the environment: a poll of the write or read future is given what the device
  answers. The channels are lists. The vector of replies is used as a stack; its last element is
  the head of the list here.
\<close>

section \<open>State\<close>

record io_world =
  dev_write :: "(io_error, nat) result option"
  dev_read :: "(io_error, bytes) result option"
  closing :: "close_msg list"
  poll_recv :: "poll_update list"

type_synonym write_out = "(io_error, nat) result \<times> bytes"
type_synonym read_out = "(io_error, nat) result \<times> bytes"

record ('s, 'q, 'k) io_loop =
  interface :: "('s, 'q, 'k) interface"
  capabilities :: device_capabilities
  ingress_replies :: "ip_packet list"
  writing :: "bytes option"
  selector :: "(bytes, bytes, unit, unit) selector"
  next_poll :: "addr_pair option"

section \<open>The four futures\<close>

definition write_future :: "(bytes, write_out, io_world) poll_fun" where
  "write_future buf w =
     (case dev_write w of
        None \<Rightarrow> (Pending, buf, w)
      | Some n \<Rightarrow> (Ready (n, buf), buf, w\<lparr>dev_write := None\<rparr>))"

definition read_future :: "(bytes, read_out, io_world) poll_fun" where
  "read_future buf w =
     (case dev_read w of
        None \<Rightarrow> (Pending, buf, w)
      | Some (Inl e) \<Rightarrow> (Ready (Inl e, buf), buf, w\<lparr>dev_read := None\<rparr>)
      | Some (Inr data) \<Rightarrow>
          let n = min (length data) (length buf); buf' = take n data @ drop n buf
          in (Ready (Inr n, buf'), buf', w\<lparr>dev_read := None\<rparr>))"

definition recv_close :: "(unit, close_msg, io_world) poll_fun" where
  "recv_close u w =
     (case closing w of
        [] \<Rightarrow> (Pending, u, w)
      | m # ms \<Rightarrow> (Ready m, u, w\<lparr>closing := ms\<rparr>))"

definition recv_poll :: "(unit, poll_update, io_world) poll_fun" where
  "recv_poll u w =
     (case poll_recv w of
        [] \<Rightarrow> (Pending, u, w)
      | m # ms \<Rightarrow> (Ready m, u, w\<lparr>poll_recv := ms\<rparr>))"

section \<open>Starting\<close>

definition io_start ::
    "('q, 'k) delay_api \<Rightarrow> instant \<Rightarrow> device_capabilities \<Rightarrow> ('s, 'q, 'k) io_loop outcome" where
  "io_start D now dev_caps =
     (let clk = Clock_new now;
          pool = SocketPool_new dev_caps (DispatchQueue_new D clk) clk
      in and_then (insert_b (replicate 2048 0) Selector_new) (\<lambda>s1.
         and_then (insert_c () s1) (\<lambda>s2.
         and_then (insert_d () s2) (\<lambda>s3.
           Done \<lparr>interface = \<lparr>if_sockets = pool, if_checksum_caps = checksum dev_caps\<rparr>,
                 capabilities = dev_caps, ingress_replies = [], writing = Some [],
                 selector = s3, next_poll = None\<rparr>))))"

section \<open>The top of the loop\<close>

fun drain_replies ::
    "wire_api \<Rightarrow> checksum_caps \<Rightarrow> ip_packet list \<Rightarrow> bytes \<Rightarrow> (ip_packet list \<times> bytes) outcome" where
  "drain_replies W caps [] buf = Done ([], buf)"
| "drain_replies W caps (r # rs) buf =
     and_then (packet_to_bytes W r buf caps) (\<lambda>(res, buf').
       case res of
         Inl e \<Rightarrow> Panicked ReplyNotSerialised
       | Inr _ \<Rightarrow> if buf' \<noteq> [] then Done (rs, buf') else drain_replies W caps rs buf')"

definition io_egress ::
    "wire_api \<Rightarrow> 's tcp_api \<Rightarrow> ('q, 'k) delay_api \<Rightarrow> instant \<Rightarrow> ('s, 'q, 'k) io_loop \<Rightarrow>
     (('s, 'q, 'k) io_loop \<times> effects) outcome" where
  "io_egress W A D now lp =
     (if Selector_b (selector lp) = None then Panicked ReaderFutureMissing
      else case writing lp of
        None \<Rightarrow> Done (lp, no_effects)
      | Some b0 \<Rightarrow>
          and_then (if b0 = [] then drain_replies W (checksum (capabilities lp)) (ingress_replies lp) b0
                    else Done (ingress_replies lp, b0)) (\<lambda>(rs, b1).
          and_then (case (if b1 = [] then next_poll lp else None) of
                      Some addr \<Rightarrow>
                        and_then (Interface_dispatch W A D now b1 addr (interface lp))
                          (\<lambda>(b2, i, eff). Done (b2, i, None, eff))
                    | None \<Rightarrow> Done (b1, interface lp, next_poll lp, no_effects)) (\<lambda>(b2, i, np, eff).
          let lp1 = lp\<lparr>interface := i, ingress_replies := rs, next_poll := np\<rparr>
          in if b2 \<noteq> []
             then and_then (insert_a b2 (selector lp1)) (\<lambda>sel.
                    Done (lp1\<lparr>writing := None, selector := sel\<rparr>, eff))
             else Done (lp1\<lparr>writing := Some b2\<rparr>, eff))))"

section \<open>Waiting and handling\<close>

datatype wait_result =
    Blocked
  | TimerExpired addr_pair
  | Chosen "(write_out, read_out, close_msg, poll_update) selected"

definition loop_pool :: "('s, 'q, 'k) io_loop \<Rightarrow> ('s, 'q, 'k) socket_pool" where
  "loop_pool lp = if_sockets (interface lp)"

definition set_pool :: "('s, 'q, 'k) socket_pool \<Rightarrow> ('s, 'q, 'k) io_loop \<Rightarrow> ('s, 'q, 'k) io_loop" where
  "set_pool p lp = lp\<lparr>interface := (interface lp)\<lparr>if_sockets := p\<rparr>\<rparr>"

definition io_wait ::
    "('q, 'k) delay_api \<Rightarrow> instant \<Rightarrow> ('s, 'q, 'k) io_loop \<Rightarrow> io_world \<Rightarrow>
     (wait_result \<times> ('s, 'q, 'k) io_loop \<times> io_world) outcome" where
  "io_wait D now lp w =
     (case select_poll write_future read_future recv_close recv_poll (selector lp) w of
        (Ready s, sel, w') \<Rightarrow> Done (Chosen s, lp\<lparr>selector := sel\<rparr>, w')
      | (Pending, sel, w') \<Rightarrow>
          let lp1 = lp\<lparr>selector := sel\<rparr>
          in if next_poll lp = None
             then and_then (DispatchQueue_poll D now (sp_queue (loop_pool lp1))) (\<lambda>(e, q).
                    Done (case e of Ready h \<Rightarrow> TimerExpired h | Pending \<Rightarrow> Blocked,
                          set_pool ((loop_pool lp1)\<lparr>sp_queue := q\<rparr>) lp1, w'))
             else Done (Blocked, lp1, w'))"

text \<open>Handling an event; an error of the device ends the loop with that error.\<close>

definition io_handle ::
    "wire_api \<Rightarrow> 's tcp_api \<Rightarrow> ('q, 'k) delay_api \<Rightarrow> bool \<Rightarrow> instant \<Rightarrow>
     (write_out, read_out, close_msg, poll_update) selected \<Rightarrow> ('s, 'q, 'k) io_loop \<Rightarrow>
     ((io_error, unit) result \<times> ('s, 'q, 'k) io_loop \<times> effects) outcome" where
  "io_handle W A D listening now s lp =
     (case s of
        SelA (n, b) \<Rightarrow>
          (case n of
             Inl e \<Rightarrow> Done (Inl e, lp, no_effects)
           | Inr _ \<Rightarrow> Done (Inr (), lp\<lparr>writing := Some []\<rparr>, no_effects))
      | SelB (n, buf) \<Rightarrow>
          (case n of
             Inl e \<Rightarrow> Done (Inl e, lp, no_effects)
           | Inr m \<Rightarrow>
               and_then
                 (if 0 < m then
                    if length buf < m then Panicked SliceOutOfRange
                    else and_then (Interface_process W A D listening now (take m buf) (interface lp))
                      (\<lambda>(r, i, eff).
                        let lp1 = lp\<lparr>interface := i\<rparr>
                        in Done (case r of
                                   Inr (Some repr) \<Rightarrow>
                                     lp1\<lparr>ingress_replies := PacketTcp repr # ingress_replies lp1\<rparr>
                                 | _ \<Rightarrow> lp1, eff))
                  else Done (lp, no_effects))
                 (\<lambda>(lp1, eff).
                   and_then (insert_b buf (selector lp1)) (\<lambda>sel.
                     Done (Inr (), lp1\<lparr>selector := sel\<rparr>, eff))))
      | SelC (h, c) \<Rightarrow>
          and_then (SocketPool_drop_tcp_half A D h c (loop_pool lp)) (\<lambda>p.
          and_then (insert_c () (selector lp)) (\<lambda>sel.
            Done (Inr (), (set_pool p lp)\<lparr>selector := sel\<rparr>, no_effects)))
      | SelD (h, t) \<Rightarrow>
          and_then (DispatchQueue_send D (sp_queue (loop_pool lp)) h t) (\<lambda>q.
          and_then (insert_d () (selector lp)) (\<lambda>sel.
            Done (Inr (), (set_pool ((loop_pool lp)\<lparr>sp_queue := q\<rparr>) lp)\<lparr>selector := sel\<rparr>, no_effects))))"

section \<open>The selector of the loop\<close>

text \<open>
  Between two actions of the loop the selector holds the reader and the two receivers, and it holds
  the writer exactly when the write buffer is in use; a buffer that is at hand is empty.
\<close>

definition loop_ready :: "('s, 'q, 'k) io_loop \<Rightarrow> bool" where
  "loop_ready lp \<longleftrightarrow> occupied (selector lp) = (writing lp = None, True, True, True)
     \<and> (writing lp = None \<or> writing lp = Some [])"

text \<open>A reply that can be serialised.\<close>

definition reply_ok :: "wire_api \<Rightarrow> ip_packet \<Rightarrow> bool" where
  "reply_ok W r \<longleftrightarrow> (\<exists>ip t ip'. r = PacketTcp (ip, t) \<and> ip_lower W ip = Inr ip')"

lemmas future_defs = write_future_def read_future_def recv_close_def recv_poll_def

text \<open>What the selector's futures take from the channels, and in which order they are asked.\<close>

lemma select_takes:
  assumes "select_poll write_future read_future recv_close recv_poll sel w = (r, sel', w')"
    and "occupied sel = (a, True, True, True)"
  shows "case r of
      Ready (SelA (n, b)) \<Rightarrow> dev_write w = Some n \<and> slot_a sel = Some b
        \<and> closing w' = closing w \<and> poll_recv w' = poll_recv w
    | Ready (SelB (n, b)) \<Rightarrow> (a \<longrightarrow> dev_write w = None) \<and> (\<forall>m. n = Inr m \<longrightarrow> m \<le> length b)
        \<and> closing w' = closing w \<and> poll_recv w' = poll_recv w
    | Ready (SelC m) \<Rightarrow> (a \<longrightarrow> dev_write w = None) \<and> dev_read w = None
        \<and> closing w = m # closing w' \<and> poll_recv w' = poll_recv w
    | Ready (SelD m) \<Rightarrow> (a \<longrightarrow> dev_write w = None) \<and> dev_read w = None
        \<and> closing w = [] \<and> closing w' = [] \<and> poll_recv w = m # poll_recv w'
    | Pending \<Rightarrow> (a \<longrightarrow> dev_write w = None) \<and> dev_read w = None
        \<and> closing w = [] \<and> closing w' = [] \<and> poll_recv w = [] \<and> poll_recv w' = []"
  using assms
  by (auto simp: select_poll_def poll_slot_def occupied_def future_defs Let_def
      split: option.splits sum.splits list.splits)

section \<open>The top of the loop, by cases\<close>

context packet_emitters
begin

lemma drain_one:
  assumes "reply_ok W r"
  shows "\<exists>b. packet_to_bytes W r [] caps = Done (Inr (), b) \<and> b \<noteq> []
    \<and> drain_replies W caps (r # rs) [] = Done (rs, b)"
proof -
  from assms obtain ip t ip' where r: "r = PacketTcp (ip, t)" "ip_lower W ip = Inr ip'"
    by (auto simp: reply_ok_def)
  with packet_to_bytes_tcp [of ip t caps] obtain b where
    "packet_to_bytes W r [] caps = Done (Inr (), b)" "length b = ip_total_len W ip'"
    by auto
  with packet_not_empty [OF r(2)] show ?thesis by auto
qed

lemma io_egress_cases:
  assumes ready: "loop_ready lp" and replies: "list_all (reply_ok W) (ingress_replies lp)"
    and call: "io_egress W A D now lp = Done (lp', eff)"
  obtains (busy) "writing lp = None" "lp' = lp" "eff = no_effects"
  | (reply) r rs b where "writing lp = Some []" "ingress_replies lp = r # rs"
      "packet_to_bytes W r [] (checksum (capabilities lp)) = Done (Inr (), b)" "b \<noteq> []"
      "lp' = lp\<lparr>ingress_replies := rs, writing := None, selector := (selector lp)\<lparr>slot_a := Some b\<rparr>\<rparr>"
      "eff = no_effects"
  | (idle) "writing lp = Some []" "ingress_replies lp = []" "next_poll lp = None" "lp' = lp"
      "eff = no_effects"
  | (dispatched) h i b where "writing lp = Some []" "ingress_replies lp = []" "next_poll lp = Some h"
      "Interface_dispatch W A D now [] h (interface lp) = Done (b, i, eff)"
      "lp' = lp\<lparr>interface := i, next_poll := None, writing := (if b = [] then Some [] else None),
        selector := (selector lp)\<lparr>slot_a := (if b = [] then None else Some b)\<rparr>\<rparr>"
proof (cases "writing lp")
  case None
  with call ready show ?thesis
    by (intro busy) (auto simp: io_egress_def loop_ready_def occupied_def Selector_b_def)
next
  case (Some b0)
  with ready have b0: "b0 = []" and slots: "slot_a (selector lp) = None" "slot_b (selector lp) \<noteq> None"
    by (auto simp: loop_ready_def occupied_def)
  show ?thesis
  proof (cases "ingress_replies lp")
    case Nil
    show ?thesis
    proof (cases "next_poll lp")
      case None
      with call Some Nil b0 slots show ?thesis
        by (intro idle) (auto simp: io_egress_def Selector_b_def)
    next
      case h: (Some h)
      with call Some Nil b0 slots obtain b i e where
        d: "Interface_dispatch W A D now [] h (interface lp) = Done (b, i, e)"
        by (auto simp: io_egress_def Selector_b_def)
      have "eff = e \<and> lp' = lp\<lparr>interface := i, next_poll := None,
          writing := (if b = [] then Some [] else None),
          selector := (selector lp)\<lparr>slot_a := (if b = [] then None else Some b)\<rparr>\<rparr>"
        using call Some Nil b0 slots h d
        by (cases lp, cases "selector lp")
          (auto simp: io_egress_def Selector_b_def insert_a_def Let_def split: if_splits)
      with d Some Nil b0 h show ?thesis
        by (intro dispatched [of h b i]) auto
    qed
  next
    case (Cons r rs)
    with replies obtain b where "packet_to_bytes W r [] (checksum (capabilities lp)) = Done (Inr (), b)"
      "b \<noteq> []" "drain_replies W (checksum (capabilities lp)) (r # rs) [] = Done (rs, b)"
      using drain_one [of r] by auto
    with call Some Cons b0 slots show ?thesis
      by (intro reply [of r rs b]) (auto simp: io_egress_def Selector_b_def insert_a_def)
  qed
qed

end

section \<open>Waiting and handling, by cases\<close>

lemma loop_pool_simps [simp]:
  "loop_pool (set_pool p lp) = p" "loop_pool (lp\<lparr>selector := sel\<rparr>) = loop_pool lp"
  "loop_pool (lp\<lparr>writing := b\<rparr>) = loop_pool lp" "loop_pool (lp\<lparr>next_poll := np\<rparr>) = loop_pool lp"
  "loop_pool (lp\<lparr>ingress_replies := rs\<rparr>) = loop_pool lp"
  "loop_pool (lp\<lparr>interface := i\<rparr>) = if_sockets i"
  "next_poll (set_pool p lp) = next_poll lp" "ingress_replies (set_pool p lp) = ingress_replies lp"
  "writing (set_pool p lp) = writing lp" "selector (set_pool p lp) = selector lp"
  by (simp_all add: loop_pool_def set_pool_def)

lemma io_wait_cases:
  assumes "io_wait D now lp w = Done (res, lp', w')"
  obtains (chosen) s sel where "res = Chosen s" "lp' = lp\<lparr>selector := sel\<rparr>"
      "select_poll write_future read_future recv_close recv_poll (selector lp) w = (Ready s, sel, w')"
  | (polled) r q sel where "next_poll lp = None"
      "DispatchQueue_poll D now (sp_queue (loop_pool lp)) = Done (r, q)"
      "res = (case r of Ready h \<Rightarrow> TimerExpired h | Pending \<Rightarrow> Blocked)"
      "lp' = set_pool ((loop_pool lp)\<lparr>sp_queue := q\<rparr>) (lp\<lparr>selector := sel\<rparr>)"
      "select_poll write_future read_future recv_close recv_poll (selector lp) w = (Pending, sel, w')"
  | (waiting) sel where "next_poll lp \<noteq> None" "res = Blocked" "lp' = lp\<lparr>selector := sel\<rparr>"
      "select_poll write_future read_future recv_close recv_poll (selector lp) w = (Pending, sel, w')"
proof -
  obtain r sel w1 where sel:
    "select_poll write_future read_future recv_close recv_poll (selector lp) w = (r, sel, w1)"
    by (metis prod.exhaust)
  show thesis
  proof (cases r)
    case (Ready s)
    with assms sel show thesis
      by (intro chosen) (auto simp: io_wait_def)
  next
    case Pending
    show thesis
    proof (cases "next_poll lp")
      case None
      with assms sel Pending obtain e q where
        "DispatchQueue_poll D now (sp_queue (loop_pool lp)) = Done (e, q)"
        by (auto simp: io_wait_def Let_def)
      with assms sel Pending None show thesis
        by (intro polled [of e q sel]) (auto simp: io_wait_def Let_def)
    next
      case (Some h)
      with assms sel Pending show thesis
        by (intro waiting [of sel]) (auto simp: io_wait_def Let_def)
    qed
  qed
qed

lemma io_handle_packet:
  assumes call: "io_handle W A D listening now (SelB (Inr m, buf)) lp = Done (res, lp', eff)" and "m \<noteq> 0"
  obtains r i sel where "m \<le> length buf"
    "Interface_process W A D listening now (take m buf) (interface lp) = Done (r, i, eff)"
    "insert_b buf (selector lp) = Done sel" "res = Inr ()"
    "lp' = lp\<lparr>interface := i, selector := sel, ingress_replies :=
       (case r of Inr (Some x) \<Rightarrow> [PacketTcp x] | _ \<Rightarrow> []) @ ingress_replies lp\<rparr>"
proof -
  from assms obtain r i e where
    p: "Interface_process W A D listening now (take m buf) (interface lp) = Done (r, i, e)"
    and m: "m \<le> length buf"
    by (auto simp: io_handle_def split: if_splits)
  obtain sel where sel: "insert_b buf (selector lp) = Done sel"
    using assms p m
    by (auto simp: io_handle_def insert_b_def Let_def split: if_splits sum.splits option.splits)
  show thesis
    by (rule that [of r i sel])
      (use assms p m sel in
        \<open>cases lp; auto simp: io_handle_def Let_def insert_b_def split: sum.splits option.splits if_splits\<close>)+
qed

lemma io_handle_cases:
  assumes "io_handle W A D listening now s lp = Done (res, lp', eff)"
  obtains (failed) e where "res = Inl e" "lp' = lp" "eff = no_effects"
  | (written) n b where "s = SelA (n, b)" "res = Inr ()" "lp' = lp\<lparr>writing := Some []\<rparr>" "eff = no_effects"
  | (empty_read) buf sel where "s = SelB (Inr 0, buf)" "insert_b buf (selector lp) = Done sel"
      "res = Inr ()" "lp' = lp\<lparr>selector := sel\<rparr>" "eff = no_effects"
  | (packet) m buf r i sel where "s = SelB (Inr m, buf)" "0 < m" "m \<le> length buf"
      "Interface_process W A D listening now (take m buf) (interface lp) = Done (r, i, eff)"
      "insert_b buf (selector lp) = Done sel" "res = Inr ()"
      "lp' = lp\<lparr>interface := i, selector := sel, ingress_replies :=
         (case r of Inr (Some x) \<Rightarrow> [PacketTcp x] | _ \<Rightarrow> []) @ ingress_replies lp\<rparr>"
  | (half) h side p sel where "s = SelC (h, side)"
      "SocketPool_drop_tcp_half A D h side (loop_pool lp) = Done p"
      "insert_c () (selector lp) = Done sel" "res = Inr ()" "lp' = (set_pool p lp)\<lparr>selector := sel\<rparr>"
      "eff = no_effects"
  | (update) h t q sel where "s = SelD (h, t)"
      "DispatchQueue_send D (sp_queue (loop_pool lp)) h t = Done q"
      "insert_d () (selector lp) = Done sel" "res = Inr ()"
      "lp' = (set_pool ((loop_pool lp)\<lparr>sp_queue := q\<rparr>) lp)\<lparr>selector := sel\<rparr>" "eff = no_effects"
proof (cases s)
  case (SelA x)
  obtain n b where x: "x = (n, b)" by (cases x)
  with SelA assms show ?thesis
    by (cases n) (auto simp: io_handle_def intro: failed written)
next
  case (SelB x)
  obtain n buf where x: "x = (n, buf)" by (cases x)
  show ?thesis
  proof (cases n)
    case (Inl e)
    with SelB x assms show ?thesis
      by (auto simp: io_handle_def intro: failed)
  next
    case (Inr m)
    show ?thesis
    proof (cases "m = 0")
      case True
      with SelB x Inr assms obtain sel where "insert_b buf (selector lp) = Done sel"
        "res = Inr ()" "lp' = lp\<lparr>selector := sel\<rparr>" "eff = no_effects"
        by (auto simp: io_handle_def)
      with SelB x Inr True show ?thesis
        by (intro empty_read [of buf sel]) auto
    next
      case False
      with SelB x Inr assms show ?thesis
        by (auto elim!: io_handle_packet intro: packet)
    qed
  qed
next
  case (SelC x)
  obtain h side where x: "x = (h, side)" by (cases x)
  with SelC assms show ?thesis
    by (auto simp: io_handle_def intro: half)
next
  case (SelD x)
  obtain h t where x: "x = (h, t)" by (cases x)
  with SelD assms show ?thesis
    by (auto simp: io_handle_def intro: update)
qed

section \<open>The invariant of the loop\<close>

definition loop_inv :: "('q, 'k) entries \<Rightarrow> clock \<Rightarrow> wire_api \<Rightarrow> ('s, 'q, 'k) io_loop \<Rightarrow> bool" where
  "loop_inv ent clk W lp \<longleftrightarrow>
     pool_inv ent clk (next_poll lp) (loop_pool lp) \<and> list_all (reply_ok W) (ingress_replies lp)"

text \<open>
  What the loop needs of the socket in addition: a reply to a packet of a unicast flow can be
  serialised, because it goes back between the two addresses of that packet.
\<close>

locale loop_stack = net_stack D ent in_range W A clk
  for D :: "('q, 'k) delay_api" and ent :: "('q, 'k) entries" and in_range :: "instant \<Rightarrow> bool"
    and W :: wire_api and A :: "'s tcp_api" and clk :: clock +
  assumes replies_lower: "unicast_tcp W ip \<Longrightarrow> sk_process A t ts ip repr = (Inr (Some x), t') \<Longrightarrow>
      \<exists>ip'. ip_lower W (fst x) = Inr ip'"
begin

lemma process_reply_ok:
  assumes "unicast_tcp W ip"
    and "SocketPool_process W A D listening now ip repr p = Done (Inr (Some x), p', eff)"
  shows "reply_ok W (PacketTcp x)"
proof -
  have conn: "reply_ok W (PacketTcp x)"
    if "Connection_process W A D ts ip repr c q = Done (Inr (Some x), c', q', ws)" for ts c q c' q' ws
    using that
  proof (cases rule: Connection_process_cases)
    case (accepted t1 p)
    with replies_lower [OF assms(1) accepted(2)] show ?thesis
      by (cases x) (auto simp: reply_ok_def)
  qed simp
  from assms(2) show ?thesis
    by (cases rule: SocketPool_process_cases) (auto intro: conn)
qed

lemma start_inv:
  assumes "io_start D now caps = Done lp" and "clk = Clock_new now"
  shows "loop_inv ent clk W lp" and "loop_ready lp"
proof -
  from assms have lp: "lp = \<lparr>interface = \<lparr>if_sockets = SocketPool_new caps (DispatchQueue_new D clk) clk,
      if_checksum_caps = checksum caps\<rparr>, capabilities = caps, ingress_replies = [], writing = Some [],
      selector = \<lparr>slot_a = None, slot_b = Some (replicate 2048 0), slot_c = Some (), slot_d = Some ()\<rparr>,
      next_poll = None\<rparr>"
    by (auto simp: io_start_def insert_b_def insert_c_def insert_d_def Selector_new_def Let_def)
  show "loop_inv ent clk W lp"
    using pool_new by (simp add: lp loop_inv_def loop_pool_def)
  show "loop_ready lp"
    by (simp add: lp loop_ready_def occupied_def)
qed

lemma egress_inv:
  assumes inv: "loop_inv ent clk W lp" and ready: "loop_ready lp"
    and call: "io_egress W A D now lp = Done (lp', eff)"
  shows "loop_inv ent clk W lp'" and "loop_ready lp'"
proof -
  have replies: "list_all (reply_ok W) (ingress_replies lp)"
    using inv by (simp add: loop_inv_def)
  from ready replies call show "loop_inv ent clk W lp'"
  proof (cases rule: io_egress_cases)
    case (dispatched h i b)
    from dispatched(4) obtain p where
      d: "SocketPool_dispatch W A D now [] h (loop_pool lp) = Done (b, p, eff)"
      and i: "i = (interface lp)\<lparr>if_sockets := p\<rparr>"
      unfolding loop_pool_def by (rule Interface_dispatch_cases)
    have "pool_inv ent clk None p"
      using dispatch_pool_inv [OF _ d] inv dispatched(3) by (simp add: loop_inv_def)
    with i dispatched show ?thesis
      by (simp add: loop_inv_def loop_pool_def)
  qed (use inv in \<open>auto simp: loop_inv_def\<close>)
  from ready replies call show "loop_ready lp'"
    by (cases rule: io_egress_cases) (use ready in \<open>auto simp: loop_ready_def occupied_def\<close>)
qed

lemma egress_panic_source:
  assumes inv: "loop_inv ent clk W lp" and ready: "loop_ready lp"
    and panic: "io_egress W A D now lp = Panicked p"
  shows "\<exists>h. next_poll lp = Some h \<and> SocketPool_dispatch W A D now [] h (loop_pool lp) = Panicked p"
proof (cases "writing lp")
  case None
  then show ?thesis
    using panic ready by (auto simp: io_egress_def loop_ready_def occupied_def Selector_b_def)
next
  case (Some b0)
  with ready have b0: "b0 = []" and slots: "slot_a (selector lp) = None" "slot_b (selector lp) \<noteq> None"
    by (auto simp: loop_ready_def occupied_def)
  show ?thesis
  proof (cases "ingress_replies lp")
    case (Cons r rs)
    with inv obtain b where "b \<noteq> []"
      "drain_replies W (checksum (capabilities lp)) (r # rs) [] = Done (rs, b)"
      using drain_one [of r "checksum (capabilities lp)" rs]
      by (auto simp: loop_inv_def simp del: drain_replies.simps)
    with panic Some Cons b0 slots show ?thesis
      by (auto simp: io_egress_def Selector_b_def insert_a_def)
  next
    case Nil
    with panic Some b0 slots show ?thesis
      by (auto simp: io_egress_def Selector_b_def insert_a_def Interface_dispatch_def loop_pool_def
          Let_def and_then_Panicked_iff split: option.splits if_splits)
  qed
qed

text \<open>The top of the loop panics in one situation only: the connection to dispatch is gone.\<close>

lemma egress_panics:
  assumes inv: "loop_inv ent clk W lp" and ready: "loop_ready lp"
    and panic: "io_egress W A D now lp = Panicked p"
  shows "p = DispatchAfterDrop \<and> \<not> set_option (next_poll lp) \<subseteq> dom (sp_sockets (loop_pool lp))"
proof -
  from egress_panic_source [OF assms] obtain h where h: "next_poll lp = Some h"
    and d: "SocketPool_dispatch W A D now [] h (loop_pool lp) = Panicked p"
    by blast
  have "sp_sockets (loop_pool lp) h = None"
    using dispatch_pool_no_panic [of "next_poll lp" "loop_pool lp" h now] inv d
    by (auto simp: loop_inv_def)
  with h d show ?thesis
    by (auto simp: SocketPool_dispatch_def)
qed

lemma wait_inv:
  assumes inv: "loop_inv ent clk W lp" and call: "io_wait D now lp w = Done (res, lp', w')"
  shows "case res of TimerExpired h \<Rightarrow> loop_inv ent clk W (lp'\<lparr>next_poll := Some h\<rparr>)
    | _ \<Rightarrow> loop_inv ent clk W lp'"
  using call
proof (cases rule: io_wait_cases)
  case (polled r q sel)
  have "pool_inv ent clk (case r of Ready h \<Rightarrow> Some h | Pending \<Rightarrow> None) ((loop_pool lp)\<lparr>sp_queue := q\<rparr>)"
    using inv polled(1) by (intro expire_pool_inv [OF _ polled(2)]) (simp add: loop_inv_def)
  with polled inv show ?thesis
    by (auto simp: loop_inv_def split: poll.splits)
qed (use inv in \<open>auto simp: loop_inv_def\<close>)

lemma wait_no_panic:
  assumes inv: "loop_inv ent clk W lp"
  shows "no_panic (io_wait D now lp w)"
  using DispatchQueue_poll_spec [of "sp_queue (loop_pool lp)" now] pool_invD(1) inv
  by (force simp: io_wait_def loop_inv_def Let_def split: prod.splits poll.splits)

lemma handle_inv:
  assumes inv: "loop_inv ent clk W lp"
    and call: "io_handle W A D listening now s lp = Done (res, lp', eff)"
  shows "loop_inv ent clk W lp'"
  using call
proof (cases rule: io_handle_cases)
  case (packet m buf r i sel)
  from packet(4) show ?thesis
  proof (cases rule: Interface_process_cases)
    case stopped
    with packet inv show ?thesis
      by (auto simp: loop_inv_def loop_pool_def)
  next
    case (pooled ip repr p)
    have "pool_inv ent clk (next_poll lp) p"
      using process_pool_inv [OF _ pooled(2)] inv by (simp add: loop_inv_def loop_pool_def)
    moreover have "list_all (reply_ok W) (case r of Inr (Some x) \<Rightarrow> [PacketTcp x] | _ \<Rightarrow> [])"
      using process_reply_ok [OF pooled(1)] pooled(2) by (auto split: sum.splits option.splits)
    ultimately show ?thesis
      using packet(7) pooled(3) inv by (simp add: loop_inv_def loop_pool_def)
  qed
next
  case (half h side p sel)
  with inv drop_pool_inv [OF _ half(2)] show ?thesis
    by (simp add: loop_inv_def)
next
  case (update h t q sel)
  with inv update_pool_inv [OF _ update(2)] show ?thesis
    by (simp add: loop_inv_def)
qed (use inv in \<open>auto simp: loop_inv_def\<close>)

lemma handle_packet_no_panic:
  assumes inv: "loop_inv ent clk W lp" and slot: "slot_b (selector lp) = None"
    and arg: "\<And>m. n = Inr m \<Longrightarrow> m \<le> length buf"
  shows "no_panic (io_handle W A D listening now (SelB (n, buf)) lp)"
proof (cases "\<exists>m. n = Inr m \<and> 0 < m")
  case True
  then obtain m where m: "n = Inr m" "0 < m" by blast
  with arg have "m \<le> length buf" by simp
  moreover obtain r i eff where
    "Interface_process W A D listening now (take m buf) (interface lp) = Done (r, i, eff)"
    using Interface_process_no_panic [of "next_poll lp" "interface lp" "take m buf"] inv m calculation
    by (fastforce simp: loop_inv_def loop_pool_def no_panic_iff)
  ultimately show ?thesis
    using slot m by (simp add: io_handle_def Let_def insert_b_def split: sum.split option.split)
next
  case False
  with slot show ?thesis
    by (auto simp: io_handle_def insert_b_def split: sum.split)
qed

lemma handle_no_panic:
  assumes inv: "loop_inv ent clk W lp"
    and occ: "occupied (selector lp) = vacate (Ready s) (a, True, True, True)"
    and arg: "case s of SelB (Inr m, buf) \<Rightarrow> m \<le> length buf
      | SelC (h, side) \<Rightarrow> h \<in> dom (sp_sockets (loop_pool lp))
      | SelD (h, t) \<Rightarrow> representable in_range clk t | _ \<Rightarrow> True"
  shows "no_panic (io_handle W A D listening now s lp)"
proof (cases s)
  case (SelA x)
  then show ?thesis
    by (auto simp: io_handle_def split: prod.splits sum.splits)
next
  case (SelB x)
  obtain n buf where x: "x = (n, buf)" by (cases x)
  have "slot_b (selector lp) = None"
    using occ SelB by (simp add: occupied_def)
  with arg SelB x show ?thesis
    by (auto intro!: handle_packet_no_panic [OF inv])
next
  case (SelC x)
  obtain h side where x: "x = (h, side)" by (cases x)
  have "no_panic (insert_c () (selector lp))"
    using occ SelC by (simp add: insert_no_panic)
  moreover have "no_panic (SocketPool_drop_tcp_half A D h side (loop_pool lp))"
    using inv arg SelC x by (auto simp: loop_inv_def intro: drop_pool_no_panic)
  ultimately show ?thesis
    using SelC x by (auto simp: io_handle_def no_panic_iff)
next
  case (SelD x)
  obtain h t where x: "x = (h, t)" by (cases x)
  have "no_panic (insert_d () (selector lp))"
    using occ SelD by (simp add: insert_no_panic)
  moreover have "no_panic (DispatchQueue_send D (sp_queue (loop_pool lp)) h t)"
    using inv arg SelD x pool_invD(1,2) [of ent clk "next_poll lp" "loop_pool lp"]
    by (auto simp: loop_inv_def intro: DispatchQueue_send_no_panic)
  ultimately show ?thesis
    using SelD x by (auto simp: io_handle_def no_panic_iff)
qed

end

lemma handle_ready:
  assumes call: "io_handle W A D listening now s lp = Done (Inr (), lp', eff)"
    and occ: "occupied (selector lp) = vacate (Ready s) (writing lp = None, True, True, True)"
    and buf: "writing lp = None \<or> writing lp = Some []"
  shows "loop_ready lp'"
  using call
  by (cases rule: io_handle_cases)
    (use occ buf in \<open>auto simp: loop_ready_def dest!: insert_occupied\<close>)

section \<open>The laws hold for the sample libraries\<close>

lemma sample_replies:
  assumes "unicast_tcp W ip" and "sk_process sample_tcp t ts ip repr = (Inr (Some x), t')"
  shows "\<exists>ip'. ip_lower sample_wire (fst x) = Inr ip'"
  using assms
  by (cases ip) (auto simp: sample_tcp_def sample_wire_def sock_process_def split: if_splits)

interpretation sample: loop_stack slab_api map_of "\<lambda>_. True" sample_wire sample_tcp "Clock_new 0"
  by unfold_locales (auto intro: sample_replies)

section \<open>Properties of the loop\<close>

text \<open>
  Waiting serves its sources in a fixed order: the finished write, then a packet from the
  device, then the report of a dropped half, then an update of a polling time. It takes one message,
  from the front of its channel, and leaves the others in place; a source is passed over only when
  it has nothing, so nothing is lost and nothing is taken twice.
\<close>

theorem wait_serves_in_order:
  assumes "select_poll write_future read_future recv_close recv_poll sel w = (r, sel', w')"
    and "occupied sel = (a, True, True, True)"
  shows "case r of
      Ready (SelA (n, b)) \<Rightarrow> dev_write w = Some n \<and> slot_a sel = Some b
        \<and> closing w' = closing w \<and> poll_recv w' = poll_recv w
    | Ready (SelB (n, b)) \<Rightarrow> (a \<longrightarrow> dev_write w = None) \<and> (\<forall>m. n = Inr m \<longrightarrow> m \<le> length b)
        \<and> closing w' = closing w \<and> poll_recv w' = poll_recv w
    | Ready (SelC m) \<Rightarrow> (a \<longrightarrow> dev_write w = None) \<and> dev_read w = None
        \<and> closing w = m # closing w' \<and> poll_recv w' = poll_recv w
    | Ready (SelD m) \<Rightarrow> (a \<longrightarrow> dev_write w = None) \<and> dev_read w = None
        \<and> closing w = [] \<and> closing w' = [] \<and> poll_recv w = m # poll_recv w'
    | Pending \<Rightarrow> (a \<longrightarrow> dev_write w = None) \<and> dev_read w = None
        \<and> closing w = [] \<and> closing w' = [] \<and> poll_recv w = [] \<and> poll_recv w' = []"
  using assms by (rule select_takes)

abbreviation sample_selector :: "(bytes, bytes, unit, unit) selector" where
  "sample_selector \<equiv> \<lparr>slot_a = None, slot_b = Some [0, 0], slot_c = Some (), slot_d = Some ()\<rparr>"

theorem wait_serves_in_order_witness:
  "\<exists>sel' w'. select_poll write_future read_future recv_close recv_poll sample_selector
      \<lparr>dev_write = None, dev_read = None, closing = [(sample_handle, CloseRead)], poll_recv = [(sample_handle, Now)]\<rparr> =
      (Ready (SelC (sample_handle, CloseRead)), sel', w') \<and> closing w' = [] \<and> poll_recv w' = [(sample_handle, Now)]"
proof -
  have call: "select_poll write_future read_future recv_close recv_poll sample_selector
      \<lparr>dev_write = None, dev_read = None, closing = [(sample_handle, CloseRead)], poll_recv = [(sample_handle, Now)]\<rparr> =
      (Ready (SelC (sample_handle, CloseRead)), sample_selector\<lparr>slot_c := None\<rparr>,
       \<lparr>dev_write = None, dev_read = None, closing = [], poll_recv = [(sample_handle, Now)]\<rparr>)"
    by (simp add: select_poll_def poll_slot_def future_defs)
  from wait_serves_in_order [OF call] call show ?thesis
    by (auto simp: occupied_def)
qed

text \<open>
  The top of the loop sends the newest waiting reply first, one per round: its bytes go to
  the writer, the other replies keep waiting, and the connections are not touched. Only when no
  reply waits is the connection dispatched whose timer expired.
\<close>

theorem replies_before_timers:
  assumes "packet_emitters W" and "loop_ready lp" and "list_all (reply_ok W) (ingress_replies lp)"
    and "io_egress W A D now lp = Done (lp', eff)" and "writing lp = Some []"
  shows "case ingress_replies lp of
      r # rs \<Rightarrow> (\<exists>b. packet_to_bytes W r [] (checksum (capabilities lp)) = Done (Inr (), b)
          \<and> slot_a (selector lp') = Some b) \<and> ingress_replies lp' = rs \<and> writing lp' = None
        \<and> interface lp' = interface lp \<and> next_poll lp' = next_poll lp
    | [] \<Rightarrow> next_poll lp' = None \<and> (case next_poll lp of
          None \<Rightarrow> lp' = lp
        | Some h \<Rightarrow> \<exists>b. Interface_dispatch W A D now [] h (interface lp) = Done (b, interface lp', eff)
            \<and> slot_a (selector lp') = (if b = [] then None else Some b))"
  using assms(1-4) by (rule packet_emitters.io_egress_cases) (use assms(5) in simp_all)

abbreviation sample_reply :: ip_packet where
  "sample_reply \<equiv> PacketTcp (IpReprUnspecified (Ipv4 (10, 0, 0, 2)) (Ipv4 (10, 0, 0, 1)) [], syn_tcp)"

abbreviation sample_loop :: "(sock, slab, nat) io_loop" where
  "sample_loop \<equiv> \<lparr>interface = sample_if, capabilities = sample_caps, ingress_replies = [sample_reply],
     writing = Some [], selector = sample_selector, next_poll = None\<rparr>"

lemma sample_reply_ok: "list_all (reply_ok sample_wire) (ingress_replies sample_loop)"
  by (simp add: reply_ok_def sample_wire_def)

lemma sample_loop_ready: "loop_ready sample_loop"
  by (simp add: loop_ready_def occupied_def)

theorem replies_before_timers_witness:
  "\<exists>lp' eff. io_egress sample_wire sample_tcp slab_api 3 sample_loop = Done (lp', eff)
     \<and> ingress_replies lp' = [] \<and> writing lp' = None"
proof -
  have "loop_inv map_of (Clock_new 0) sample_wire sample_loop"
    using sample_net.pool_new [of None sample_caps] sample_reply_ok
    by (simp add: loop_inv_def loop_pool_def)
  from sample.egress_panic_source [OF this sample_loop_ready]
  obtain lp' eff where call: "io_egress sample_wire sample_tcp slab_api 3 sample_loop = Done (lp', eff)"
    by (cases "io_egress sample_wire sample_tcp slab_api 3 sample_loop") auto
  with replies_before_timers [OF sample_emit.packet_emitters_axioms sample_loop_ready sample_reply_ok call]
  show ?thesis by simp
qed

end
