(* ===== verification/Reachability.thy ===== *)
theory Reachability
  imports Prelude
begin

text \<open>
  Executions of a system given by a step function: an event is not enabled (\<open>None\<close>), panics, or
  leads to the next state. A state is reachable over events of a kind that \<open>ok\<close> allows.
  The locale \<open>invariant_system\<close> is the one place where an invariant is lifted from steps to
  reachable states and to whole runs.
\<close>

type_synonym ('e, 's) stepper = "'e \<Rightarrow> 's \<Rightarrow> 's outcome option"

inductive reach :: "('e, 's) stepper \<Rightarrow> ('e \<Rightarrow> 's \<Rightarrow> bool) \<Rightarrow> 's \<Rightarrow> 's \<Rightarrow> bool"
  for exec :: "('e, 's) stepper" and ok :: "'e \<Rightarrow> 's \<Rightarrow> bool" and s0 :: 's where
  start: "reach exec ok s0 s0"
| step: "reach exec ok s0 s \<Longrightarrow> ok e s \<Longrightarrow> exec e s = Some (Done s') \<Longrightarrow> reach exec ok s0 s'"

inductive_cases reach_cases: "reach exec ok s0 s"

text \<open>A run of a list of events; it stops at a panic and fails where an event is not enabled.\<close>

fun run_events :: "('e, 's) stepper \<Rightarrow> 'e list \<Rightarrow> 's \<Rightarrow> 's outcome option" where
  "run_events exec [] s = Some (Done s)"
| "run_events exec (e # es) s =
     (case exec e s of
        None \<Rightarrow> None
      | Some (Panicked p) \<Rightarrow> Some (Panicked p)
      | Some (Done s') \<Rightarrow> run_events exec es s')"

lemma reach_mono:
  assumes "reach exec ok s0 s" and "\<And>e s. ok e s \<Longrightarrow> ok' e s"
  shows "reach exec ok' s0 s"
  using assms(1) by (induction rule: reach.induct) (auto intro: reach.intros assms(2))

lemma reach_trans:
  assumes "reach exec ok s1 s2" and "reach exec ok s0 s1"
  shows "reach exec ok s0 s2"
  using assms by (induction rule: reach.induct) (auto intro: reach.intros)

lemma reach_one: "exec e s = Some (Done s') \<Longrightarrow> reach exec (\<lambda>_ _. True) s s'"
  by (rule reach.step [OF reach.start]) simp_all

lemma run_events_reach_ok:
  assumes "\<And>e s r. e \<in> set es \<Longrightarrow> exec e s = Some r \<Longrightarrow> ok e s"
    and "run_events exec es s = Some (Done s')"
  shows "reach exec ok s s'"
  using assms
proof (induction es arbitrary: s)
  case Nil
  then show ?case by (simp add: reach.start)
next
  case (Cons e es)
  then obtain s1 where s1: "exec e s = Some (Done s1)" and rest: "run_events exec es s1 = Some (Done s')"
    by (auto split: option.splits outcome.splits)
  have "reach exec ok s s1"
    using reach.start by (rule reach.step) (use s1 Cons.prems(1) in auto)
  moreover have "reach exec ok s1 s'"
    using _ rest by (rule Cons.IH) (auto intro: Cons.prems(1))
  ultimately show ?case
    by (rule reach_trans [rotated])
qed

lemma run_events_reach:
  assumes "run_events exec es s = Some (Done s')"
  shows "reach exec (\<lambda>_ _. True) s s'"
  by (rule run_events_reach_ok [OF _ assms]) simp

text \<open>Every event of a run is allowed in the state in which it happens.\<close>

fun all_allowed :: "('e, 's) stepper \<Rightarrow> ('e \<Rightarrow> 's \<Rightarrow> bool) \<Rightarrow> 'e list \<Rightarrow> 's \<Rightarrow> bool" where
  "all_allowed exec ok [] s \<longleftrightarrow> True"
| "all_allowed exec ok (e # es) s \<longleftrightarrow> ok e s \<and>
     (case exec e s of Some (Done s') \<Rightarrow> all_allowed exec ok es s' | _ \<Rightarrow> True)"

lemma all_allowed_reach:
  assumes "run_events exec es s = Some (Done s')" and "all_allowed exec ok es s"
  shows "reach exec ok s s'"
  using assms
proof (induction es arbitrary: s)
  case (Cons e es)
  then obtain s1 where s1: "exec e s = Some (Done s1)" "ok e s" and "reach exec ok s1 s'"
    by (auto split: option.splits outcome.splits)
  then show ?case
    by (blast intro: reach_trans reach.step [OF reach.start])
qed (simp add: reach.start)

lemma run_events_append:
  "run_events exec (es @ fs) s =
     (case run_events exec es s of
        Some (Done s') \<Rightarrow> run_events exec fs s'
      | r \<Rightarrow> r)"
  by (induction es arbitrary: s) (auto split: option.splits outcome.splits)

locale invariant_system =
  fixes exec :: "('e, 's) stepper"
    and ok :: "'e \<Rightarrow> 's \<Rightarrow> bool"
    and inv :: "'s \<Rightarrow> bool"
  assumes step_inv: "inv s \<Longrightarrow> ok e s \<Longrightarrow> exec e s = Some (Done s') \<Longrightarrow> inv s'"
begin

lemma reach_inv: "reach exec ok s0 s \<Longrightarrow> inv s0 \<Longrightarrow> inv s"
  by (induction rule: reach.induct) (auto intro: step_inv)

end

text \<open>An invariant under which no allowed event panics.\<close>

locale safe_system = invariant_system +
  assumes step_safe: "inv s \<Longrightarrow> ok e s \<Longrightarrow> exec e s = Some r \<Longrightarrow> no_panic r"
begin

lemma reach_safe:
  assumes "reach exec ok s0 s" and "inv s0" and "ok e s"
  shows "exec e s \<noteq> Some (Panicked p)"
  using step_safe [OF reach_inv [OF assms(1,2)] assms(3)] by auto

end

end
