(* ===== verification/System.thy ===== *)
theory System
  imports Io_Loop Reachability
begin

text \<open>
  The whole system: the loop, the two channels into it, and the halves of the streams the
  application holds. An event is one atomic action of the loop's task or of the application; any
  interleaving of them is a run. The actions on a socket are atomic because they hold its lock.

  The halves reach the cells they share with the loop through the connection in the pool.
\<close>

section \<open>State and events\<close>

record ('s, 'q, 'k) sys =
  loop :: "('s, 'q, 'k) io_loop"
  at_top :: bool
  running :: bool
  listening :: bool
  closings :: "close_msg list"
  updates :: "poll_update list"
  readers :: "addr_pair \<rightharpoonup> read_half"
  writers :: "addr_pair \<rightharpoonup> write_half"

datatype event =
    Egress instant
  | Select instant "(io_error, nat) result option" "(io_error, bytes) result option"
  | AppRead addr_pair bool waker bytes
  | AppWrite addr_pair bool waker bytes
  | AppClose addr_pair bool
  | DropReader addr_pair
  | DropWriter addr_pair
  | DropListener

definition sys_start ::
    "('q, 'k) delay_api \<Rightarrow> instant \<Rightarrow> device_capabilities \<Rightarrow> ('s, 'q, 'k) sys outcome" where
  "sys_start D now caps =
     and_then (io_start D now caps) (\<lambda>l.
       Done \<lparr>loop = l, at_top = True, running = True, listening = True,
             closings = shutdown_channel, updates = [], readers = Map.empty, writers = Map.empty\<rparr>)"

definition sockets_of :: "('s, 'q, 'k) sys \<Rightarrow> (addr_pair \<rightharpoonup> 's connection)" where
  "sockets_of s = sp_sockets (loop_pool (loop s))"

definition set_connection :: "addr_pair \<Rightarrow> 's connection \<Rightarrow> ('s, 'q, 'k) sys \<Rightarrow> ('s, 'q, 'k) sys" where
  "set_connection h c s =
     s\<lparr>loop := set_pool ((loop_pool (loop s))\<lparr>sp_sockets := (sockets_of s)(h \<mapsto> c)\<rparr>) (loop s)\<rparr>"

definition apply_effects :: "effects \<Rightarrow> ('s, 'q, 'k) sys \<Rightarrow> ('s, 'q, 'k) sys" where
  "apply_effects eff s =
     s\<lparr>closings := closings s @ close_msgs eff,
       readers := fold (\<lambda>st m. m(ts_addr st \<mapsto> ts_reader st)) (new_streams eff) (readers s),
       writers := fold (\<lambda>st m. m(ts_addr st \<mapsto> ts_writer st)) (new_streams eff) (writers s)\<rparr>"

section \<open>Steps\<close>

definition step_egress ::
    "wire_api \<Rightarrow> 's tcp_api \<Rightarrow> ('q, 'k) delay_api \<Rightarrow> instant \<Rightarrow> ('s, 'q, 'k) sys \<Rightarrow>
     ('s, 'q, 'k) sys outcome" where
  "step_egress W A D now s =
     and_then (io_egress W A D now (loop s)) (\<lambda>(l, eff).
       Done (apply_effects eff (s\<lparr>loop := l, at_top := False\<rparr>)))"

definition step_select ::
    "wire_api \<Rightarrow> 's tcp_api \<Rightarrow> ('q, 'k) delay_api \<Rightarrow> instant \<Rightarrow> (io_error, nat) result option \<Rightarrow>
     (io_error, bytes) result option \<Rightarrow> ('s, 'q, 'k) sys \<Rightarrow> ('s, 'q, 'k) sys outcome" where
  "step_select W A D now wr rd s =
     and_then (io_wait D now (loop s)
         \<lparr>dev_write = wr, dev_read = rd, closing = closings s, poll_recv = updates s\<rparr>)
       (\<lambda>(r, l, w).
         let s1 = s\<lparr>loop := l, closings := closing w, updates := poll_recv w\<rparr>
         in case r of
              Blocked \<Rightarrow> Done s1
            | TimerExpired h \<Rightarrow> Done (s1\<lparr>loop := l\<lparr>next_poll := Some h\<rparr>, at_top := True\<rparr>)
            | Chosen c \<Rightarrow>
                and_then (io_handle W A D (listening s) now c l) (\<lambda>(res, l', eff).
                  Done (apply_effects eff
                    (case res of
                       Inl e \<Rightarrow> s1\<lparr>loop := l', running := False\<rparr>
                     | Inr _ \<Rightarrow> s1\<lparr>loop := l', at_top := True\<rparr>))))"

definition step_read ::
    "'s tcp_api \<Rightarrow> addr_pair \<Rightarrow> bool \<Rightarrow> waker \<Rightarrow> bytes \<Rightarrow> read_half \<Rightarrow> 's connection \<Rightarrow>
     ('s, 'q, 'k) sys \<Rightarrow> ('s, 'q, 'k) sys outcome" where
  "step_read A h lock_free wk buf rh c s =
     (case ReadHalf_poll_read_inner A lock_free wk buf rh (socket c) (read_readiness (rw c)) of
        (r, buf', rh', inn, sh) \<Rightarrow>
          Done (set_connection h (c\<lparr>socket := inn, rw := (rw c)\<lparr>read_readiness := sh\<rparr>\<rparr>)
            (s\<lparr>readers := (readers s)(h \<mapsto> rh')\<rparr>)))"

definition step_write ::
    "'s tcp_api \<Rightarrow> addr_pair \<Rightarrow> bool \<Rightarrow> waker \<Rightarrow> bytes \<Rightarrow> write_half \<Rightarrow> 's connection \<Rightarrow>
     ('s, 'q, 'k) sys \<Rightarrow> ('s, 'q, 'k) sys outcome" where
  "step_write A h lock_free wk buf wh c s =
     and_then (WriteHalf_poll_write_inner A (running s) lock_free wk buf wh (socket c) (write_readiness (rw c)))
       (\<lambda>(r, inn, sh, ms).
         Done (set_connection h (c\<lparr>socket := inn, rw := (rw c)\<lparr>write_readiness := sh\<rparr>\<rparr>)
           (s\<lparr>updates := updates s @ ms\<rparr>)))"

definition step_close ::
    "'s tcp_api \<Rightarrow> addr_pair \<Rightarrow> bool \<Rightarrow> write_half \<Rightarrow> 's connection \<Rightarrow>
     ('s, 'q, 'k) sys \<Rightarrow> ('s, 'q, 'k) sys outcome" where
  "step_close A h lock_free wh c s =
     and_then (WriteHalf_poll_close_inner A (running s) lock_free wh (socket c))
       (\<lambda>(r, inn, ms).
         Done (set_connection h (c\<lparr>socket := inn\<rparr>) (s\<lparr>updates := updates s @ ms\<rparr>)))"

text \<open>An event is enabled when the actor exists; then it may still panic.\<close>

fun exec ::
    "wire_api \<Rightarrow> 's tcp_api \<Rightarrow> ('q, 'k) delay_api \<Rightarrow> (event, ('s, 'q, 'k) sys) stepper" where
  "exec W A D (Egress now) s =
     (if running s \<and> at_top s then Some (step_egress W A D now s) else None)"
| "exec W A D (Select now wr rd) s =
     (if running s \<and> \<not> at_top s then Some (step_select W A D now wr rd s) else None)"
| "exec W A D (AppRead h lock_free wk buf) s =
     (case (readers s h, sockets_of s h) of
        (Some rh, Some c) \<Rightarrow> Some (step_read A h lock_free wk buf rh c s)
      | _ \<Rightarrow> None)"
| "exec W A D (AppWrite h lock_free wk buf) s =
     (case (writers s h, sockets_of s h) of
        (Some wh, Some c) \<Rightarrow> Some (step_write A h lock_free wk buf wh c s)
      | _ \<Rightarrow> None)"
| "exec W A D (AppClose h lock_free) s =
     (case (writers s h, sockets_of s h) of
        (Some wh, Some c) \<Rightarrow> Some (step_close A h lock_free wh c s)
      | _ \<Rightarrow> None)"
| "exec W A D (DropReader h) s =
     (case readers s h of
        Some rh \<Rightarrow>
          Some (and_then (ReadHalf_drop (running s) rh) (\<lambda>ms.
            Done (s\<lparr>closings := closings s @ ms, readers := (readers s)(h := None)\<rparr>)))
      | None \<Rightarrow> None)"
| "exec W A D (DropWriter h) s =
     (case writers s h of
        Some wh \<Rightarrow>
          Some (and_then (WriteHalf_drop (running s) wh) (\<lambda>ms.
            Done (s\<lparr>closings := closings s @ ms, writers := (writers s)(h := None)\<rparr>)))
      | None \<Rightarrow> None)"
| "exec W A D DropListener s = Some (Done (s\<lparr>listening := False\<rparr>))"

end
