(* ===== verification/Handover.thy ===== *)
theory Handover
  imports System
begin

text \<open>
  The creation of a connection in two parts. \<open>SocketPool::create_syn\<close> sends the stream of a new
  connection to the listener and waits there when the channel is full; only afterwards is the
  connection put into the pool and the packet processed. \<open>opens_connection\<close> is the first part: it
  tells whether the packet that a round of the loop receives opens a connection, and with which
  socket. The theory shows that a round on such a packet is the same as putting the connection into
  the pool first and then running the round, with the stream handed out.
\<close>

section \<open>Does the packet open a connection?\<close>

text \<open>The headers that the packet path passes to the pool.\<close>

definition tcp_headers :: "wire_api \<Rightarrow> checksum_caps \<Rightarrow> ip_repr \<Rightarrow> bytes \<Rightarrow> tcp_packet option" where
  "tcp_headers W caps ip payload =
     (case tcp_new_checked W payload of
        Inl e \<Rightarrow> None
      | Inr b \<Rightarrow>
          (case tcp_parse W b (ip_src_addr ip) (ip_dst_addr ip) caps of
             Inl e \<Rightarrow> None
           | Inr repr \<Rightarrow> Some (ip, repr)))"

definition ipv4_headers :: "wire_api \<Rightarrow> checksum_caps \<Rightarrow> bytes \<Rightarrow> tcp_packet option" where
  "ipv4_headers W caps payload =
     (case v4_new_checked W payload of
        Inl e \<Rightarrow> None
      | Inr b \<Rightarrow>
          (case v4_parse W b caps of
             Inl e \<Rightarrow> None
           | Inr repr \<Rightarrow>
               if v4_is_unicast W (v4_src_addr repr) \<and> v4_protocol repr = ProtoTcp
               then tcp_headers W caps (IpReprV4 repr) (v4_payload W b) else None))"

definition ipv6_headers :: "wire_api \<Rightarrow> checksum_caps \<Rightarrow> bytes \<Rightarrow> tcp_packet option" where
  "ipv6_headers W caps payload =
     (case v6_new_checked W payload of
        Inl e \<Rightarrow> None
      | Inr b \<Rightarrow>
          (case v6_parse W b of
             Inl e \<Rightarrow> None
           | Inr repr \<Rightarrow>
               if v6_is_unicast W (v6_src_addr repr) \<and> v6_next_header repr = ProtoTcp
               then tcp_headers W caps (IpReprV6 repr) (v6_payload W b) else None))"

definition packet_headers :: "wire_api \<Rightarrow> checksum_caps \<Rightarrow> bytes \<Rightarrow> tcp_packet option" where
  "packet_headers W caps packet =
     (case packet of
        [] \<Rightarrow> None
      | b # bs \<Rightarrow>
          if b div 16 = 4 then ipv4_headers W caps packet
          else if b div 16 = 6 then ipv6_headers W caps packet
          else None)"

text \<open>The part of the processing that precedes the send to the listener.\<close>

definition new_connection ::
    "wire_api \<Rightarrow> 's tcp_api \<Rightarrow> ('s, 'q, 'k) interface \<Rightarrow> bytes \<Rightarrow> (addr_pair \<times> 's) option" where
  "new_connection W A i packet =
     (case packet_headers W (if_checksum_caps i) packet of
        None \<Rightarrow> None
      | Some (ip, repr) \<Rightarrow>
          (case packet_pair W ip repr of
             Inl e \<Rightarrow> None
           | Inr pair \<Rightarrow>
               if sp_sockets (if_sockets i) pair = None \<and> control repr = CtlSyn \<and> ack_number repr = None
               then (case open_socket A (local_side pair) of
                       Inl e \<Rightarrow> None
                     | Inr t \<Rightarrow> Some (pair, t))
               else None))"

definition opens_connection ::
    "wire_api \<Rightarrow> 's tcp_api \<Rightarrow> (io_error, nat) result option \<Rightarrow> (io_error, bytes) result option \<Rightarrow>
     ('s, 'q, 'k) io_loop \<Rightarrow> (addr_pair \<times> 's) option" where
  "opens_connection W A wr rd l =
     (case select_poll write_future read_future recv_close recv_poll (selector l)
         \<lparr>dev_write = wr, dev_read = rd, closing = [], poll_recv = []\<rparr> of
        (Ready (SelB (Inr m, buf)), sel, w) \<Rightarrow>
          if 0 < m \<and> m \<le> length buf then new_connection W A (interface l) (take m buf) else None
      | _ \<Rightarrow> None)"

text \<open>The loop with a connection put into its pool.\<close>

definition put_connection :: "addr_pair \<Rightarrow> 's connection \<Rightarrow> ('s, 'q, 'k) io_loop \<Rightarrow> ('s, 'q, 'k) io_loop" where
  "put_connection h c l = set_pool ((loop_pool l)\<lparr>sp_sockets := (sp_sockets (loop_pool l))(h \<mapsto> c)\<rparr>) l"

section \<open>The packet path by its headers\<close>

lemma process_tcp_headers:
  assumes "tcp_headers W (if_checksum_caps i) ip payload = Some (ip', repr)"
  shows "process_tcp W A D lst now ip payload i =
    and_then (SocketPool_process W A D lst now ip' repr (if_sockets i))
      (\<lambda>(r, p, eff). Done (r, i\<lparr>if_sockets := p\<rparr>, eff))"
  using assms by (auto simp: tcp_headers_def process_tcp_def split: sum.splits)

lemma process_ipv4_headers:
  assumes "ipv4_headers W (if_checksum_caps i) packet = Some (ip, repr)"
  shows "process_ipv4 W A D lst now packet i =
    and_then (SocketPool_process W A D lst now ip repr (if_sockets i))
      (\<lambda>(r, p, eff). Done (r, i\<lparr>if_sockets := p\<rparr>, eff))"
  using assms
  by (auto simp: ipv4_headers_def process_ipv4_def split: sum.splits if_splits intro: process_tcp_headers)

lemma process_ipv6_headers:
  assumes "ipv6_headers W (if_checksum_caps i) packet = Some (ip, repr)"
  shows "process_ipv6 W A D lst now packet i =
    and_then (SocketPool_process W A D lst now ip repr (if_sockets i))
      (\<lambda>(r, p, eff). Done (r, i\<lparr>if_sockets := p\<rparr>, eff))"
  using assms
  by (auto simp: ipv6_headers_def process_ipv6_def split: sum.splits if_splits intro: process_tcp_headers)

lemma Interface_process_headers:
  assumes "packet_headers W (if_checksum_caps i) packet = Some (ip, repr)"
  shows "Interface_process W A D lst now packet i =
    and_then (SocketPool_process W A D lst now ip repr (if_sockets i))
      (\<lambda>(r, p, eff). Done (r, i\<lparr>if_sockets := p\<rparr>, eff))"
  using assms process_ipv4_headers process_ipv6_headers
  by (cases packet) (auto simp: packet_headers_def Interface_process_def Let_def split: if_splits)

section \<open>A round that opens a connection\<close>

lemma new_connection_headers:
  assumes "new_connection W A i packet = Some (h, t)"
  obtains ip repr where
    "packet_headers W (if_checksum_caps i) packet = Some (ip, repr)" "packet_pair W ip repr = Inr h"
    "sp_sockets (if_sockets i) h = None" "control repr = CtlSyn" "ack_number repr = None"
    "open_socket A (local_side h) = Inr t"
  using assms by (auto simp: new_connection_def split: option.splits sum.splits if_splits)

lemma new_connection_process:
  assumes "new_connection W A i packet = Some (h, t)"
  defines "c \<equiv> snd (TcpStream_new t h)"
  shows "Interface_process W A D True now packet i =
    and_then (Interface_process W A D True now packet
        (i\<lparr>if_sockets := (if_sockets i)\<lparr>sp_sockets := (sp_sockets (if_sockets i))(h \<mapsto> c)\<rparr>\<rparr>))
      (\<lambda>(r, i', eff). Done (r, i', eff\<lparr>new_streams := new_streams eff @ [fst (TcpStream_new t h)]\<rparr>))"
proof -
  from assms(1) obtain ip repr where
    hd: "packet_headers W (if_checksum_caps i) packet = Some (ip, repr)" "packet_pair W ip repr = Inr h"
    and new: "sp_sockets (if_sockets i) h = None" "control repr = CtlSyn" "ack_number repr = None"
      "open_socket A (local_side h) = Inr t"
    by (rule new_connection_headers)
  show ?thesis
    using hd new
    by (simp add: Interface_process_headers [OF hd(1)]
        Interface_process_headers [where i = "i\<lparr>if_sockets := p\<rparr>" for p] SocketPool_process_eq
        and_then_assoc case_prod_beta c_def no_effects_def)
qed

text \<open>Once the connection is in the pool, the packet opens no other.\<close>

lemma known_connection_process:
  assumes "packet_headers W (if_checksum_caps i) packet = Some (ip, repr)" "packet_pair W ip repr = Inr h"
    and "sp_sockets (if_sockets i) h = Some c"
    and "Interface_process W A D lst now packet i = Done (r, i', eff)"
  shows "new_streams eff = []"
  using assms(2-4)
  by (auto simp: Interface_process_headers [OF assms(1)] SocketPool_process_eq no_effects_def split: if_splits)

lemma opens_connection_select:
  assumes occ: "occupied (selector l) = (a, True, True, True)"
    and "opens_connection W A wr rd l = Some (h, t)"
  obtains m buf sel where
    "select_poll write_future read_future recv_close recv_poll (selector l)
       \<lparr>dev_write = wr, dev_read = rd, closing = cs, poll_recv = us\<rparr> =
     (Ready (SelB (Inr m, buf)), sel, \<lparr>dev_write = wr, dev_read = None, closing = cs, poll_recv = us\<rparr>)"
    "0 < m" "m \<le> length buf" "new_connection W A (interface l) (take m buf) = Some (h, t)"
proof -
  obtain b where slots: "slot_b (selector l) = Some b" "slot_c (selector l) \<noteq> None" "slot_d (selector l) \<noteq> None"
    using occ by (auto simp: occupied_def)
  have quiet: "slot_a (selector l) = None \<or> wr = None"
    using assms(2) by (cases "slot_a (selector l)"; cases wr)
      (auto simp: opens_connection_def select_poll_def poll_slot_def write_future_def)
  obtain data where rd: "rd = Some (Inr data)"
    using assms(2) slots quiet
    by (cases rd; cases "slot_a (selector l)")
      (auto simp: opens_connection_def select_poll_def poll_slot_def future_defs split: sum.splits)
  show thesis
    using that assms(2) slots quiet unfolding rd
    by (cases "slot_a (selector l)")
      (auto simp: opens_connection_def select_poll_def poll_slot_def future_defs Let_def split: if_splits)
qed

lemma put_connection_simps [simp]:
  "selector (put_connection h c l) = selector l" "next_poll (put_connection h c l) = next_poll l"
  "ingress_replies (put_connection h c l) = ingress_replies l"
  "writing (put_connection h c l) = writing l" "capabilities (put_connection h c l) = capabilities l"
  "interface (put_connection h c l) = (interface l)\<lparr>if_sockets :=
     (if_sockets (interface l))\<lparr>sp_sockets := (sp_sockets (if_sockets (interface l)))(h \<mapsto> c)\<rparr>\<rparr>"
  by (simp_all add: put_connection_def set_pool_def loop_pool_def)

lemma put_connection_selector:
  "(put_connection h c l)\<lparr>selector := sel\<rparr> = put_connection h c (l\<lparr>selector := sel\<rparr>)"
  by (simp add: put_connection_def set_pool_def loop_pool_def)

lemma set_connection_loop: "set_connection h c s = s\<lparr>loop := put_connection h c (loop s)\<rparr>"
  by (simp add: set_connection_def put_connection_def sockets_of_def)

lemma new_connection_handle:
  assumes "new_connection W A (interface l) (take m buf) = Some (h, t)" "0 < m" "m \<le> length buf"
  shows "io_handle W A D True now (SelB (Inr m, buf)) l =
    and_then (io_handle W A D True now (SelB (Inr m, buf)) (put_connection h (snd (TcpStream_new t h)) l))
      (\<lambda>(r, l', eff). Done (r, l', eff\<lparr>new_streams := new_streams eff @ [fst (TcpStream_new t h)]\<rparr>))"
  using assms(2,3)
  by (auto simp: io_handle_def new_connection_process [OF assms(1)] and_then_assoc case_prod_beta Let_def
      put_connection_def set_pool_def loop_pool_def intro!: arg_cong2 [where f = and_then] ext
      split: sum.split option.split)

lemma known_connection_handle:
  assumes "new_connection W A (interface l) (take m buf) = Some (h, t)"
    and "io_handle W A D lst now (SelB (Inr m, buf)) (put_connection h c l) = Done (r, l', eff)"
  shows "new_streams eff = []"
proof -
  from assms(1) obtain ip repr where
    "packet_headers W (if_checksum_caps (interface l)) (take m buf) = Some (ip, repr)" "packet_pair W ip repr = Inr h"
    by (rule new_connection_headers)
  with assms(2) show ?thesis
    by (auto simp: io_handle_def Let_def no_effects_def split: if_splits
        dest!: known_connection_process [rotated 3])
qed

text \<open>
  A round that opens a connection is the round on the state in which the connection is in the pool
  already and the halves of its stream exist.
\<close>

lemma opens_connection_step:
  assumes occ: "occupied (selector (loop s)) = (a, True, True, True)" and "listening s"
    and opens: "opens_connection W A wr rd (loop s) = Some (h, t)"
  defines "st \<equiv> fst (TcpStream_new t h)"
  shows "step_select W A D now wr rd s =
    step_select W A D now wr rd (set_connection h (snd (TcpStream_new t h))
      (s\<lparr>readers := (readers s)(h \<mapsto> ts_reader st), writers := (writers s)(h \<mapsto> ts_writer st)\<rparr>))"
proof -
  let ?c = "snd (TcpStream_new t h)"
  let ?s = "set_connection h ?c
      (s\<lparr>readers := (readers s)(h \<mapsto> ts_reader st), writers := (writers s)(h \<mapsto> ts_writer st)\<rparr>)"
  from occ opens obtain m buf sel where
    sel: "select_poll write_future read_future recv_close recv_poll (selector (loop s))
       \<lparr>dev_write = wr, dev_read = rd, closing = closings s, poll_recv = updates s\<rparr> =
     (Ready (SelB (Inr m, buf)), sel, \<lparr>dev_write = wr, dev_read = None, closing = closings s, poll_recv = updates s\<rparr>)"
    and m: "0 < m" "m \<le> length buf" "new_connection W A (interface (loop s)) (take m buf) = Some (h, t)"
    by (rule opens_connection_select)
  let ?l = "(loop s)\<lparr>selector := sel\<rparr>"
  have new: "new_connection W A (interface ?l) (take m buf) = Some (h, t)"
    using m(3) by simp
  define after where "after s1 = (\<lambda>(res :: (io_error, unit) result, l', eff).
        Done (apply_effects eff (case res of
          Inl e \<Rightarrow> s1\<lparr>loop := l', running := False\<rparr> | Inr _ \<Rightarrow> s1\<lparr>loop := l', at_top := True\<rparr>)))"
    for s1 :: "('a, 'b, 'c) sys"
  have "step_select W A D now wr rd s1 =
      and_then (io_handle W A D True now (SelB (Inr m, buf)) ((loop s1)\<lparr>selector := sel\<rparr>)) (after s1)"
    if "s1 = s \<or> s1 = ?s" for s1
    using that sel assms(2)
    by (auto simp: step_select_def io_wait_def Let_def case_prod_beta set_connection_loop after_def
        cong: sum.case_cong intro!: arg_cong2 [where f = and_then] ext split: sum.split)
  moreover have "and_then (io_handle W A D True now (SelB (Inr m, buf)) ?l) (after s) =
    and_then (io_handle W A D True now (SelB (Inr m, buf)) (put_connection h ?c ?l)) (after ?s)"
    unfolding new_connection_handle [OF new m(1,2)] and_then_assoc
    by (rule and_then_cong)
      (auto simp: after_def apply_effects_def set_connection_loop st_def
        dest!: known_connection_handle [OF new] split: sum.split)
  ultimately show ?thesis
    by (simp add: set_connection_loop put_connection_selector)
qed

end
