(* ===== verification/Listener.thy ===== *)
theory Listener
  imports Handover
begin

text \<open>
  The listener (\<open>src/ustunet/src/listener.rs\<close>) and the channel on which it gets its streams
  (\<open>start_io\<close> of \<open>src/ustunet/src/dispatch/mod.rs\<close>). The channel has room for one stream: a
  connection is created in steps of its own, between which the application runs.

  \<^item> The loop offers the stream and waits while the channel is full; all connections wait with it.
  \<^item> When the stream is in the channel, the application can accept and use it, although the
    connection is not in the pool and its SYN was not processed yet.
  \<^item> Then the loop resumes, puts the connection into the pool and processes the SYN.

  The tun device and its file descriptor are libraries and given by the parameter \<open>tun_api\<close>.
\<close>

section \<open>Opening the device\<close>

datatype tun_error = Tun nat string

record 'd tun_api =
  tun_create :: "string \<Rightarrow> (nat, 'd) result"
  tun_mtu :: "'d \<Rightarrow> (nat, 32 word) result"
  tun_async_fd :: "'d \<Rightarrow> unit option"
  default_capabilities :: device_capabilities

text \<open>
  A connection between the send of its stream and its insertion into the pool: the inputs of the
  round that creates it, whether the stream is in the channel already, the two halves as long as
  they exist, and the loop's side.
\<close>

record 's creation =
  cr_now :: instant
  cr_wr :: "(io_error, nat) result option"
  cr_rd :: "(io_error, bytes) result option"
  cr_pair :: addr_pair
  cr_sent :: bool
  cr_reader :: "read_half option"
  cr_writer :: "write_half option"
  cr_conn :: "'s connection"

text \<open>
  The system with the channel of new streams. A stream that waits in the channel is named by its
  pair; its halves are in the system's state, or in the creation that is under way.
\<close>

record ('s, 'q, 'k) accepting =
  ac_sys :: "('s, 'q, 'k) sys"
  ac_incoming :: "addr_pair list"
  ac_creating :: "'s creation option"

definition start_io ::
    "('q, 'k) delay_api \<Rightarrow> instant \<Rightarrow> device_capabilities \<Rightarrow> ('s, 'q, 'k) accepting outcome" where
  "start_io D now caps =
     and_then (sys_start D now caps) (\<lambda>s. Done \<lparr>ac_sys = s, ac_incoming = [], ac_creating = None\<rparr>)"

definition TcpListener_bind ::
    "'d tun_api \<Rightarrow> ('q, 'k) delay_api \<Rightarrow> instant \<Rightarrow> string \<Rightarrow>
     (tun_error, ('s, 'q, 'k) accepting) result outcome" where
  "TcpListener_bind T D now name =
     (case tun_create T name of
        Inl e \<Rightarrow> Done (Inl (Tun e name))
      | Inr d \<Rightarrow>
          (case tun_mtu T d of
             Inl e \<Rightarrow> Done (Inl (Tun e name))
           | Inr mtu \<Rightarrow>
               let caps = (default_capabilities T)\<lparr>max_transmission_unit := unat (scast mtu :: u64)\<rparr>
               in and_then (expect FdRefused (tun_async_fd T d)) (\<lambda>fd.
                  and_then (start_io D now caps) (\<lambda>x. Done (Inr x)))))"

section \<open>Accepting\<close>

text \<open>
  Receiving from the channel: the first stream in it, or the end when the loop, which has the
  sender, is gone.
\<close>

definition TcpListener_poll_next ::
    "('s, 'q, 'k) accepting \<Rightarrow> addr_pair option poll \<times> ('s, 'q, 'k) accepting" where
  "TcpListener_poll_next x =
     (case ac_incoming x of
        h # hs \<Rightarrow> (Ready (Some h), x\<lparr>ac_incoming := hs\<rparr>)
      | [] \<Rightarrow> (if running (ac_sys x) then Pending else Ready None, x))"

definition TcpListener_accept ::
    "('s, 'q, 'k) accepting \<Rightarrow> addr_pair option poll \<times> ('s, 'q, 'k) accepting" where
  "TcpListener_accept x =
     (case ac_incoming x of
        h # hs \<Rightarrow> (Ready (Some h), x\<lparr>ac_incoming := hs\<rparr>)
      | [] \<Rightarrow> (if running (ac_sys x) then Pending else Ready None, x))"

section \<open>Creating a connection, step by step\<close>

definition begin_creation ::
    "instant \<Rightarrow> (io_error, nat) result option \<Rightarrow> (io_error, bytes) result option \<Rightarrow> addr_pair \<Rightarrow> 's \<Rightarrow>
     's creation" where
  "begin_creation now wr rd h t =
     (let (st, c) = TcpStream_new t h
      in \<lparr>cr_now = now, cr_wr = wr, cr_rd = rd, cr_pair = h, cr_sent = False,
          cr_reader = Some (ts_reader st), cr_writer = Some (ts_writer st), cr_conn = c\<rparr>)"

text \<open>The system's state with the connection of a creation put in, and taken out again.\<close>

definition put_in :: "'s creation \<Rightarrow> ('s, 'q, 'k) sys \<Rightarrow> ('s, 'q, 'k) sys" where
  "put_in cr s =
     set_connection (cr_pair cr) (cr_conn cr)
       (s\<lparr>readers := (readers s)(cr_pair cr := cr_reader cr),
          writers := (writers s)(cr_pair cr := cr_writer cr)\<rparr>)"

definition take_out :: "'s creation \<Rightarrow> ('s, 'q, 'k) sys \<Rightarrow> 's creation \<times> ('s, 'q, 'k) sys" where
  "take_out cr s =
     (let h = cr_pair cr; p = loop_pool (loop s)
      in (cr\<lparr>cr_reader := readers s h, cr_writer := writers s h,
            cr_conn := (case sockets_of s h of Some c \<Rightarrow> c | None \<Rightarrow> cr_conn cr)\<rparr>,
          s\<lparr>readers := (readers s)(h := None), writers := (writers s)(h := None),
            loop := set_pool (p\<lparr>sp_sockets := (sp_sockets p)(h := None)\<rparr>) (loop s)\<rparr>))"

text \<open>An action on a half, of a connection in the pool or of one under way.\<close>

definition lift_sys ::
    "('s, 'q, 'k) accepting \<Rightarrow> ('s, 'q, 'k) sys outcome option \<Rightarrow> ('s, 'q, 'k) accepting outcome option" where
  "lift_sys x m = map_option (\<lambda>o1. and_then o1 (\<lambda>s. Done (x\<lparr>ac_sys := s\<rparr>))) m"

definition half_step ::
    "wire_api \<Rightarrow> 's tcp_api \<Rightarrow> ('q, 'k) delay_api \<Rightarrow> (addr_pair \<times> event, ('s, 'q, 'k) accepting) stepper" where
  "half_step W A D he x =
     (case (he, ac_creating x) of
        ((h, e), Some cr) \<Rightarrow>
          if cr_pair cr = h
          then map_option (\<lambda>o1. and_then o1 (\<lambda>s.
                 let (cr', s') = take_out cr s in Done (x\<lparr>ac_sys := s', ac_creating := Some cr'\<rparr>)))
               (exec W A D e (put_in cr (ac_sys x)))
          else lift_sys x (exec W A D e (ac_sys x))
      | ((h, e), None) \<Rightarrow> lift_sys x (exec W A D e (ac_sys x)))"

text \<open>
  The send to the listener. It waits for room. When the listener is gone it fails at once; the
  loop drops the stream, of which nobody else knows, and goes on.
\<close>

definition offer_step ::
    "wire_api \<Rightarrow> 's tcp_api \<Rightarrow> ('q, 'k) delay_api \<Rightarrow> ('s, 'q, 'k) accepting \<Rightarrow>
     ('s, 'q, 'k) accepting outcome option" where
  "offer_step W A D x =
     (case ac_creating x of
        None \<Rightarrow> None
      | Some cr \<Rightarrow>
          if cr_sent cr then None
          else if listening (ac_sys x) then
            (if ac_incoming x = []
             then Some (Done (x\<lparr>ac_incoming := [cr_pair cr], ac_creating := Some (cr\<lparr>cr_sent := True\<rparr>)\<rparr>))
             else None)
          else Some (and_then (step_select W A D (cr_now cr) (cr_wr cr) (cr_rd cr) (ac_sys x))
                 (\<lambda>s. Done (x\<lparr>ac_sys := s, ac_creating := None\<rparr>))))"

text \<open>
  After the send: the connection is put into the pool, where its pair must not be in use, and its
  packet is processed.
\<close>

definition resume_step ::
    "wire_api \<Rightarrow> 's tcp_api \<Rightarrow> ('q, 'k) delay_api \<Rightarrow> ('s, 'q, 'k) accepting \<Rightarrow>
     ('s, 'q, 'k) accepting outcome option" where
  "resume_step W A D x =
     (case ac_creating x of
        None \<Rightarrow> None
      | Some cr \<Rightarrow>
          if cr_sent cr
          then Some (if sockets_of (ac_sys x) (cr_pair cr) \<noteq> None then Panicked SocketAlreadyThere
                 else and_then (step_select W A D (cr_now cr) (cr_wr cr) (cr_rd cr) (put_in cr (ac_sys x)))
                   (\<lambda>s. Done (x\<lparr>ac_sys := s, ac_creating := None\<rparr>)))
          else None)"

text \<open>A round of the loop: it creates a connection in steps, and is one step otherwise.\<close>

definition round_step ::
    "wire_api \<Rightarrow> 's tcp_api \<Rightarrow> ('q, 'k) delay_api \<Rightarrow> instant \<Rightarrow> (io_error, nat) result option \<Rightarrow>
     (io_error, bytes) result option \<Rightarrow> ('s, 'q, 'k) accepting \<Rightarrow> ('s, 'q, 'k) accepting outcome option" where
  "round_step W A D now wr rd x =
     (let s = ac_sys x
      in case (if running s \<and> \<not> at_top s \<and> listening s then opens_connection W A wr rd (loop s) else None) of
           Some (h, t) \<Rightarrow> Some (Done (x\<lparr>ac_creating := Some (begin_creation now wr rd h t)\<rparr>))
         | None \<Rightarrow> lift_sys x (exec W A D (Select now wr rd) s))"

section \<open>The system with its listener\<close>

datatype accept_event = Sys event | Offer | Resume | Accept

fun event_half :: "event \<Rightarrow> addr_pair option" where
  "event_half (AppRead h lf wk buf) = Some h"
| "event_half (AppWrite h lf wk buf) = Some h"
| "event_half (AppClose h lf) = Some h"
| "event_half (DropReader h) = Some h"
| "event_half (DropWriter h) = Some h"
| "event_half _ = None"

text \<open>
  The loop does nothing else while it creates a connection. The application acts on a half when it
  has accepted its stream. With the listener, the stream in the channel is dropped, writer first.
\<close>

definition not_accepted :: "addr_pair \<Rightarrow> ('s, 'q, 'k) accepting \<Rightarrow> bool" where
  "not_accepted h x \<longleftrightarrow> h \<in> set (ac_incoming x)
     \<or> (case ac_creating x of Some cr \<Rightarrow> cr_pair cr = h \<and> \<not> cr_sent cr | None \<Rightarrow> False)"

fun accept_exec ::
    "wire_api \<Rightarrow> 's tcp_api \<Rightarrow> ('q, 'k) delay_api \<Rightarrow> (accept_event, ('s, 'q, 'k) accepting) stepper" where
  "accept_exec W A D (Sys (Egress now)) x =
     (if ac_creating x = None then lift_sys x (exec W A D (Egress now) (ac_sys x)) else None)"
| "accept_exec W A D (Sys (Select now wr rd)) x =
     (if ac_creating x = None then round_step W A D now wr rd x else None)"
| "accept_exec W A D (Sys DropListener) x =
     run_events (half_step W A D)
       (concat (map (\<lambda>h. [(h, DropWriter h), (h, DropReader h)]) (ac_incoming x)))
       (x\<lparr>ac_sys := (ac_sys x)\<lparr>listening := False\<rparr>, ac_incoming := []\<rparr>)"
| "accept_exec W A D (Sys e) x =
     (case event_half e of
        Some h \<Rightarrow> if not_accepted h x then None else half_step W A D (h, e) x
      | None \<Rightarrow> None)"
| "accept_exec W A D Offer x = offer_step W A D x"
| "accept_exec W A D Resume x = resume_step W A D x"
| "accept_exec W A D Accept x =
     (case TcpListener_accept x of
        (Ready (Some h), x') \<Rightarrow> Some (Done x')
      | _ \<Rightarrow> None)"

section \<open>Properties of opening a device\<close>

lemma scast_mtu: "(scast (m :: 32 word) :: u64) = word_of_int (sint m)"
  by transfer simp

lemma mtu_exact:
  assumes "0 \<le> sint (m :: 32 word)"
  shows "uint (scast m :: u64) = sint m"
proof -
  have "sint m < 2 ^ 31"
    using sint_less [of m] by simp
  with assms show ?thesis
    unfolding scast_mtu uint_word_of_int by simp
qed

text \<open>
  Opening the listener on every branch: an error of the device is returned with its name; otherwise
  the loop starts with an empty channel, no connection, and the device's MTU, which is
  converted without loss when it is not negative.
\<close>

theorem bind_outcome:
  "case tun_create T name of
     Inl e \<Rightarrow> TcpListener_bind T D now name = Done (Inl (Tun e name))
   | Inr d \<Rightarrow>
       (case tun_mtu T d of
          Inl e \<Rightarrow> TcpListener_bind T D now name = Done (Inl (Tun e name))
        | Inr m \<Rightarrow>
            if tun_async_fd T d = None then TcpListener_bind T D now name = Panicked FdRefused
            else \<exists>x. TcpListener_bind T D now name = Done (Inr x) \<and> ac_incoming x = [] \<and> ac_creating x = None
              \<and> sockets_of (ac_sys x) = Map.empty
              \<and> (0 \<le> sint m \<longrightarrow> int (max_transmission_unit (capabilities (loop (ac_sys x)))) = sint m))"
  by (auto simp: TcpListener_bind_def start_io_def sys_start_def io_start_def insert_b_def insert_c_def
      insert_d_def Selector_new_def sockets_of_def loop_pool_def SocketPool_new_def mtu_exact Let_def
      split: sum.split)

end
