(* ===== verification/System_Invariants.thy ===== *)
theory System_Invariants
  imports System
begin

text \<open>
  The invariants of the whole system and their preservation by every event: the invariant of the
  loop and its pool, the accounting of the halves (each open half is held by the application or its
  message is on its way, never both), and that the messages name the right connection.
\<close>

section \<open>Invariants of the system\<close>

fun alive :: "('s, 'q, 'k) sys \<Rightarrow> close_msg \<Rightarrow> bool" where
  "alive s (h, CloseRead) \<longleftrightarrow> readers s h \<noteq> None"
| "alive s (h, CloseWrite) \<longleftrightarrow> writers s h \<noteq> None"

text \<open>
  Each open half of a pooled connection is accounted for once: either the application holds
  it, or the message that it was dropped is on its way. Nothing else is alive or on its way.
\<close>

definition balanced :: "('s, 'q, 'k) sys \<Rightarrow> bool" where
  "balanced s \<longleftrightarrow> (\<forall>x. of_bool (alive s x) + count_list (closings s) x =
     (of_bool (open_half (sockets_of s) x) :: nat))"

definition named :: "('s, 'q, 'k) sys \<Rightarrow> bool" where
  "named s \<longleftrightarrow>
     (\<forall>h rh. readers s h = Some rh \<longrightarrow> rh_shutdown_notifier rh = CloseSender_build h CloseRead)
     \<and> (\<forall>h wh. writers s h = Some wh \<longrightarrow>
          wh_handle wh = h \<and> wh_shutdown_notifier wh = CloseSender_build h CloseWrite)"

definition sys_inv ::
    "('q, 'k) entries \<Rightarrow> (instant \<Rightarrow> bool) \<Rightarrow> clock \<Rightarrow> wire_api \<Rightarrow> ('s, 'q, 'k) sys \<Rightarrow> bool" where
  "sys_inv ent in_range clk W s \<longleftrightarrow>
     loop_inv ent clk W (loop s) \<and> (running s \<longrightarrow> loop_ready (loop s)) \<and> balanced s \<and> named s
     \<and> (\<forall>u \<in> set (updates s). representable in_range clk (snd u))"

lemma sys_invD:
  assumes "sys_inv ent in_range clk W s"
  shows "loop_inv ent clk W (loop s)" and "running s \<Longrightarrow> loop_ready (loop s)" and "balanced s"
    and "named s" and "u \<in> set (updates s) \<Longrightarrow> representable in_range clk (snd u)"
  using assms by (auto simp: sys_inv_def)

lemma balancedD:
  assumes "balanced s"
  shows "alive s x \<Longrightarrow> open_half (sockets_of s) x"
    and "x \<in> set (closings s) \<Longrightarrow> open_half (sockets_of s) x"
    and "alive s x \<Longrightarrow> x \<notin> set (closings s)"
    and "\<not> open_half (sockets_of s) x \<Longrightarrow> \<not> alive s x \<and> x \<notin> set (closings s)"
proof -
  have x: "of_bool (alive s x) + count_list (closings s) x =
     (of_bool (open_half (sockets_of s) x) :: nat)"
    using assms unfolding balanced_def by blast
  show "alive s x \<Longrightarrow> open_half (sockets_of s) x" "alive s x \<Longrightarrow> x \<notin> set (closings s)"
    "x \<in> set (closings s) \<Longrightarrow> open_half (sockets_of s) x"
    "\<not> open_half (sockets_of s) x \<Longrightarrow> \<not> alive s x \<and> x \<notin> set (closings s)"
    using x by (auto simp: of_bool_def count_list_0_iff split: if_splits)
qed

lemma open_half_pooled: "open_half m x \<Longrightarrow> fst x \<in> dom m"
  by (auto simp: open_half_def)

section \<open>Effects\<close>

lemma apply_effects_simps [simp]:
  "loop (apply_effects eff s) = loop s" "at_top (apply_effects eff s) = at_top s"
  "running (apply_effects eff s) = running s" "listening (apply_effects eff s) = listening s"
  "updates (apply_effects eff s) = updates s" "sockets_of (apply_effects eff s) = sockets_of s"
  "closings (apply_effects eff s) = closings s @ close_msgs eff"
  by (simp_all add: apply_effects_def sockets_of_def)

lemma apply_no_effects [simp]: "apply_effects no_effects s = s"
  by (simp add: apply_effects_def no_effects_def)

lemma fold_upd_Some:
  "fold (\<lambda>x m. m(f x \<mapsto> g x)) xs m k = Some v \<Longrightarrow> (\<exists>x \<in> set xs. f x = k \<and> g x = v) \<or> m k = Some v"
  by (induction xs arbitrary: m) (fastforce split: if_splits)+

lemma fold_upd_dom: "dom (fold (\<lambda>x m. m(f x \<mapsto> g x)) xs m) = f ` set xs \<union> dom m"
  by (induction xs arbitrary: m) auto

lemma fold_upd_None:
  "fold (\<lambda>x m. m(f x \<mapsto> g x)) xs m k \<noteq> None \<longleftrightarrow> k \<in> f ` set xs \<or> m k \<noteq> None"
  using fold_upd_dom [of f g xs m] by (auto simp: domIff set_eq_iff)

lemma alive_effects:
  "alive (apply_effects eff s) x \<longleftrightarrow> alive s x \<or> fst x \<in> ts_addr ` set (new_streams eff)"
  by (cases "(s, x)" rule: alive.cases) (auto simp: apply_effects_def fold_upd_None simp del: not_None_eq)

lemma named_effects:
  assumes "named s" and "\<forall>st \<in> set (new_streams eff). named_stream st"
  shows "named (apply_effects eff s)"
  using assms
  by (auto simp: named_def apply_effects_def named_stream_def dest!: fold_upd_Some)

text \<open>A connection is created together with its halves, or with their messages.\<close>

lemma balanced_created:
  assumes "balanced s"
    and same: "\<And>x. alive s1 x = alive s x" "closings s1 = closings s"
    and halves: "\<And>x. open_half (sockets_of s1) x \<longleftrightarrow> open_half (sockets_of s) x
        \<or> fst x \<in> ts_addr ` set (new_streams eff) \<or> x \<in> set (close_msgs eff)"
    and streams: "\<forall>st \<in> set (new_streams eff). named_stream st \<and> sockets_of s (ts_addr st) = None
        \<and> close_msgs eff = []"
    and msgs: "\<forall>m \<in> set (close_msgs eff). sockets_of s (fst m) = None" "distinct (close_msgs eff)"
  shows "balanced (apply_effects eff s1)"
  unfolding balanced_def
proof
  fix x
  have old: "of_bool (alive s x) + count_list (closings s) x =
      (of_bool (open_half (sockets_of s) x) :: nat)"
    using assms(1) unfolding balanced_def by blast
  consider (stream) "fst x \<in> ts_addr ` set (new_streams eff)" | (msg) "x \<in> set (close_msgs eff)"
    | (neither) "fst x \<notin> ts_addr ` set (new_streams eff)" "x \<notin> set (close_msgs eff)"
    by blast
  then show "of_bool (alive (apply_effects eff s1) x) + count_list (closings (apply_effects eff s1)) x =
      (of_bool (open_half (sockets_of (apply_effects eff s1)) x) :: nat)"
  proof cases
    case stream
    then have "\<not> open_half (sockets_of s) x" "close_msgs eff = []"
      using streams by (auto simp: open_half_def)
    with stream old same halves show ?thesis
      by (simp add: alive_effects)
  next
    case msg
    then have "\<not> open_half (sockets_of s) x"
      using msgs(1) by (auto simp: open_half_def)
    moreover have "new_streams eff = []"
      using msg streams by (cases "new_streams eff") auto
    moreover have "count_list (close_msgs eff) x = 1"
      using msg msgs(2) by (simp add: count_list_distinct)
    ultimately show ?thesis
      using msg old same halves by (simp add: alive_effects)
  next
    case neither
    with old same halves show ?thesis
      by (simp add: alive_effects count_list_0_iff)
  qed
qed

section \<open>Preservation, step by step\<close>

text \<open>Steps that neither open nor close a half, and steps of one half on its connection.\<close>

lemma alive_same:
  "dom (readers s') = dom (readers s) \<Longrightarrow> dom (writers s') = dom (writers s) \<Longrightarrow> alive s' x = alive s x"
  by (cases "(s, x)" rule: alive.cases) (auto simp: set_eq_iff domIff)

lemma balanced_same:
  assumes "balanced s" and "dom (readers s') = dom (readers s)" and "dom (writers s') = dom (writers s)"
    and "closings s' = closings s"
    and "\<And>x. open_half (sockets_of s') x = open_half (sockets_of s) x"
  shows "balanced s'"
  using assms(1) alive_same [OF assms(2,3)] assms(4,5) unfolding balanced_def by simp

lemma set_connection_simps [simp]:
  "sockets_of (set_connection h c s) = (sockets_of s)(h \<mapsto> c)"
  "at_top (set_connection h c s) = at_top s" "running (set_connection h c s) = running s"
  "updates (set_connection h c s) = updates s" "closings (set_connection h c s) = closings s"
  "readers (set_connection h c s) = readers s" "writers (set_connection h c s) = writers s"
  "next_poll (loop (set_connection h c s)) = next_poll (loop s)"
  "sp_queue (loop_pool (loop (set_connection h c s))) = sp_queue (loop_pool (loop s))"
  "loop_ready (loop (set_connection h c s)) = loop_ready (loop s)"
  by (simp_all add: set_connection_def sockets_of_def loop_ready_def)

lemma set_connection_loop_inv:
  assumes inv: "loop_inv ent clk W (loop s)" and c: "sockets_of s h = Some c"
    and same: "same_status (rw c) (rw c')" "polling_active (socket c') = polling_active (socket c)"
  shows "loop_inv ent clk W (loop (set_connection h c' s))"
    and "open_half (sockets_of (set_connection h c' s)) x = open_half (sockets_of s) x"
proof -
  let ?p = "loop_pool (loop s)"
  have pinv: "pool_inv ent clk (next_poll (loop s)) ?p"
    using inv by (simp add: loop_inv_def)
  have c0: "sp_sockets ?p h = Some c"
    using c by (simp add: sockets_of_def)
  have "pool_inv ent clk (next_poll (loop s)) (?p\<lparr>sp_queue := sp_queue ?p, sp_sockets := (sp_sockets ?p)(h \<mapsto> c')\<rparr>)"
  proof (rule pool_inv_update [OF pinv])
    show "touches_only ent h (sp_queue ?p) (sp_queue ?p)"
      using pool_invD(1) [OF pinv] by (rule touches_only_refl)
    show "Connection_handle c' = h"
      using same(1) pool_invD(4) [OF pinv c0] by (simp add: Connection_handle_def same_status_def)
    show "needs_poll c' \<Longrightarrow> h \<in> dom (due ent (sp_queue ?p)) \<or> next_poll (loop s) = Some h"
      using needs_poll_same [OF same] pool_invD(5) [OF pinv c0] by simp
  qed
  moreover have "?p\<lparr>sp_queue := sp_queue ?p, sp_sockets := (sp_sockets ?p)(h \<mapsto> c')\<rparr> =
      ?p\<lparr>sp_sockets := (sockets_of s)(h \<mapsto> c')\<rparr>"
    by (simp add: sockets_of_def)
  ultimately show "loop_inv ent clk W (loop (set_connection h c' s))"
    using inv by (simp add: loop_inv_def set_connection_def)
  show "open_half (sockets_of (set_connection h c' s)) x = open_half (sockets_of s) x"
    using c same_status_side [OF same(1)] by (auto simp: open_half_def)
qed

lemma set_connection_balanced:
  assumes "balanced s" and "sockets_of s h = Some c" and "same_status (rw c) (rw c')"
  shows "balanced (set_connection h c' s)"
  using assms(1)
proof (rule balanced_same)
  fix x
  show "open_half (sockets_of (set_connection h c' s)) x = open_half (sockets_of s) x"
    using assms(2) same_status_side [OF assms(3)] by (auto simp: open_half_def)
qed simp_all

context loop_stack
begin

lemma step_read_inv:
  assumes inv: "sys_inv ent in_range clk W s" and rh: "readers s h = Some rh"
    and c: "sockets_of s h = Some c" and call: "step_read A h lf wk buf rh c s = Done s'"
  shows "sys_inv ent in_range clk W s'"
proof -
  note I = sys_invD [OF inv]
  obtain r buf' rh' inn sh where
    rd: "ReadHalf_poll_read_inner A lf wk buf rh (socket c) (read_readiness (rw c)) = (r, buf', rh', inn, sh)"
    by (metis prod.exhaust)
  let ?c = "c\<lparr>socket := inn, rw := (rw c)\<lparr>read_readiness := sh\<rparr>\<rparr>"
  let ?s = "s\<lparr>readers := (readers s)(h \<mapsto> rh')\<rparr>"
  have s': "s' = set_connection h ?c ?s"
    using call rd by (simp add: step_read_def)
  have same: "same_status (rw c) (rw ?c)" "polling_active (socket ?c) = polling_active (socket c)"
    using poll_read_keeps [OF rd] by (simp_all add: same_status_def)
  have c': "sockets_of ?s h = Some c"
    using c by (simp add: sockets_of_def)
  have "balanced ?s"
    using I(3) by (rule balanced_same) (use rh in \<open>auto simp: sockets_of_def\<close>)
  moreover have "named ?s"
    using I(4) rh poll_read_keeps(2) [OF rd] by (simp add: named_def)
  ultimately show ?thesis
    using set_connection_loop_inv(1) [of ent clk W ?s, OF _ c' same] I
      set_connection_balanced [OF _ c' same(1)]
    by (simp add: s' sys_inv_def named_def)
qed

lemma step_write_inv:
  assumes inv: "sys_inv ent in_range clk W s" and wh: "writers s h = Some wh"
    and c: "sockets_of s h = Some c" and call: "step_write A h lf wk buf wh c s = Done s'"
  shows "sys_inv ent in_range clk W s'"
proof -
  note I = sys_invD [OF inv]
  from call obtain r inn sh ms where
    wr: "WriteHalf_poll_write_inner A (running s) lf wk buf wh (socket c) (write_readiness (rw c)) =
      Done (r, inn, sh, ms)"
    and s': "s' = set_connection h (c\<lparr>socket := inn, rw := (rw c)\<lparr>write_readiness := sh\<rparr>\<rparr>)
      (s\<lparr>updates := updates s @ ms\<rparr>)"
    by (auto simp: step_write_def)
  let ?c = "c\<lparr>socket := inn, rw := (rw c)\<lparr>write_readiness := sh\<rparr>\<rparr>"
  let ?s = "s\<lparr>updates := updates s @ ms\<rparr>"
  have same: "same_status (rw c) (rw ?c)" "polling_active (socket ?c) = polling_active (socket c)"
    using poll_write_keeps [OF wr] by (simp_all add: same_status_def)
  have c': "sockets_of ?s h = Some c"
    using c by (simp add: sockets_of_def)
  have "balanced ?s"
    using I(3) by (rule balanced_same) (simp_all add: sockets_of_def)
  moreover have "\<forall>u \<in> set ms. representable in_range clk (snd u)"
    using poll_write_keeps(2) [OF wr] poll_times by auto
  ultimately show ?thesis
    using set_connection_loop_inv(1) [of ent clk W ?s, OF _ c' same] I
      set_connection_balanced [OF _ c' same(1)]
    by (auto simp: s' sys_inv_def named_def)
qed

lemma step_close_inv:
  assumes inv: "sys_inv ent in_range clk W s" and wh: "writers s h = Some wh"
    and c: "sockets_of s h = Some c" and call: "step_close A h lf wh c s = Done s'"
  shows "sys_inv ent in_range clk W s'"
proof -
  note I = sys_invD [OF inv]
  from call obtain r inn ms where
    cl: "WriteHalf_poll_close_inner A (running s) lf wh (socket c) = Done (r, inn, ms)"
    and s': "s' = set_connection h (c\<lparr>socket := inn\<rparr>) (s\<lparr>updates := updates s @ ms\<rparr>)"
    by (auto simp: step_close_def)
  let ?s = "s\<lparr>updates := updates s @ ms\<rparr>"
  have same: "same_status (rw c) (rw (c\<lparr>socket := inn\<rparr>))"
    "polling_active (socket (c\<lparr>socket := inn\<rparr>)) = polling_active (socket c)"
    using poll_close_keeps [OF cl] by simp_all
  have c': "sockets_of ?s h = Some c"
    using c by (simp add: sockets_of_def)
  have "balanced ?s"
    using I(3) by (rule balanced_same) (simp_all add: sockets_of_def)
  moreover have "\<forall>u \<in> set ms. representable in_range clk (snd u)"
    using poll_close_keeps(2) [OF cl] poll_times by auto
  ultimately show ?thesis
    using set_connection_loop_inv(1) [of ent clk W ?s, OF _ c' same] I
      set_connection_balanced [OF _ c' same(1)]
    by (auto simp: s' sys_inv_def named_def)
qed

end

context loop_stack
begin

text \<open>The top of the loop leaves the halves and the channels alone.\<close>

lemma step_egress_keeps:
  assumes inv: "sys_inv ent in_range clk W s" and run: "running s"
    and call: "step_egress W A D now s = Done s'"
  shows "readers s' = readers s" "writers s' = writers s" "closings s' = closings s" "updates s' = updates s"
    "running s' = running s" "\<not> at_top s'" "open_half (sockets_of s') x = open_half (sockets_of s) x"
proof -
  note I = sys_invD [OF inv]
  from call obtain l eff where e: "io_egress W A D now (loop s) = Done (l, eff)"
    and s': "s' = apply_effects eff (s\<lparr>loop := l, at_top := False\<rparr>)"
    by (auto simp: step_egress_def)
  have replies: "list_all (reply_ok W) (ingress_replies (loop s))"
    using I(1) by (simp add: loop_inv_def)
  have "new_streams eff = [] \<and> close_msgs eff = []
      \<and> (\<forall>x. open_half (sp_sockets (loop_pool l)) x = open_half (sockets_of s) x)"
    using I(2) [OF run] replies e
  proof (cases rule: io_egress_cases)
    case (dispatched h i b)
    from dispatched(4) obtain p where
      d: "SocketPool_dispatch W A D now [] h (loop_pool (loop s)) = Done (b, p, eff)"
      and i: "i = (interface (loop s))\<lparr>if_sockets := p\<rparr>"
      unfolding loop_pool_def by (rule Interface_dispatch_cases)
    have "loop_pool l = p"
      using dispatched(5) i by simp
    with dispatch_open_half [OF d] show ?thesis
      by (simp add: sockets_of_def)
  qed (simp_all add: no_effects_def sockets_of_def)
  then show "readers s' = readers s" "writers s' = writers s" "closings s' = closings s" "updates s' = updates s"
    "running s' = running s" "\<not> at_top s'" "open_half (sockets_of s') x = open_half (sockets_of s) x"
    by (simp_all add: s' apply_effects_def sockets_of_def del: split_paired_All)
qed

lemma step_egress_inv:
  assumes inv: "sys_inv ent in_range clk W s" and run: "running s"
    and call: "step_egress W A D now s = Done s'"
  shows "sys_inv ent in_range clk W s'"
proof -
  note I = sys_invD [OF inv]
  note keeps = step_egress_keeps [OF inv run call]
  have "loop_inv ent clk W (loop s')" "loop_ready (loop s')"
    using call egress_inv [OF I(1) I(2) [OF run]] by (auto simp: step_egress_def)
  moreover have "balanced s'"
    using I(3) by (rule balanced_same) (simp_all add: keeps)
  ultimately show ?thesis
    using I keeps by (simp add: sys_inv_def named_def)
qed

text \<open>What a chosen event does to the halves and the channels.\<close>

lemma handle_halves:
  assumes "io_handle W A D lst now c l = Done (res, l', eff)"
  shows "case c of
      SelB _ \<Rightarrow> (\<forall>x. open_half (sp_sockets (loop_pool l')) x \<longleftrightarrow> open_half (sp_sockets (loop_pool l)) x
          \<or> fst x \<in> ts_addr ` set (new_streams eff) \<or> x \<in> set (close_msgs eff))
        \<and> (\<forall>st \<in> set (new_streams eff). named_stream st
            \<and> sp_sockets (loop_pool l) (ts_addr st) = None \<and> close_msgs eff = [])
        \<and> (\<forall>m \<in> set (close_msgs eff). sp_sockets (loop_pool l) (fst m) = None)
        \<and> distinct (close_msgs eff)
    | SelC m \<Rightarrow> eff = no_effects
        \<and> (\<forall>x. open_half (sp_sockets (loop_pool l')) x \<longleftrightarrow> open_half (sp_sockets (loop_pool l)) x \<and> x \<noteq> m)
    | _ \<Rightarrow> eff = no_effects \<and> sp_sockets (loop_pool l') = sp_sockets (loop_pool l)"
  using assms
proof (cases rule: io_handle_cases)
  case (packet m buf r i sel)
  from packet(4) show ?thesis
  proof (cases rule: Interface_process_cases)
    case stopped
    with packet show ?thesis by (simp add: loop_pool_def no_effects_def)
  next
    case (pooled ip repr p)
    with packet process_open_half [OF pooled(2)] process_effects [OF pooled(2)] show ?thesis
      by (simp add: loop_pool_def)
  qed
next
  case (half h side p sel)
  with drop_open_half [OF half(2)] show ?thesis by simp
next
  case (failed e)
  then show ?thesis
    using assms by (auto simp: io_handle_def no_effects_def split: selected.splits)
qed (simp_all add: no_effects_def)

end

text \<open>
  One round of waiting, as one transition: nothing was ready, a timer expired, or an event was
  taken from its channel and handled.
\<close>

lemma step_select_pending:
  assumes ready: "loop_ready (loop s)" and call: "step_select W A D now wr rd s = Done s'"
    and wait: "io_wait D now (loop s) \<lparr>dev_write = wr, dev_read = rd, closing = closings s, poll_recv = updates s\<rparr> =
         Done (res, l, w)"
    and idle: "\<And>c. res \<noteq> Chosen c"
    and sel: "select_poll write_future read_future recv_close recv_poll (selector (loop s))
        \<lparr>dev_write = wr, dev_read = rd, closing = closings s, poll_recv = updates s\<rparr> = (Pending, selector l, w)"
    and same: "writing l = writing (loop s)"
  shows "s' = s\<lparr>loop := (case res of TimerExpired h \<Rightarrow> l\<lparr>next_poll := Some h\<rparr> | _ \<Rightarrow> l),
               at_top := (res \<noteq> Blocked)\<rparr> \<or>
       s' = s\<lparr>loop := (case res of TimerExpired h \<Rightarrow> l\<lparr>next_poll := Some h\<rparr> | _ \<Rightarrow> l)\<rparr>"
    and "loop_ready l"
proof -
  have occ: "occupied (selector (loop s)) = (writing (loop s) = None, True, True, True)"
    using ready by (simp add: loop_ready_def)
  have "closing w = closings s" "poll_recv w = updates s"
    using select_takes [OF sel occ] by simp_all
  then show "s' = s\<lparr>loop := (case res of TimerExpired h \<Rightarrow> l\<lparr>next_poll := Some h\<rparr> | _ \<Rightarrow> l),
               at_top := (res \<noteq> Blocked)\<rparr> \<or>
       s' = s\<lparr>loop := (case res of TimerExpired h \<Rightarrow> l\<lparr>next_poll := Some h\<rparr> | _ \<Rightarrow> l)\<rparr>"
    using call wait idle by (auto simp: step_select_def Let_def split: wait_result.splits)
  show "loop_ready l"
    using select_poll_occupied(1) [OF sel] occ ready same by (simp add: loop_ready_def)
qed

lemma step_select_cases:
  assumes ready: "loop_ready (loop s)" and call: "step_select W A D now wr rd s = Done s'"
  obtains (quiet) res l w where
      "io_wait D now (loop s) \<lparr>dev_write = wr, dev_read = rd, closing = closings s, poll_recv = updates s\<rparr> =
         Done (res, l, w)"
      "s' = s\<lparr>loop := (case res of TimerExpired h \<Rightarrow> l\<lparr>next_poll := Some h\<rparr> | _ \<Rightarrow> l),
               at_top := (res \<noteq> Blocked)\<rparr> \<or>
       s' = s\<lparr>loop := (case res of TimerExpired h \<Rightarrow> l\<lparr>next_poll := Some h\<rparr> | _ \<Rightarrow> l)\<rparr>"
      "\<And>c. res \<noteq> Chosen c" "loop_ready l"
      "sp_sockets (loop_pool l) = sockets_of s"
  | (handled) c sel l' res eff cs us where
      "io_handle W A D (listening s) now c ((loop s)\<lparr>selector := sel\<rparr>) = Done (res, l', eff)"
      "occupied sel = vacate (Ready c) (writing (loop s) = None, True, True, True)"
      "s' = apply_effects eff (s\<lparr>loop := l', closings := cs, updates := us,
         running := (res = Inr () \<and> running s), at_top := (res = Inr () \<or> at_top s)\<rparr>)"
      "case c of SelC m \<Rightarrow> closings s = m # cs \<and> us = updates s
         | SelD u \<Rightarrow> cs = closings s \<and> updates s = u # us
         | SelB (n, b) \<Rightarrow> (\<forall>m. n = Inr m \<longrightarrow> m \<le> length b) \<and> cs = closings s \<and> us = updates s
         | SelA _ \<Rightarrow> cs = closings s \<and> us = updates s"
      "res = Inr () \<Longrightarrow> loop_ready l'"
proof -
  let ?w = "\<lparr>dev_write = wr, dev_read = rd, closing = closings s, poll_recv = updates s\<rparr>"
  obtain res l w where wait: "io_wait D now (loop s) ?w = Done (res, l, w)"
    using call by (auto simp: step_select_def)
  have occ: "occupied (selector (loop s)) = (writing (loop s) = None, True, True, True)"
    and buf: "writing (loop s) = None \<or> writing (loop s) = Some []"
    using ready by (auto simp: loop_ready_def)
  note pending = step_select_pending [OF ready call wait]
  from wait show thesis
  proof (cases rule: io_wait_cases)
    case (polled r q sel)
    then show thesis
      using pending by (intro quiet [OF wait]) (auto simp: sockets_of_def split: poll.splits)
  next
    case (waiting sel)
    then show thesis
      using pending by (intro quiet [OF wait]) (auto simp: sockets_of_def)
  next
    case (chosen c sel)
    from call wait chosen obtain res' l' eff where
      h: "io_handle W A D (listening s) now c ((loop s)\<lparr>selector := sel\<rparr>) = Done (res', l', eff)"
      and s': "s' = apply_effects eff (case res' of
          Inl e \<Rightarrow> s\<lparr>closings := closing w, updates := poll_recv w, loop := l', running := False\<rparr>
        | Inr _ \<Rightarrow> s\<lparr>closings := closing w, updates := poll_recv w, loop := l', at_top := True\<rparr>)"
      by (auto simp: step_select_def Let_def cong: sum.case_cong)
    have o: "occupied sel = vacate (Ready c) (writing (loop s) = None, True, True, True)"
      using select_poll_occupied(1) [OF chosen(3)] occ by simp
    show thesis
    proof (rule handled [OF h o])
      show "s' = apply_effects eff (s\<lparr>loop := l', closings := closing w, updates := poll_recv w,
         running := (res' = Inr () \<and> running s), at_top := (res' = Inr () \<or> at_top s)\<rparr>)"
        using s' by (cases res'; cases s) simp_all
      show "case c of SelC m \<Rightarrow> closings s = m # closing w \<and> poll_recv w = updates s
         | SelD u \<Rightarrow> closing w = closings s \<and> updates s = u # poll_recv w
         | SelB (n, b) \<Rightarrow> (\<forall>m. n = Inr m \<longrightarrow> m \<le> length b) \<and> closing w = closings s \<and> poll_recv w = updates s
         | SelA _ \<Rightarrow> closing w = closings s \<and> poll_recv w = updates s"
        using select_takes [OF chosen(3) occ] by (auto split: selected.splits)
      show "res' = Inr () \<Longrightarrow> loop_ready l'"
        using handle_ready [of W A D _ now c "(loop s)\<lparr>selector := sel\<rparr>" l' eff] h o buf by simp
    qed
  qed
qed

context loop_stack
begin

lemma handled_balanced:
  assumes h: "io_handle W A D lst now c l = Done (res, l', eff)"
    and l: "sp_sockets (loop_pool l) = sockets_of s" and s1: "sockets_of s1 = sp_sockets (loop_pool l')"
    and inv: "balanced s" "named s" and same: "readers s1 = readers s" "writers s1 = writers s"
    and taken: "case c of SelC m \<Rightarrow> closings s = m # closings s1 | _ \<Rightarrow> closings s1 = closings s"
  shows "balanced (apply_effects eff s1) \<and> named (apply_effects eff s1)"
proof -
  note change = handle_halves [OF h, unfolded l]
  have alive: "alive s1 x = alive s x" for x
    by (rule alive_same) (simp_all add: same)
  have named: "named s1"
    using inv(2) same by (simp add: named_def)
  consider (packet) x where "c = SelB x" | (half) m where "c = SelC m"
    | (none) "eff = no_effects" "sockets_of s1 = sockets_of s" "closings s1 = closings s"
    using change taken s1 by (cases c) auto
  then show ?thesis
  proof cases
    case packet
    from change packet have "\<forall>st \<in> set (new_streams eff). named_stream st
        \<and> sockets_of s (ts_addr st) = None \<and> close_msgs eff = []"
      "\<forall>m \<in> set (close_msgs eff). sockets_of s (fst m) = None" "distinct (close_msgs eff)"
      "\<And>x. open_half (sockets_of s1) x \<longleftrightarrow> open_half (sockets_of s) x
        \<or> fst x \<in> ts_addr ` set (new_streams eff) \<or> x \<in> set (close_msgs eff)"
      by (simp_all add: s1 split_paired_all)
    then show ?thesis
      using balanced_created [OF inv(1), of s1 eff] named_effects [of s1 eff] named alive taken packet
      by (simp add: split_beta)
  next
    case half
    with change s1 have "eff = no_effects"
      and after: "\<And>x. open_half (sockets_of s1) x \<longleftrightarrow> open_half (sockets_of s) x \<and> x \<noteq> m"
      by auto
    moreover have "balanced s1"
      using inv(1) half after taken alive by (auto simp: balanced_def of_bool_def split: if_splits)
    ultimately show ?thesis
      using named by simp
  next
    case none
    with inv(1) same named show ?thesis
      by (auto intro: balanced_same)
  qed
qed

lemma step_select_inv:
  assumes inv: "sys_inv ent in_range clk W s" and run: "running s"
    and call: "step_select W A D now wr rd s = Done s'"
  shows "sys_inv ent in_range clk W s'"
proof -
  note I = sys_invD [OF inv]
  from I(2) [OF run] call show ?thesis
  proof (cases rule: step_select_cases)
    case (quiet res l w)
    let ?l = "case res of TimerExpired h \<Rightarrow> l\<lparr>next_poll := Some h\<rparr> | _ \<Rightarrow> l"
    have l: "loop_inv ent clk W ?l" "loop_ready ?l" "sp_sockets (loop_pool ?l) = sockets_of s"
      using wait_inv [OF I(1) quiet(1)] quiet(3-5)
      by (auto simp: loop_ready_def split: wait_result.splits)
    have s': "loop s' = ?l" "readers s' = readers s" "writers s' = writers s"
      "closings s' = closings s" "updates s' = updates s"
      using quiet(2) by auto
    have "balanced s'"
      using I(3) by (rule balanced_same) (use s' l in \<open>simp_all add: sockets_of_def\<close>)
    with l I s' show ?thesis
      by (simp add: sys_inv_def named_def)
  next
    case (handled c sel l' res eff cs us)
    have l': "loop_inv ent clk W l'"
      using handle_inv [OF _ handled(1)] I(1) by (simp add: loop_inv_def)
    have us: "set us \<subseteq> set (updates s)"
      using handled(4) by (auto split: selected.splits prod.splits)
    have "balanced s' \<and> named s'"
      unfolding handled(3) by (rule handled_balanced [OF handled(1) _ _ I(3,4)])
        (use handled(4) in \<open>auto simp: sockets_of_def split: selected.splits\<close>)
    moreover have "loop s' = l'" "updates s' = us" "running s' \<Longrightarrow> res = Inr ()"
      using handled(3) by auto
    ultimately show ?thesis
      using l' us I(5) handled(5) by (auto simp: sys_inv_def)
  qed
qed

end

lemma balanced_drop:
  assumes "balanced s" and "alive s m" and "\<And>x. alive s' x \<longleftrightarrow> alive s x \<and> x \<noteq> m"
    and "closings s' = closings s @ [m]" and "sockets_of s' = sockets_of s"
  shows "balanced s'"
  unfolding balanced_def
proof
  fix x
  have "of_bool (alive s x) + count_list (closings s) x = (of_bool (open_half (sockets_of s) x) :: nat)"
    using assms(1) unfolding balanced_def by blast
  with assms(2-5) show "of_bool (alive s' x) + count_list (closings s') x =
      (of_bool (open_half (sockets_of s') x) :: nat)"
    by (cases "x = m") auto
qed

lemma drop_messages:
  assumes "named s"
  shows "readers s h = Some rh \<Longrightarrow>
      ReadHalf_drop b rh = (if b then Done [(h, CloseRead)] else Panicked ChannelClosed)"
    and "writers s h = Some wh \<Longrightarrow>
      WriteHalf_drop b wh = (if b then Done [(h, CloseWrite)] else Panicked ChannelClosed)"
  using assms by (auto simp: named_def ReadHalf_drop_def WriteHalf_drop_def run_simps)

lemma drop_reader_balanced:
  assumes "balanced s" and "readers s h = Some rh"
  shows "balanced (s\<lparr>closings := closings s @ [(h, CloseRead)], readers := (readers s)(h := None)\<rparr>)"
  using assms(1)
proof (rule balanced_drop [where m = "(h, CloseRead)"])
  fix x
  show "alive (s\<lparr>closings := closings s @ [(h, CloseRead)], readers := (readers s)(h := None)\<rparr>) x
      \<longleftrightarrow> alive s x \<and> x \<noteq> (h, CloseRead)"
    by (cases "(s, x)" rule: alive.cases) auto
qed (use assms(2) in \<open>simp_all add: sockets_of_def\<close>)

lemma drop_writer_balanced:
  assumes "balanced s" and "writers s h = Some wh"
  shows "balanced (s\<lparr>closings := closings s @ [(h, CloseWrite)], writers := (writers s)(h := None)\<rparr>)"
  using assms(1)
proof (rule balanced_drop [where m = "(h, CloseWrite)"])
  fix x
  show "alive (s\<lparr>closings := closings s @ [(h, CloseWrite)], writers := (writers s)(h := None)\<rparr>) x
      \<longleftrightarrow> alive s x \<and> x \<noteq> (h, CloseWrite)"
    by (cases "(s, x)" rule: alive.cases) auto
qed (use assms(2) in \<open>simp_all add: sockets_of_def\<close>)

context loop_stack
begin

lemma sys_start_inv:
  assumes "sys_start D now caps = Done s" and "clk = Clock_new now"
  shows "sys_inv ent in_range clk W s"
proof -
  from assms(1) obtain l where l: "io_start D now caps = Done l"
    and s: "s = \<lparr>loop = l, at_top = True, running = True, listening = True,
             closings = [], updates = [], readers = Map.empty, writers = Map.empty\<rparr>"
    by (auto simp: sys_start_def shutdown_channel_def)
  have "sockets_of s = Map.empty"
    using l by (auto simp: s sockets_of_def io_start_def loop_pool_def SocketPool_new_def Let_def
        insert_b_def insert_c_def insert_d_def Selector_new_def)
  moreover have "\<not> alive s x" for x
    by (cases "(s, x)" rule: alive.cases) (auto simp: s)
  ultimately have "balanced s"
    by (simp add: balanced_def open_half_def) (simp add: s)
  then show ?thesis
    using start_inv [OF l assms(2)] by (simp add: sys_inv_def) (simp add: s named_def)
qed

lemma drop_half_inv:
  assumes inv: "sys_inv ent in_range clk W s"
  shows "readers s h = Some rh \<Longrightarrow>
      sys_inv ent in_range clk W (s\<lparr>closings := closings s @ [(h, CloseRead)], readers := (readers s)(h := None)\<rparr>)"
    and "writers s h = Some wh \<Longrightarrow>
      sys_inv ent in_range clk W (s\<lparr>closings := closings s @ [(h, CloseWrite)], writers := (writers s)(h := None)\<rparr>)"
  using inv drop_reader_balanced [OF sys_invD(3) [OF inv]] drop_writer_balanced [OF sys_invD(3) [OF inv]]
  by (auto simp: sys_inv_def named_def)

lemma exec_inv:
  assumes inv: "sys_inv ent in_range clk W s" and step: "exec W A D e s = Some (Done s')"
  shows "sys_inv ent in_range clk W s'"
proof (cases e)
  case (Egress now)
  with step show ?thesis
    by (auto split: if_splits intro: step_egress_inv [OF inv])
next
  case (Select now wr rd)
  with step show ?thesis
    by (auto split: if_splits intro: step_select_inv [OF inv])
next
  case (AppRead h lf wk buf)
  with step show ?thesis
    by (auto split: option.splits intro: step_read_inv [OF inv])
next
  case (AppWrite h lf wk buf)
  with step show ?thesis
    by (auto split: option.splits intro: step_write_inv [OF inv])
next
  case (AppClose h lf)
  with step show ?thesis
    by (auto split: option.splits intro: step_close_inv [OF inv])
next
  case (DropReader h)
  with step show ?thesis
    by (auto split: option.splits if_splits simp: drop_messages [OF sys_invD(4) [OF inv]] intro!: drop_half_inv(1) [OF inv])
next
  case (DropWriter h)
  with step show ?thesis
    by (auto split: option.splits if_splits simp: drop_messages [OF sys_invD(4) [OF inv]] intro!: drop_half_inv(2) [OF inv])
next
  case DropListener
  with step have s': "s' = s\<lparr>listening := False\<rparr>" by simp
  have "balanced s'"
    using sys_invD(3) [OF inv] by (rule balanced_same) (simp_all add: s' sockets_of_def)
  with inv show ?thesis
    by (simp add: s' sys_inv_def named_def)
qed

end

end
