(* ===== verification/System_Safety.thy ===== *)
theory System_Safety
  imports System_Invariants
begin

text \<open>
  Which panics the system can run into: for any interleaving the complete list, and for clients
  that keep a writer until its updates are delivered, none while the loop runs.
\<close>

section \<open>Which panics can happen\<close>

text \<open>
  A patient client keeps a writer until the updates it sent are delivered. Stale updates are
  then impossible, and only pooled connections are ever scheduled.
\<close>

definition fresh :: "('q, 'k) entries \<Rightarrow> ('s, 'q, 'k) sys \<Rightarrow> bool" where
  "fresh ent s \<longleftrightarrow> fresh_pool ent (next_poll (loop s)) (loop_pool (loop s))
     \<and> (\<forall>u \<in> set (updates s). writers s (fst u) \<noteq> None)"

fun patient :: "event \<Rightarrow> ('s, 'q, 'k) sys \<Rightarrow> bool" where
  "patient (DropWriter h) s \<longleftrightarrow> running s \<and> h \<notin> fst ` set (updates s)"
| "patient e s \<longleftrightarrow> running s"

text \<open>A writer sends updates for its own connection only.\<close>

lemma step_write_updates:
  assumes "step_write A h lf wk buf wh c s = Done s'"
  obtains c' ms where "s' = set_connection h c' (s\<lparr>updates := updates s @ ms\<rparr>)"
    "fst ` set ms \<subseteq> {wh_handle wh}"
proof -
  from assms obtain r inn sh ms where
    wr: "WriteHalf_poll_write_inner A (running s) lf wk buf wh (socket c) (write_readiness (rw c)) =
      Done (r, inn, sh, ms)"
    and s': "s' = set_connection h (c\<lparr>socket := inn, rw := (rw c)\<lparr>write_readiness := sh\<rparr>\<rparr>)
      (s\<lparr>updates := updates s @ ms\<rparr>)"
    by (auto simp: step_write_def)
  from poll_write_keeps(2) [OF wr] show thesis
    by (intro that [OF s']) auto
qed

lemma step_close_updates:
  assumes "step_close A h lf wh c s = Done s'"
  obtains c' ms where "s' = set_connection h c' (s\<lparr>updates := updates s @ ms\<rparr>)"
    "fst ` set ms \<subseteq> {wh_handle wh}"
proof -
  from assms obtain r inn ms where
    cl: "WriteHalf_poll_close_inner A (running s) lf wh (socket c) = Done (r, inn, ms)"
    and s': "s' = set_connection h (c\<lparr>socket := inn\<rparr>) (s\<lparr>updates := updates s @ ms\<rparr>)"
    by (auto simp: step_close_def)
  from poll_close_keeps(2) [OF cl] show thesis
    by (intro that [OF s']) auto
qed

lemma fresh_set_connection:
  assumes "fresh ent s" and "sockets_of s h = Some c"
  shows "fresh ent (set_connection h c' s)"
  using assms by (auto simp: fresh_def fresh_pool_def sockets_of_def set_connection_def)

lemma fresh_updates:
  assumes "fresh ent s" and "fst ` set ms \<subseteq> {h}" and "writers s h = Some wh" and "sockets_of s h = Some c"
  shows "fresh ent (set_connection h c' (s\<lparr>updates := updates s @ ms\<rparr>))"
proof (rule fresh_set_connection)
  show "fresh ent (s\<lparr>updates := updates s @ ms\<rparr>)"
    using assms(1-3) by (auto simp: fresh_def)
  show "sockets_of (s\<lparr>updates := updates s @ ms\<rparr>) h = Some c"
    using assms(4) by (simp add: sockets_of_def)
qed

context loop_stack
begin

lemma step_select_no_panic:
  assumes inv: "sys_inv ent in_range clk W s" and run: "running s"
  shows "no_panic (step_select W A D now wr rd s)"
proof -
  note I = sys_invD [OF inv]
  let ?w = "\<lparr>dev_write = wr, dev_read = rd, closing = closings s, poll_recv = updates s\<rparr>"
  have occ: "occupied (selector (loop s)) = (writing (loop s) = None, True, True, True)"
    using I(2) [OF run] by (simp add: loop_ready_def)
  have msgs: "\<forall>x \<in> set (closings s). fst x \<in> dom (sockets_of s)"
    "\<forall>u \<in> set (updates s). representable in_range clk (snd u)"
    using open_half_pooled [OF balancedD(2) [OF I(3)]] I(5) by blast+
  obtain res l w where wait: "io_wait D now (loop s) ?w = Done (res, l, w)"
    using wait_no_panic [OF I(1), of now ?w] by (metis no_panic_iff prod.exhaust)
  show ?thesis
  proof (cases "\<exists>c. res = Chosen c")
    case False
    with wait show ?thesis
      by (auto simp: step_select_def Let_def split: wait_result.split)
  next
    case True
    then obtain c where c: "res = Chosen c" by blast
    from wait c obtain sel where l: "l = (loop s)\<lparr>selector := sel\<rparr>"
      and sel: "select_poll write_future read_future recv_close recv_poll (selector (loop s)) ?w =
        (Ready c, sel, w)"
      by (auto elim: io_wait_cases split: poll.splits)
    have "no_panic (io_handle W A D (listening s) now c l)"
    proof (rule handle_no_panic)
      show "loop_inv ent clk W l"
        using I(1) by (simp add: l loop_inv_def)
      show "occupied (selector l) = vacate (Ready c) (writing (loop s) = None, True, True, True)"
        using select_poll_occupied(1) [OF sel] occ by (simp add: l)
      show "case c of SelB (Inr m, buf) \<Rightarrow> m \<le> length buf
        | SelC (h, side) \<Rightarrow> h \<in> dom (sp_sockets (loop_pool l))
        | SelD (h, t) \<Rightarrow> representable in_range clk t | _ \<Rightarrow> True"
        using select_takes [OF sel occ] msgs
        by (auto simp: l sockets_of_def split: selected.splits sum.splits)
    qed
    with wait c show ?thesis
      by (auto simp: step_select_def Let_def no_panic_iff)
  qed
qed

text \<open>The complete list of panics of the system, in any interleaving.\<close>

lemma exec_panics:
  assumes inv: "sys_inv ent in_range clk W s" and step: "exec W A D e s = Some (Panicked p)"
  shows "(p = ChannelClosed \<and> \<not> running s)
    \<or> (p = DispatchAfterDrop \<and> running s \<and> (\<exists>now. e = Egress now)
        \<and> \<not> set_option (next_poll (loop s)) \<subseteq> dom (sockets_of s))"
proof (cases e)
  case (Egress now)
  with step have "io_egress W A D now (loop s) = Panicked p" "running s"
    by (auto simp: step_egress_def and_then_Panicked_iff split: if_splits)
  with egress_panics [of "loop s" now p] sys_invD(1,2) [OF inv] Egress show ?thesis
    by (auto simp: sockets_of_def)
next
  case (Select now wr rd)
  with step step_select_no_panic [OF inv, of now wr rd] show ?thesis
    by (auto split: if_splits)
next
  case (AppRead h lf wk buf)
  with step show ?thesis
    by (auto simp: step_read_def split: option.splits prod.splits)
next
  case (AppWrite h lf wk buf)
  with step show ?thesis
    by (auto simp: step_write_def WriteHalf_poll_write_inner_def QueueUpdater_send_def Let_def
        and_then_Panicked_iff split: option.splits if_splits prod.splits sum.splits)
next
  case (AppClose h lf)
  with step show ?thesis
    by (auto simp: step_close_def WriteHalf_poll_close_inner_def QueueUpdater_send_def Let_def
        and_then_Panicked_iff split: option.splits if_splits)
next
  case (DropReader h)
  with step show ?thesis
    by (auto simp: drop_messages [OF sys_invD(4) [OF inv]] split: option.splits if_splits)
next
  case (DropWriter h)
  with step show ?thesis
    by (auto simp: drop_messages [OF sys_invD(4) [OF inv]] split: option.splits if_splits)
qed (use step in simp)

lemma alive_pooled: "balanced s \<Longrightarrow> alive s x \<Longrightarrow> fst x \<in> dom (sockets_of s)"
  by (rule open_half_pooled [OF balancedD(1)])

lemma egress_fresh:
  assumes inv: "sys_inv ent in_range clk W s" and fr: "fresh ent s" and run: "running s"
    and call: "step_egress W A D now s = Done s'"
  shows "fresh ent s'"
proof -
  note I = sys_invD [OF inv]
  from call obtain l eff where e: "io_egress W A D now (loop s) = Done (l, eff)"
    and s': "s' = apply_effects eff (s\<lparr>loop := l, at_top := False\<rparr>)"
    by (auto simp: step_egress_def)
  have replies: "list_all (reply_ok W) (ingress_replies (loop s))"
    using I(1) by (simp add: loop_inv_def)
  have "fresh_pool ent (next_poll l) (loop_pool l)"
    using I(2) [OF run] replies e
  proof (cases rule: io_egress_cases)
    case (dispatched h i b)
    from dispatched(4) obtain p where
      d: "SocketPool_dispatch W A D now [] h (loop_pool (loop s)) = Done (b, p, eff)"
      and i: "i = (interface (loop s))\<lparr>if_sockets := p\<rparr>"
      unfolding loop_pool_def by (rule Interface_dispatch_cases)
    have "fresh_pool ent None p"
      using dispatch_fresh [OF _ _ d] I(1) fr dispatched(3) by (simp add: loop_inv_def fresh_def)
    then show ?thesis
      using dispatched(5) i by simp
  qed (use fr in \<open>simp_all add: fresh_def\<close>)
  then show ?thesis
    using fr by (auto simp: s' fresh_def apply_effects_def fold_upd_None simp del: not_None_eq)
qed

lemma handle_fresh:
  assumes inv: "loop_inv ent clk W l" and fr: "fresh_pool ent (next_poll l) (loop_pool l)"
    and call: "io_handle W A D lst now c l = Done (res, l', eff)"
    and arg: "\<And>u. c = SelD u \<Longrightarrow> fst u \<in> dom (sp_sockets (loop_pool l))"
  shows "fresh_pool ent (next_poll l') (loop_pool l')"
proof -
  have pinv: "pool_inv ent clk (next_poll l) (loop_pool l)"
    using inv by (simp add: loop_inv_def)
  from call show ?thesis
  proof (cases rule: io_handle_cases)
    case (packet m buf r i sel)
    from packet(4) show ?thesis
    proof (cases rule: Interface_process_cases)
      case stopped
      with packet fr show ?thesis by (simp add: loop_pool_def)
    next
      case (pooled ip repr p)
      with process_fresh [OF _ _ pooled(2)] pinv fr packet show ?thesis
        by (simp add: loop_pool_def)
    qed
  next
    case (half h side p sel)
    with drop_fresh [OF _ _ half(2)] pinv fr show ?thesis by simp
  next
    case (update h t q sel)
    with update_fresh [OF _ _ update(2)] pinv fr arg show ?thesis by simp
  qed (use fr in simp_all)
qed

lemma select_fresh:
  assumes inv: "sys_inv ent in_range clk W s" and fr: "fresh ent s" and run: "running s"
    and call: "step_select W A D now wr rd s = Done s'"
  shows "fresh ent s'"
proof -
  note I = sys_invD [OF inv]
  have pinv: "pool_inv ent clk (next_poll (loop s)) (loop_pool (loop s))"
    using I(1) by (simp add: loop_inv_def)
  have pfr: "fresh_pool ent (next_poll (loop s)) (loop_pool (loop s))"
    using fr by (simp add: fresh_def)
  from I(2) [OF run] call show ?thesis
  proof (cases rule: step_select_cases)
    case (quiet res l w)
    let ?l = "case res of TimerExpired h \<Rightarrow> l\<lparr>next_poll := Some h\<rparr> | _ \<Rightarrow> l"
    from quiet(1) have "fresh_pool ent (next_poll ?l) (loop_pool ?l)"
    proof (cases rule: io_wait_cases)
      case (polled r q sel)
      with expire_fresh [OF _ _ polled(2)] pinv pfr show ?thesis
        by (auto split: poll.splits)
    qed (use pfr quiet(3) in auto)
    moreover have "loop s' = ?l" "writers s' = writers s" "updates s' = updates s"
      using quiet(2) by auto
    ultimately show ?thesis
      using fr by (simp add: fresh_def)
  next
    case (handled c sel l' res eff cs us)
    have us: "set us \<subseteq> set (updates s)"
      using handled(4) by (auto split: selected.splits prod.splits)
    have upd: "fst u \<in> dom (sp_sockets (loop_pool (loop s)))" if "c = SelD u" for u
    proof -
      have "alive s (fst u, CloseWrite)"
        using fr handled(4) that by (auto simp: fresh_def)
      then show ?thesis
        using alive_pooled [OF I(3)] by (fastforce simp: sockets_of_def)
    qed
    have "fresh_pool ent (next_poll l') (loop_pool l')"
      by (rule handle_fresh [OF _ _ handled(1)]) (use I(1) pfr upd in \<open>simp_all add: loop_inv_def\<close>)
    then show ?thesis
      using fr us handled(3) by (auto simp: fresh_def apply_effects_def fold_upd_None simp del: not_None_eq)
  qed
qed

lemma step_read_fresh:
  assumes fr: "fresh ent s" and c: "sockets_of s h = Some c"
    and "step_read A h lf wk buf rh c s = Done s'"
  shows "fresh ent s'"
proof -
  from assms(3) obtain rh' c' where
    s': "s' = set_connection h c' (s\<lparr>readers := (readers s)(h \<mapsto> rh')\<rparr>)"
    by (auto simp: step_read_def split: prod.splits)
  moreover from fr have "fresh ent (s\<lparr>readers := (readers s)(h \<mapsto> rh')\<rparr>)"
    by (simp add: fresh_def)
  ultimately show ?thesis
    using c by (auto simp: sockets_of_def intro!: fresh_set_connection)
qed

lemma step_writer_fresh:
  assumes fr: "fresh ent s" and "named s" and wh: "writers s h = Some wh" and c: "sockets_of s h = Some c"
  shows "step_write A h lf wk buf wh c s = Done s' \<Longrightarrow> fresh ent s'"
    and "step_close A h lf wh c s = Done s' \<Longrightarrow> fresh ent s'"
proof -
  have h: "wh_handle wh = h"
    using assms(2) wh by (simp add: named_def)
  show "step_write A h lf wk buf wh c s = Done s' \<Longrightarrow> fresh ent s'"
    by (erule step_write_updates) (use fresh_updates [OF fr _ wh c] h in simp)
  show "step_close A h lf wh c s = Done s' \<Longrightarrow> fresh ent s'"
    by (erule step_close_updates) (use fresh_updates [OF fr _ wh c] h in simp)
qed

lemma exec_fresh:
  assumes inv: "sys_inv ent in_range clk W s" and fr: "fresh ent s" and ok: "patient e s"
    and step: "exec W A D e s = Some (Done s')"
  shows "fresh ent s'"
proof (cases e)
  case (Egress now)
  with step egress_fresh [OF inv fr] show ?thesis by (auto split: if_splits)
next
  case (Select now wr rd)
  with step select_fresh [OF inv fr] show ?thesis by (auto split: if_splits)
next
  case (AppRead h lf wk buf)
  with step step_read_fresh [OF fr] show ?thesis by (auto split: option.splits)
next
  case (AppWrite h lf wk buf)
  with step step_writer_fresh(1) [OF fr sys_invD(4) [OF inv]] show ?thesis by (auto split: option.splits)
next
  case (AppClose h lf)
  with step step_writer_fresh(2) [OF fr sys_invD(4) [OF inv]] show ?thesis by (auto split: option.splits)
next
  case (DropReader h)
  with step fr show ?thesis
    by (fastforce simp: fresh_def split: option.splits)
next
  case (DropWriter h)
  with step obtain ms where
    "s' = s\<lparr>closings := closings s @ ms, writers := (writers s)(h := None)\<rparr>"
    by (auto split: option.splits)
  moreover have "\<forall>u \<in> set (updates s). fst u \<noteq> h"
    using ok DropWriter by auto
  ultimately show ?thesis
    using fr by (simp add: fresh_def)
next
  case DropListener
  with step fr show ?thesis by (fastforce simp: fresh_def)
qed

lemma fresh_start:
  assumes "sys_start D now caps = Done s"
  shows "fresh ent s"
  using assms queue_new
  by (auto simp: sys_start_def fresh_def fresh_pool_def io_start_def loop_pool_def SocketPool_new_def
      Let_def insert_b_def insert_c_def insert_d_def Selector_new_def)

end

text \<open>Lifting to reachable states.\<close>

sublocale loop_stack \<subseteq> any: invariant_system "exec W A D" "\<lambda>_ _. True" "sys_inv ent in_range clk W"
  by unfold_locales (rule exec_inv)

sublocale loop_stack \<subseteq> calm: safe_system "exec W A D" patient
  "\<lambda>s. sys_inv ent in_range clk W s \<and> fresh ent s"
proof unfold_locales
  fix s e s'
  show "sys_inv ent in_range clk W s \<and> fresh ent s \<Longrightarrow> patient e s \<Longrightarrow>
      exec W A D e s = Some (Done s') \<Longrightarrow> sys_inv ent in_range clk W s' \<and> fresh ent s'"
    using exec_inv exec_fresh by blast
next
  fix s e r
  assume inv: "sys_inv ent in_range clk W s \<and> fresh ent s" and ok: "patient e s"
    and step: "exec W A D e s = Some r"
  have "running s"
    using ok by (cases "(e, s)" rule: patient.cases) auto
  moreover have "set_option (next_poll (loop s)) \<subseteq> dom (sockets_of s)"
    using inv by (simp add: fresh_def fresh_pool_def sockets_of_def)
  ultimately show "no_panic r"
    using exec_panics [of s e] inv step by (cases r) auto
qed

context loop_stack
begin

lemma timers: "delay_queue D ent in_range"
  by (rule delay_queue_axioms)

lemma reach_sys_inv:
  assumes "sys_start D t0 caps = Done s0" and "clk = Clock_new t0"
    and "reach (exec W A D) (\<lambda>_ _. True) s0 s"
  shows "sys_inv ent in_range clk W s"
  using assms(3) sys_start_inv [OF assms(1,2)] by (rule any.reach_inv)

lemma patient_safe:
  assumes "sys_start D t0 caps = Done s0" and "clk = Clock_new t0"
    and "reach (exec W A D) patient s0 s" and "patient e s"
  shows "exec W A D e s \<noteq> Some (Panicked p)"
  using assms(3) _ assms(4)
  by (rule calm.reach_safe) (simp add: sys_start_inv [OF assms(1,2)] fresh_start [OF assms(1)])

end

section \<open>A run against the sample libraries\<close>

text \<open>
  A peer opens a connection; while a packet is being written the application closes and drops
  both halves, and the peer resets the connection. The numbers are the times of the events.
\<close>

definition seg :: "u8 \<Rightarrow> bytes" where
  "seg c = [64, 10, 0, 0, 1, 10, 0, 0, 2, 6, 5, 80, c, 0]"

definition race :: "event list" where
  "race = [Egress 1, Select 2 None (Some (Inr (seg 2))), Egress 3, Select 4 None None, Egress 5,
     Select 6 None None, Egress 7, AppClose sample_handle True, DropReader sample_handle,
     DropWriter sample_handle, Select 8 None (Some (Inr (seg 4))), Egress 9, Select 10 None None,
     Egress 11, Select 12 None None, Egress 13, Select 14 (Some (Inr 14)) None, Egress 15,
     Select 16 None None, Egress 17, Select 18 None None, Egress 19]"

text \<open>The equations that execute a run.\<close>

lemmas run_defs =
  sys_start_def io_start_def Let_def insert_a_def insert_b_def insert_c_def insert_d_def Selector_new_def
  step_egress_def step_select_def step_close_def io_egress_def io_wait_def io_handle_def Selector_b_def
  select_poll_def poll_slot_def future_defs loop_pool_def set_pool_def apply_effects_def no_effects_def
  Interface_process_def process_ipv4_def process_tcp_def Interface_dispatch_def SocketPool_process_eq
  SocketPool_dispatch_def SocketPool_drop_tcp_half_def SocketPool_new_def packet_pair_def
  open_socket_def create_tcp_socket_def TcpStream_new_def ReadHalf_new_def WriteHalf_new_def
  Connection_new_def Connection_handle_def CloseSender_build_def Connection_process_def
  check_acceptability_def Connection_dispatch_def Connection_drop_half_def wake_defs both_dropped_def
  DispatchQueue_send_def DispatchQueue_poll_def DispatchQueue_new_def DispatchQueue_remove_def
  DispatchQueue_contains_def Delays_new_def Delays_next_def Delays_insert_def
  Delays_contains_key_def Delays_remove_def slab_insert_def slab_reset_def slab_remove_def slab_poll_def
  resolve_def nanos_simps instant_limit_def Clock_new_def origin_def packet_to_bytes_def
  shutdown_channel_def sockets_of_def set_connection_def ReadHalf_drop_def WriteHalf_drop_def
  HalfCloseSender_notify_def CloseSender_notify_def WriteHalf_poll_close_inner_def
  QueueUpdater_send_def sample_wire_def sample_tcp_def sample_v4_parse_def sample_tcp_parse_def
  nth_byte_def control_of_def sock_process_def sock_packet_def sock_dispatch_def so_open_def
  no_endpoint_def seg_def

abbreviation sample_exec :: "(event, (sock, slab, nat) sys) stepper" where
  "sample_exec \<equiv> exec sample_wire sample_tcp slab_api"

lemma sample_opened:
  "\<exists>s0 s. sys_start slab_api 0 sample_caps = Done s0 \<and> run_events sample_exec (take 2 race) s0 = Some (Done s)
     \<and> readers s sample_handle \<noteq> None \<and> running s \<and> all_allowed sample_exec patient (take 2 race) s0"
  by (simp add: race_def run_defs)

lemma sample_closed:
  "\<exists>s0 s. sys_start slab_api 0 sample_caps = Done s0 \<and> run_events sample_exec (take 15 race) s0 = Some (Done s)
     \<and> (\<exists>c. sockets_of s sample_handle = Some c \<and> both_dropped (rw c))"
  by (simp add: race_def run_defs)

lemma sample_raced:
  "\<exists>s0 s. sys_start slab_api 0 sample_caps = Done s0 \<and> run_events sample_exec (take 21 race) s0 = Some (Done s)
     \<and> sample_exec (Egress 19) s = Some (Panicked DispatchAfterDrop)"
  by (simp add: race_def run_defs)

section \<open>Properties of the system\<close>

text \<open>
  (C1) Safety: while the loop runs, and as long as the clients keep a writer until the updates it
  sent are delivered, no reachable state and no event, of the loop or of a client, panics. None of the
  asserts, \<open>unwrap\<close> and \<open>expect\<close> calls of the repository fails.
\<close>

theorem system_never_panics:
  assumes "loop_stack D ent in_range W A (Clock_new t0)" and "sys_start D t0 caps = Done s0"
    and "reach (exec W A D) patient s0 s" and "patient e s"
  shows "exec W A D e s \<noteq> Some (Panicked p)"
  using assms(2-) by (intro loop_stack.patient_safe [OF assms(1)]) auto

theorem system_never_panics_witness:
  "\<exists>s0 s. sys_start slab_api 0 sample_caps = Done s0 \<and> run_events sample_exec (take 2 race) s0 = Some (Done s)
     \<and> readers s sample_handle \<noteq> None
     \<and> (\<forall>p. sample_exec (DropReader sample_handle) s \<noteq> Some (Panicked p))"
proof -
  obtain s0 s where s0: "sys_start slab_api 0 sample_caps = Done s0"
    and run: "run_events sample_exec (take 2 race) s0 = Some (Done s)"
    and reader: "readers s sample_handle \<noteq> None" and on: "running s"
    and ok: "all_allowed sample_exec patient (take 2 race) s0"
    using sample_opened by blast
  have "patient (DropReader sample_handle) s"
    using on by simp
  with system_never_panics [OF sample.loop_stack_axioms s0 all_allowed_reach [OF run ok]] s0 run reader
  show ?thesis by blast
qed

text \<open>
  (C5) Without any assumption on the clients, these are all the panics there can be: the loop panics
  only at its top, and only because the connection it is about to dispatch was removed after its
  timer was set again; and a half panics only when it sends to a loop that has ended.
\<close>

theorem system_panics:
  assumes "loop_stack D ent in_range W A (Clock_new t0)" and "sys_start D t0 caps = Done s0"
    and "reach (exec W A D) (\<lambda>_ _. True) s0 s" and "exec W A D e s = Some (Panicked p)"
  shows "(p = ChannelClosed \<and> \<not> running s)
    \<or> (p = DispatchAfterDrop \<and> running s \<and> (\<exists>now. e = Egress now)
        \<and> (\<exists>h. next_poll (loop s) = Some h \<and> h \<notin> dom (sockets_of s)))"
  using loop_stack.exec_panics [OF assms(1) loop_stack.reach_sys_inv [OF assms(1,2) refl assms(3)] assms(4)]
  by (cases "next_poll (loop s)") auto

theorem system_panics_witness:
  "\<exists>s0 s. reach sample_exec (\<lambda>_ _. True) s0 s
     \<and> sample_exec (Egress 19) s = Some (Panicked DispatchAfterDrop)
     \<and> (\<exists>h. next_poll (loop s) = Some h \<and> h \<notin> dom (sockets_of s))"
proof -
  obtain s0 s where s0: "sys_start slab_api 0 sample_caps = Done s0"
    and run: "run_events sample_exec (take 21 race) s0 = Some (Done s)"
    and panic: "sample_exec (Egress 19) s = Some (Panicked DispatchAfterDrop)"
    using sample_raced by blast
  from system_panics [OF sample.loop_stack_axioms s0 run_events_reach [OF run] panic]
  show ?thesis
    using run_events_reach [OF run] panic by blast
qed

text \<open>
  (C3) The books of the halves balance in every reachable state: an open half of a pooled connection
  is either held by the application or reported in exactly one message on its way to the loop, and
  never both; a half that is not open is neither held nor reported. So each close is reported
  once, and the message always finds its connection.
\<close>

theorem halves_accounted:
  assumes "loop_stack D ent in_range W A (Clock_new t0)" and "sys_start D t0 caps = Done s0"
    and "reach (exec W A D) (\<lambda>_ _. True) s0 s"
  shows "of_bool (alive s x) + count_list (closings s) x = (of_bool (open_half (sockets_of s) x) :: nat)"
  using sys_invD(3) [OF loop_stack.reach_sys_inv [OF assms(1,2) refl assms(3)]] unfolding balanced_def by blast

theorem halves_accounted_witness:
  "\<exists>s0 s. reach sample_exec (\<lambda>_ _. True) s0 s \<and> alive s (sample_handle, CloseRead)
     \<and> count_list (closings s) (sample_handle, CloseRead) = 0"
proof -
  obtain s0 s where s0: "sys_start slab_api 0 sample_caps = Done s0"
    and run: "run_events sample_exec (take 2 race) s0 = Some (Done s)"
    and reader: "readers s sample_handle \<noteq> None"
    using sample_opened by blast
  then have "alive s (sample_handle, CloseRead)" by simp
  with halves_accounted [OF sample.loop_stack_axioms s0 run_events_reach [OF run], of "(sample_handle, CloseRead)"]
  have "count_list (closings s) (sample_handle, CloseRead) = 0"
    by (auto simp: of_bool_def split: if_splits)
  with \<open>alive s (sample_handle, CloseRead)\<close> show ?thesis
    using run_events_reach [OF run] by blast
qed

text \<open>
  A connection stays in the pool while the application holds one of its halves or a message
  about one is on its way.
\<close>

theorem held_connections_pooled:
  assumes "loop_stack D ent in_range W A (Clock_new t0)" and "sys_start D t0 caps = Done s0"
    and "reach (exec W A D) (\<lambda>_ _. True) s0 s"
    and "readers s h \<noteq> None \<or> writers s h \<noteq> None \<or> (h, side) \<in> set (closings s)"
  shows "h \<in> dom (sockets_of s)"
proof -
  have "balanced s"
    using sys_invD(3) [OF loop_stack.reach_sys_inv [OF assms(1,2) refl assms(3)]] .
  then have "open_half (sockets_of s) x" if "x \<in> set (closings s) \<or> alive s x" for x
    using that balancedD(1,2) by blast
  then show ?thesis
    using assms(4) open_half_pooled [of "sockets_of s" "(h, _)"] alive.simps by fastforce
qed

theorem held_connections_pooled_witness:
  "\<exists>s0 s. reach sample_exec (\<lambda>_ _. True) s0 s \<and> sample_handle \<in> dom (sockets_of s)"
proof -
  obtain s0 s where s0: "sys_start slab_api 0 sample_caps = Done s0"
    and run: "run_events sample_exec (take 2 race) s0 = Some (Done s)"
    and reader: "readers s sample_handle \<noteq> None"
    using sample_opened by blast
  from held_connections_pooled [OF sample.loop_stack_axioms s0 run_events_reach [OF run]] reader
  show ?thesis
    using run_events_reach [OF run] by blast
qed

text \<open>
  (C4) No connection is forgotten: in every reachable state a connection that is being polled, or
  whose two halves are gone, is scheduled, or its timer has expired and it is next.
\<close>

theorem connections_stay_scheduled:
  assumes "loop_stack D ent in_range W A (Clock_new t0)" and "sys_start D t0 caps = Done s0"
    and "reach (exec W A D) (\<lambda>_ _. True) s0 s" and "sockets_of s h = Some c"
    and "polling_active (socket c) \<or> both_dropped (rw c)"
  shows "DispatchQueue_contains (sp_queue (loop_pool (loop s))) h \<or> next_poll (loop s) = Some h"
proof -
  have inv: "pool_inv ent (Clock_new t0) (next_poll (loop s)) (loop_pool (loop s))"
    using sys_invD(1) [OF loop_stack.reach_sys_inv [OF assms(1,2) refl assms(3)]] by (simp add: loop_inv_def)
  then show ?thesis
    using pool_invD(5) [OF inv, of h c] assms(4,5)
      delay_queue.DispatchQueue_contains_due [OF loop_stack.timers [OF assms(1)] pool_invD(1) [OF inv]]
    by (simp add: needs_poll_def sockets_of_def)
qed

theorem connections_stay_scheduled_witness:
  "\<exists>s0 s. reach sample_exec (\<lambda>_ _. True) s0 s
     \<and> (\<exists>c. sockets_of s sample_handle = Some c \<and> both_dropped (rw c))
     \<and> (DispatchQueue_contains (sp_queue (loop_pool (loop s))) sample_handle
        \<or> next_poll (loop s) = Some sample_handle)"
proof -
  obtain s0 s where s0: "sys_start slab_api 0 sample_caps = Done s0"
    and run: "run_events sample_exec (take 15 race) s0 = Some (Done s)"
    and "\<exists>c. sockets_of s sample_handle = Some c \<and> both_dropped (rw c)"
    using sample_closed by blast
  then obtain c where c: "sockets_of s sample_handle = Some c" "both_dropped (rw c)" by blast
  from connections_stay_scheduled [OF sample.loop_stack_axioms s0 run_events_reach [OF run] c(1)] c
  show ?thesis
    using run_events_reach [OF run] by blast
qed

text \<open>
  (C18) While the loop runs, its selector always holds the reader and both receivers, and the writer
  exactly when the write buffer is in use; a buffer at hand is empty, and every reply can be sent.
\<close>

theorem loop_keeps_its_futures:
  assumes "loop_stack D ent in_range W A (Clock_new t0)" and "sys_start D t0 caps = Done s0"
    and "reach (exec W A D) (\<lambda>_ _. True) s0 s" and "running s"
  shows "occupied (selector (loop s)) = (writing (loop s) = None, True, True, True)
    \<and> (writing (loop s) = None \<or> writing (loop s) = Some [])
    \<and> list_all (reply_ok W) (ingress_replies (loop s))"
  using sys_invD(1,2) [OF loop_stack.reach_sys_inv [OF assms(1,2) refl assms(3)]] assms(4)
  by (simp add: loop_inv_def loop_ready_def)

theorem loop_keeps_its_futures_witness:
  "\<exists>s0 s. reach sample_exec (\<lambda>_ _. True) s0 s \<and> running s
     \<and> occupied (selector (loop s)) = (writing (loop s) = None, True, True, True)"
proof -
  obtain s0 s where s0: "sys_start slab_api 0 sample_caps = Done s0"
    and run: "run_events sample_exec (take 2 race) s0 = Some (Done s)"
    and alive: "running s"
    using sample_opened by blast
  from loop_keeps_its_futures [OF sample.loop_stack_axioms s0 run_events_reach [OF run] alive] alive
  show ?thesis
    using run_events_reach [OF run] by blast
qed

end
