(* ===== verification/Accepting.thy ===== *)
theory Accepting
  imports Listener System_Safety
begin

text \<open>
  What the channel of new streams changes. When the application leaves a stream alone until its
  connection is in the pool, every run of the system with its listener is a run of the system in
  which a connection is created in one step, so that all results on that system hold. The loop waits
  with all connections while a stream is not accepted. A stream that is read too early reports
  its end.
\<close>

section \<open>Actions on halves\<close>

lemma exec_half:
  assumes "event_half e = Some g" and "exec W A D e s = Some (Done s')"
  shows "(loop s' = loop s \<or> (\<exists>c. loop s' = put_connection g c (loop s)))
    \<and> running s' = running s \<and> at_top s' = at_top s \<and> listening s' = listening s
    \<and> (\<forall>h. h \<noteq> g \<longrightarrow> readers s' h = readers s h \<and> writers s' h = writers s h)"
  using assms
  by (cases e) (auto simp: step_read_def step_write_def step_close_def set_connection_loop
      split: option.splits prod.splits)

lemma opens_put_connection:
  assumes "opens_connection W A wr rd l = Some (h, t)" and "g \<noteq> h"
  shows "opens_connection W A wr rd (put_connection g c l) = Some (h, t)"
  using assms
  by (auto simp: opens_connection_def new_connection_def
      split: option.splits sum.splits prod.splits poll.splits selected.splits if_splits)

section \<open>Patience\<close>

text \<open>
  The application leaves the stream of a creation alone: it does not act on its halves, and it
  keeps the listener while the stream is in the channel or just accepted.
\<close>

fun waits :: "accept_event \<Rightarrow> ('s, 'q, 'k) accepting \<Rightarrow> bool" where
  "waits (Sys e) x =
     (case ac_creating x of
        Some cr \<Rightarrow> event_half e \<noteq> Some (cr_pair cr) \<and> (e = DropListener \<longrightarrow> \<not> cr_sent cr)
      | None \<Rightarrow> True)"
| "waits _ x = True"

definition both_held :: "('s, 'q, 'k) sys \<Rightarrow> addr_pair \<Rightarrow> bool" where
  "both_held s h \<longleftrightarrow> readers s h \<noteq> None \<and> writers s h \<noteq> None"

definition untouched :: "'s creation \<Rightarrow> 's \<Rightarrow> bool" where
  "untouched cr t \<longleftrightarrow> cr_reader cr = Some (ts_reader (fst (TcpStream_new t (cr_pair cr))))
     \<and> cr_writer cr = Some (ts_writer (fst (TcpStream_new t (cr_pair cr))))
     \<and> cr_conn cr = snd (TcpStream_new t (cr_pair cr))"

definition accept_inv :: "wire_api \<Rightarrow> 's tcp_api \<Rightarrow> ('s, 'q, 'k) accepting \<Rightarrow> bool" where
  "accept_inv W A x \<longleftrightarrow> length (ac_incoming x) \<le> 1 \<and>
     (case ac_creating x of
        None \<Rightarrow> list_all (both_held (ac_sys x)) (ac_incoming x)
      | Some cr \<Rightarrow>
          running (ac_sys x) \<and> \<not> at_top (ac_sys x)
          \<and> (\<exists>t. opens_connection W A (cr_wr cr) (cr_rd cr) (loop (ac_sys x)) = Some (cr_pair cr, t)
               \<and> untouched cr t)
          \<and> (if cr_sent cr then listening (ac_sys x) \<and> set (ac_incoming x) \<subseteq> {cr_pair cr}
             else list_all (both_held (ac_sys x)) (ac_incoming x) \<and> cr_pair cr \<notin> set (ac_incoming x)))"

lemma accept_half:
  assumes inv: "accept_inv W A x" and e: "event_half e = Some g" and w: "waits (Sys e) x"
    and "\<not> not_accepted g x" and step: "half_step W A D (g, e) x = Some (Done x')"
  shows "exec W A D e (ac_sys x) = Some (Done (ac_sys x')) \<and> accept_inv W A x'"
proof -
  from e w step have "lift_sys x (exec W A D e (ac_sys x)) = Some (Done x')"
    by (auto simp: half_step_def split: option.splits if_splits)
  then obtain s where s: "exec W A D e (ac_sys x) = Some (Done s)" "x' = x\<lparr>ac_sys := s\<rparr>"
    by (auto simp: lift_sys_def)
  note keep = exec_half [OF e s(1)]
  have held: "both_held s h" if "both_held (ac_sys x) h" "h \<in> set (ac_incoming x)" for h
    using that keep assms(4) by (auto simp: both_held_def not_accepted_def)
  have "opens_connection W A wr rd (loop s) = Some (h, t)"
    if "opens_connection W A wr rd (loop (ac_sys x)) = Some (h, t)" "h \<noteq> g" for wr rd h t
    using keep that by (auto intro: opens_put_connection)
  then show ?thesis
    using inv keep held s e w by (auto simp: accept_inv_def list_all_iff split: option.splits if_splits)
qed

section \<open>Steps of the loop\<close>

lemma effects_held:
  assumes "both_held s h" and "readers s1 = readers s" and "writers s1 = writers s"
  shows "both_held (apply_effects eff s1) h" and "both_held s1 h"
proof -
  have "h \<in> dom (readers (apply_effects eff s1))" "h \<in> dom (writers (apply_effects eff s1))"
    unfolding apply_effects_def using assms by (auto simp: fold_upd_dom both_held_def)
  then show "both_held (apply_effects eff s1) h"
    by (auto simp: both_held_def)
  show "both_held s1 h"
    using assms by (simp add: both_held_def)
qed

lemma loop_step_held:
  assumes "exec W A D e s = Some (Done s')" and "event_half e = None" and "both_held s h"
  shows "both_held s' h"
  using assms(1,2)
  by (cases e) (auto simp: step_egress_def step_select_def Let_def effects_held [OF assms(3)]
      split: if_splits wait_result.splits sum.splits)

lemma opens_fresh:
  assumes "opens_connection W A wr rd l = Some (h, t)"
  shows "sp_sockets (loop_pool l) h = None"
  using assms
  by (auto simp: opens_connection_def new_connection_def loop_pool_def
      split: option.splits sum.splits prod.splits poll.splits selected.splits if_splits)

lemma both_held_pooled:
  assumes "balanced s" and "both_held s h"
  shows "sockets_of s h \<noteq> None"
  using open_half_pooled [OF balancedD(1) [OF assms(1), of "(h, CloseRead)"]] assms(2)
  by (auto simp: both_held_def)

lemma accept_round:
  assumes inv: "accept_inv W A x" and bal: "balanced (ac_sys x)" and none: "ac_creating x = None"
    and step: "round_step W A D now wr rd x = Some (Done x')"
  shows "reach (exec W A D) (\<lambda>_ _. True) (ac_sys x) (ac_sys x') \<and> accept_inv W A x'"
proof (cases "if running (ac_sys x) \<and> \<not> at_top (ac_sys x) \<and> listening (ac_sys x)
    then opens_connection W A wr rd (loop (ac_sys x)) else None")
  case None
  with step obtain s where s: "exec W A D (Select now wr rd) (ac_sys x) = Some (Done s)" "x' = x\<lparr>ac_sys := s\<rparr>"
    by (auto simp: round_step_def lift_sys_def Let_def simp del: exec.simps)
  with inv none loop_step_held [OF s(1)] show ?thesis
    by (auto simp: accept_inv_def list_all_iff intro: reach_one [of "exec W A D"] simp del: exec.simps)
next
  case (Some ht)
  obtain h t where ht: "ht = (h, t)" by (cases ht)
  with Some have opens: "opens_connection W A wr rd (loop (ac_sys x)) = Some (h, t)"
    and on: "running (ac_sys x)" "\<not> at_top (ac_sys x)" "listening (ac_sys x)"
    by (auto split: if_splits)
  with step Some ht have x': "x' = x\<lparr>ac_creating := Some (begin_creation now wr rd h t)\<rparr>"
    by (simp add: round_step_def Let_def)
  have "h \<notin> set (ac_incoming x)"
    using inv none both_held_pooled [OF bal, of h] opens_fresh [OF opens]
    by (auto simp: accept_inv_def list_all_iff sockets_of_def)
  with inv none opens on show ?thesis
    unfolding x' by (auto simp: accept_inv_def begin_creation_def untouched_def Let_def split_beta intro: reach.start)
qed

lemma put_in_untouched:
  assumes "untouched cr t"
  shows "put_in cr s = set_connection (cr_pair cr) (snd (TcpStream_new t (cr_pair cr)))
    (s\<lparr>readers := (readers s)(cr_pair cr \<mapsto> ts_reader (fst (TcpStream_new t (cr_pair cr)))),
       writers := (writers s)(cr_pair cr \<mapsto> ts_writer (fst (TcpStream_new t (cr_pair cr))))\<rparr>)"
  using assms by (simp add: put_in_def untouched_def)

lemma accept_resume:
  assumes inv: "accept_inv W A x" and ready: "loop_ready (loop (ac_sys x))"
    and step: "resume_step W A D x = Some (Done x')"
  shows "reach (exec W A D) (\<lambda>_ _. True) (ac_sys x) (ac_sys x') \<and> accept_inv W A x'"
proof -
  from step obtain cr s where cr: "ac_creating x = Some cr" "cr_sent cr"
    and s: "step_select W A D (cr_now cr) (cr_wr cr) (cr_rd cr) (put_in cr (ac_sys x)) = Done s"
    and x': "x' = x\<lparr>ac_sys := s, ac_creating := None\<rparr>"
    by (auto simp: resume_step_def simp del: not_None_eq split: option.splits if_splits)
  from inv cr obtain t where on: "running (ac_sys x)" "\<not> at_top (ac_sys x)" "listening (ac_sys x)"
    and opens: "opens_connection W A (cr_wr cr) (cr_rd cr) (loop (ac_sys x)) = Some (cr_pair cr, t)"
    and fresh: "untouched cr t"
    and incoming: "length (ac_incoming x) \<le> 1" "set (ac_incoming x) \<subseteq> {cr_pair cr}"
    by (auto simp: accept_inv_def)
  have "step_select W A D (cr_now cr) (cr_wr cr) (cr_rd cr) (ac_sys x) = Done s"
    using opens_connection_step [OF _ on(3) opens, of _ D "cr_now cr"] s ready
    unfolding put_in_untouched [OF fresh] by (auto simp: loop_ready_def)
  then have "exec W A D (Select (cr_now cr) (cr_wr cr) (cr_rd cr)) (ac_sys x) = Some (Done s)"
    using on by simp
  moreover have "both_held s (cr_pair cr)"
  proof (rule loop_step_held)
    show "exec W A D (Select (cr_now cr) (cr_wr cr) (cr_rd cr)) (put_in cr (ac_sys x)) = Some (Done s)"
      using s on by (simp add: put_in_def)
    show "both_held (put_in cr (ac_sys x)) (cr_pair cr)"
      unfolding put_in_untouched [OF fresh] by (simp add: both_held_def)
  qed simp
  ultimately show ?thesis
    using incoming unfolding x' by (auto simp: accept_inv_def list_all_iff intro: reach_one [of "exec W A D"] simp del: exec.simps)
qed

lemma accept_offer:
  assumes inv: "accept_inv W A x" and step: "offer_step W A D x = Some (Done x')"
  shows "reach (exec W A D) (\<lambda>_ _. True) (ac_sys x) (ac_sys x') \<and> accept_inv W A x'"
proof -
  from step obtain cr where cr: "ac_creating x = Some cr" "\<not> cr_sent cr"
    by (auto simp: offer_step_def split: option.splits if_splits)
  show ?thesis
  proof (cases "listening (ac_sys x)")
    case True
    with step cr have "x' = x\<lparr>ac_incoming := [cr_pair cr], ac_creating := Some (cr\<lparr>cr_sent := True\<rparr>)\<rparr>"
      by (auto simp: offer_step_def split: if_splits)
    with inv cr True show ?thesis
      by (auto simp: accept_inv_def untouched_def intro: reach.start)
  next
    case False
    with step cr inv obtain s where
      s: "exec W A D (Select (cr_now cr) (cr_wr cr) (cr_rd cr)) (ac_sys x) = Some (Done s)"
      and x': "x' = x\<lparr>ac_sys := s, ac_creating := None\<rparr>"
      by (auto simp: offer_step_def accept_inv_def)
    with inv cr loop_step_held [OF s] show ?thesis
      by (auto simp: accept_inv_def list_all_iff intro: reach_one [of "exec W A D"] simp del: exec.simps)
  qed
qed

lemma accept_drop_listener:
  assumes inv: "accept_inv W A x" and w: "waits (Sys DropListener) x"
    and step: "accept_exec W A D (Sys DropListener) x = Some (Done x')"
  shows "reach (exec W A D) (\<lambda>_ _. True) (ac_sys x) (ac_sys x') \<and> accept_inv W A x'"
proof -
  let ?x0 = "x\<lparr>ac_sys := (ac_sys x)\<lparr>listening := False\<rparr>, ac_incoming := []\<rparr>"
  have start: "exec W A D DropListener (ac_sys x) = Some (Done (ac_sys ?x0))"
    by simp
  have inv0: "accept_inv W A ?x0"
    using inv w by (auto simp: accept_inv_def split: option.splits)
  from inv consider "ac_incoming x = []" | (one) h where "ac_incoming x = [h]"
    by (auto simp: accept_inv_def le_Suc_eq length_Suc_conv)
  then show ?thesis
  proof cases
    case 1
    with step inv0 reach_one [of "exec W A D", OF start] show ?thesis
      by simp
  next
    case one
    with step obtain x1 where x1: "half_step W A D (h, DropWriter h) ?x0 = Some (Done x1)"
      and x2: "half_step W A D (h, DropReader h) x1 = Some (Done x')"
      by (auto split: option.splits outcome.splits simp del: exec.simps)
    have other: "cr_pair cr \<noteq> h \<and> \<not> cr_sent cr" if "ac_creating x = Some cr" for cr
      using that inv w one by (auto simp: accept_inv_def)
    have "ac_creating x1 = ac_creating x" "ac_incoming x1 = []"
      using x1 other by (auto simp: half_step_def lift_sys_def split: option.splits simp del: exec.simps)
    with other have "(event_half e = Some h \<longrightarrow> waits (Sys e) y) \<and> \<not> not_accepted h y"
      if "y = ?x0 \<or> y = x1" for e y
      using that by (cases "ac_creating x") (auto simp: not_accepted_def)
    then have quiet: "event_half e = Some h \<Longrightarrow> waits (Sys e) ?x0" "event_half e = Some h \<Longrightarrow> waits (Sys e) x1"
      "\<not> not_accepted h ?x0" "\<not> not_accepted h x1" for e
      by blast+
    have w1: "exec W A D (DropWriter h) (ac_sys ?x0) = Some (Done (ac_sys x1)) \<and> accept_inv W A x1"
      by (rule accept_half [OF inv0 _ quiet(1) quiet(3) x1]) simp_all
    have r1: "exec W A D (DropReader h) (ac_sys x1) = Some (Done (ac_sys x')) \<and> accept_inv W A x'"
      by (rule accept_half [OF conjunct2 [OF w1] _ quiet(2) quiet(4) x2]) simp_all
    have "run_events (exec W A D) [DropListener, DropWriter h, DropReader h] (ac_sys x) = Some (Done (ac_sys x'))"
      using start w1 r1 by (simp del: exec.simps)
    with r1 show ?thesis
      by (blast intro: run_events_reach)
  qed
qed

lemma accept_step:
  assumes sys: "sys_inv ent in_range clk W (ac_sys x)" and inv: "accept_inv W A x" and w: "waits e x"
    and step: "accept_exec W A D e x = Some (Done x')"
  shows "reach (exec W A D) (\<lambda>_ _. True) (ac_sys x) (ac_sys x') \<and> accept_inv W A x'"
proof -
  have half: ?thesis if "e = Sys f" "event_half f = Some h" for f h
    using step that accept_half [OF inv that(2)] w
    by (cases f) (auto split: if_splits intro: reach_one [of "exec W A D"] simp del: exec.simps)
  show ?thesis
  proof (cases e)
    case (Sys f)
    show ?thesis
    proof (cases f)
      case (Egress now)
      with step Sys obtain s where none: "ac_creating x = None"
        and s: "exec W A D (Egress now) (ac_sys x) = Some (Done s)" "x' = x\<lparr>ac_sys := s\<rparr>"
        by (auto simp: lift_sys_def simp del: exec.simps split: if_splits)
      with inv loop_step_held [OF s(1)] show ?thesis
        by (auto simp: accept_inv_def list_all_iff intro: reach_one [of "exec W A D"] simp del: exec.simps)
    next
      case (Select now wr rd)
      with step Sys accept_round [OF inv sys_invD(3) [OF sys]] show ?thesis
        by (simp split: if_splits)
    next
      case DropListener
      with step Sys w accept_drop_listener [OF inv] show ?thesis by blast
    qed (use half Sys in auto)
  next
    case Offer
    with step accept_offer [OF inv] show ?thesis by simp
  next
    case Resume
    with step have "running (ac_sys x)"
      using inv by (auto simp: resume_step_def accept_inv_def split: option.splits)
    with step Resume accept_resume [OF inv] sys_invD(2) [OF sys] show ?thesis by simp
  next
    case Accept
    with step inv show ?thesis
      by (auto simp: TcpListener_accept_def accept_inv_def intro: reach.start
          split: list.splits option.splits poll.splits if_splits)
  qed
qed

section \<open>Runs\<close>

sublocale loop_stack \<subseteq> acc: invariant_system "accept_exec W A D" waits
  "\<lambda>x. sys_inv ent in_range clk W (ac_sys x) \<and> reach (exec W A D) (\<lambda>_ _. True) s0 (ac_sys x)
     \<and> accept_inv W A x" for s0
proof
  fix x e x'
  assume inv: "sys_inv ent in_range clk W (ac_sys x) \<and> reach (exec W A D) (\<lambda>_ _. True) s0 (ac_sys x)
      \<and> accept_inv W A x" and "waits e x" and "accept_exec W A D e x = Some (Done x')"
  with accept_step have step: "reach (exec W A D) (\<lambda>_ _. True) (ac_sys x) (ac_sys x')" "accept_inv W A x'"
    by blast+
  with inv any.reach_inv [OF step(1)] reach_trans [OF step(1)]
  show "sys_inv ent in_range clk W (ac_sys x') \<and> reach (exec W A D) (\<lambda>_ _. True) s0 (ac_sys x')
      \<and> accept_inv W A x'"
    by simp
qed

context loop_stack
begin

lemma accepting_simulated:
  assumes "start_io D t0 caps = Done x0" and "clk = Clock_new t0" and run: "reach (accept_exec W A D) waits x0 x"
  shows "reach (exec W A D) (\<lambda>_ _. True) (ac_sys x0) (ac_sys x) \<and> accept_inv W A x"
proof -
  from assms(1) have x0: "sys_start D t0 caps = Done (ac_sys x0)" "ac_incoming x0 = []" "ac_creating x0 = None"
    by (auto simp: start_io_def)
  then have "sys_inv ent in_range clk W (ac_sys x0) \<and> reach (exec W A D) (\<lambda>_ _. True) (ac_sys x0) (ac_sys x0)
      \<and> accept_inv W A x0"
    using sys_start_inv [OF _ assms(2)] by (auto simp: accept_inv_def intro: reach.start)
  with acc.reach_inv [OF run] show ?thesis by blast
qed

end

section \<open>Sockets that listen\<close>

text \<open>
  What \<open>smoltcp\<close> documents of a new socket: it is closed; listening puts it into the state \<open>Listen\<close>
  with nothing to read; and a socket may receive in three states only, or as long as there is
  something to read. The delay of acknowledgements changes none of this.
\<close>

locale listening_sockets =
  fixes A :: "'s tcp_api"
  assumes new_closed: "\<not> sk_is_open A (sk_new A rx tx)"
    and listen_state: "sk_listen A t at = Inr t' \<Longrightarrow> sk_state A t' = Listen"
    and listen_empty: "sk_listen A (sk_new A rx tx) at = Inr t' \<Longrightarrow> \<not> sk_can_recv A t'"
    and may_recv_states: "sk_may_recv A t \<Longrightarrow> sk_can_recv A t \<or> sk_state A t \<in> {Established, FinWait1, FinWait2}"
    and ack_delay: "sk_state A (sk_set_ack_delay A t d) = sk_state A t"
      "sk_can_recv A (sk_set_ack_delay A t d) = sk_can_recv A t"
begin

lemma opened_at_end:
  assumes "open_socket A at = Inr t"
  shows "at_end A t"
proof -
  from assms obtain t1 where t1: "sk_listen A (create_tcp_socket A) at = Inr t1"
    and t: "t = sk_set_ack_delay A t1 (Some 0)"
    by (auto simp: open_socket_def create_tcp_socket_def new_closed Let_def split: sum.splits)
  have "\<not> sk_can_recv A t" "sk_state A t = Listen"
    using listen_empty listen_state [OF t1] t1 by (auto simp: t ack_delay create_tcp_socket_def)
  then show ?thesis
    using may_recv_states [of t] by (auto simp: at_end_def)
qed

end

interpretation sample_listening: listening_sockets sample_tcp
  by unfold_locales (auto simp: sample_tcp_def so_open_def split: if_splits)

lemma opens_socket:
  assumes "opens_connection W A wr rd l = Some (h, t)"
  shows "open_socket A (local_side h) = Inr t"
  using assms
  by (auto simp: opens_connection_def new_connection_def
      split: option.splits sum.splits prod.splits poll.splits selected.splits if_splits)

lemma early_read:
  assumes "ac_creating x = Some cr" and "cr_sent cr" and "cr_pair cr \<notin> set (ac_incoming x)"
    and "untouched cr t" and "at_end A t"
  shows "\<exists>x' cr' rh rh'. accept_exec W A D (Sys (AppRead (cr_pair cr) True wk buf)) x = Some (Done x')
    \<and> ac_creating x' = Some cr' \<and> cr_reader cr = Some rh \<and> cr_reader cr' = Some rh'
    \<and> ReadHalf_poll_read_inner A True wk buf rh (socket (cr_conn cr)) (read_readiness (rw (cr_conn cr))) =
        (Ready (Inr 0), buf, rh', socket (cr_conn cr), read_readiness (rw (cr_conn cr)))
    \<and> rh_eof_reached rh'"
proof -
  let ?rh = "ts_reader (fst (TcpStream_new t (cr_pair cr)))"
  have rh: "cr_reader cr = Some ?rh" "\<not> rh_eof_reached ?rh" and inn: "tcp (socket (cr_conn cr)) = t"
    using assms(4) by (simp_all add: untouched_def TcpStream_new_def ReadHalf_new_def WriteHalf_new_def Connection_new_def)
  have read: "ReadHalf_poll_read_inner A True wk buf ?rh (socket (cr_conn cr)) (read_readiness (rw (cr_conn cr))) =
      (Ready (Inr 0), buf, ?rh\<lparr>rh_eof_reached := True\<rparr>, socket (cr_conn cr), read_readiness (rw (cr_conn cr)))"
    using poll_read_at_end [of A "socket (cr_conn cr)"] assms(5) inn rh(2) by simp
  then show ?thesis
    using assms(1-3) rh
    by (simp add: not_accepted_def half_step_def put_in_def step_read_def take_out_def Let_def)
qed

section \<open>Runs against the sample libraries\<close>

abbreviation sample_accept :: "(accept_event, (sock, slab, nat) accepting) stepper" where
  "sample_accept \<equiv> accept_exec sample_wire sample_tcp slab_api"

definition seg2 :: bytes where
  "seg2 = [64, 10, 0, 0, 1, 10, 0, 0, 2, 6, 6, 80, 2, 0]"

lemmas accept_defs = run_defs start_io_def round_step_def lift_sys_def half_step_def offer_step_def
  resume_step_def not_accepted_def begin_creation_def put_in_def take_out_def TcpListener_accept_def
  opens_connection_def new_connection_def packet_headers_def ipv4_headers_def tcp_headers_def
  step_read_def ReadHalf_poll_read_inner_def read_nothing_def seg2_def

text \<open>Two connections are opened; the stream of the first waits in the channel.\<close>

definition two_syns :: "accept_event list" where
  "two_syns = [Sys (Egress 1), Sys (Select 2 None (Some (Inr (seg 2)))), Offer, Resume, Sys (Egress 3),
     Sys (Select 4 None (Some (Inr seg2)))]"

lemma sample_two_syns:
  "\<exists>x0 x cr. start_io slab_api 0 sample_caps = Done x0 \<and> run_events sample_accept two_syns x0 = Some (Done x)
     \<and> reach sample_accept waits x0 x \<and> ac_creating x = Some cr \<and> \<not> cr_sent cr \<and> listening (ac_sys x) \<and> ac_incoming x = [sample_handle]"
proof -
  have "\<exists>x0 x cr. start_io slab_api 0 sample_caps = Done x0 \<and> run_events sample_accept two_syns x0 = Some (Done x)
     \<and> ac_creating x = Some cr \<and> \<not> cr_sent cr \<and> listening (ac_sys x) \<and> ac_incoming x = [sample_handle]"
    by (simp add: two_syns_def accept_defs)
  moreover have "waits e x" if "e \<in> set two_syns" "sample_accept e x = Some r" for e x r
    using that by (auto simp: two_syns_def split: if_splits)
  ultimately show ?thesis
    using run_events_reach_ok [of two_syns sample_accept waits] by meson
qed

text \<open>A client that accepts and reads before the SYN is processed.\<close>

definition early_run :: "accept_event list" where
  "early_run = [Sys (Egress 1), Sys (Select 2 None (Some (Inr (seg 2)))), Offer, Accept]"

lemma sample_early:
  "\<exists>x0 x cr. start_io slab_api 0 sample_caps = Done x0 \<and> run_events sample_accept early_run x0 = Some (Done x)
     \<and> all_allowed sample_accept waits early_run x0
     \<and> ac_creating x = Some cr \<and> cr_sent cr \<and> cr_pair cr = sample_handle \<and> ac_incoming x = []"
  by (simp add: early_run_def accept_defs)

section \<open>Properties of accepting\<close>

text \<open>
  (C7) Refinement: when the application leaves a stream alone until its connection is in the pool,
  the system with the channel of new streams refines the system in which a connection is created in
  one step. The channel holds one stream at most, and a stream in it is whole, or its connection
  is just being created.
\<close>

theorem accepting_refines_system:
  assumes "loop_stack D ent in_range W A (Clock_new t0)" and "start_io D t0 caps = Done x0"
    and "reach (accept_exec W A D) waits x0 x"
  shows "reach (exec W A D) (\<lambda>_ _. True) (ac_sys x0) (ac_sys x)
    \<and> length (ac_incoming x) \<le> 1
    \<and> (\<forall>h \<in> set (ac_incoming x). readers (ac_sys x) h \<noteq> None \<and> writers (ac_sys x) h \<noteq> None
        \<or> (\<exists>cr. ac_creating x = Some cr \<and> cr_pair cr = h \<and> cr_sent cr))"
proof -
  have run: "reach (exec W A D) (\<lambda>_ _. True) (ac_sys x0) (ac_sys x)" and inv: "accept_inv W A x"
    using loop_stack.accepting_simulated [OF assms(1,2) refl assms(3)] by simp_all
  have "both_held (ac_sys x) h \<or> (\<exists>cr. ac_creating x = Some cr \<and> cr_pair cr = h \<and> cr_sent cr)"
    if "h \<in> set (ac_incoming x)" for h
    using inv that by (cases "ac_creating x") (auto simp: accept_inv_def list_all_iff split: if_splits)
  with run inv show ?thesis
    by (auto simp: accept_inv_def both_held_def)
qed

theorem accepting_refines_system_witness:
  "\<exists>x0 x cr. start_io slab_api 0 sample_caps = Done x0 \<and> run_events sample_accept two_syns x0 = Some (Done x)
     \<and> ac_creating x = Some cr \<and> reach sample_exec (\<lambda>_ _. True) (ac_sys x0) (ac_sys x) \<and> length (ac_incoming x) \<le> 1"
proof -
  obtain x0 x cr where run: "start_io slab_api 0 sample_caps = Done x0"
      "run_events sample_accept two_syns x0 = Some (Done x)" "reach sample_accept waits x0 x"
    and cr: "ac_creating x = Some cr"
    using sample_two_syns by blast
  from accepting_refines_system [OF sample.loop_stack_axioms run(1,3)] run(1,2) cr show ?thesis by blast
qed

text \<open>
  (C11) A stream that is read too early reports its end. The listener gets the stream before the SYN is
  processed. In every state reached by clients that left the stream alone so far, when it has been
  accepted and its connection is not in the pool yet, its socket is still listening and may not
  receive; the reader, which waits only for sockets that may receive or are in \<open>SynReceived\<close>,
  returns a count of zero and marks the end.
\<close>

theorem early_read_reports_end:
  assumes "loop_stack D ent in_range W A (Clock_new t0)" and "listening_sockets A"
    and "start_io D t0 caps = Done x0" and "reach (accept_exec W A D) waits x0 x"
    and "ac_creating x = Some cr" and "cr_sent cr" and "cr_pair cr \<notin> set (ac_incoming x)"
  shows "\<exists>x' cr' rh rh'. accept_exec W A D (Sys (AppRead (cr_pair cr) True wk buf)) x = Some (Done x')
    \<and> ac_creating x' = Some cr' \<and> cr_reader cr = Some rh \<and> cr_reader cr' = Some rh'
    \<and> ReadHalf_poll_read_inner A True wk buf rh (socket (cr_conn cr)) (read_readiness (rw (cr_conn cr))) =
        (Ready (Inr 0), buf, rh', socket (cr_conn cr), read_readiness (rw (cr_conn cr)))
    \<and> rh_eof_reached rh'"
proof -
  have "accept_inv W A x"
    using loop_stack.accepting_simulated [OF assms(1,3) refl assms(4)] by simp
  with assms(5) obtain t where
    "opens_connection W A (cr_wr cr) (cr_rd cr) (loop (ac_sys x)) = Some (cr_pair cr, t)" and t: "untouched cr t"
    by (auto simp: accept_inv_def)
  then have "at_end A t"
    using listening_sockets.opened_at_end [OF assms(2) opens_socket] by blast
  with early_read [OF assms(5-7) t] show ?thesis by blast
qed

theorem early_read_reports_end_witness:
  "\<exists>x0 x x' cr rh. start_io slab_api 0 sample_caps = Done x0
     \<and> run_events sample_accept early_run x0 = Some (Done x)
     \<and> sample_accept (Sys (AppRead sample_handle True 7 [0])) x = Some (Done x')
     \<and> ac_creating x' = Some cr \<and> cr_reader cr = Some rh \<and> rh_eof_reached rh"
proof -
  obtain x0 x cr where x0: "start_io slab_api 0 sample_caps = Done x0"
    and run: "run_events sample_accept early_run x0 = Some (Done x)" and ok: "all_allowed sample_accept waits early_run x0"
    and st: "ac_creating x = Some cr" "cr_sent cr" "cr_pair cr = sample_handle" "ac_incoming x = []"
    using sample_early by blast
  then have free: "cr_pair cr \<notin> set (ac_incoming x)" by simp
  from early_read_reports_end [OF sample.loop_stack_axioms sample_listening.listening_sockets_axioms x0
      all_allowed_reach [OF run ok] st(1,2) free, of 7 "[0]"] x0 run st(3)
  show ?thesis by auto
qed

end
