(* ===== verification/Early_Access.thy ===== *)
theory Early_Access
  imports Accepting
begin

text \<open>
  The system with its listener for arbitrary clients, which may use a stream, or drop it, before its
  connection is in the pool. The state is seen as a state of the system of the loop and its
  connections: a connection whose stream was sent counts as pooled from then on. Every action on a half,
  early or not, is that action on this view, and the rest of the round that created the
  connection is a round on it. So the accounting of the halves and the complete list of panics hold
  for every interleaving with the listener, too.
\<close>

section \<open>The view\<close>

definition view :: "('s, 'q, 'k) accepting \<Rightarrow> ('s, 'q, 'k) sys" where
  "view x = (case ac_creating x of
     Some cr \<Rightarrow> if cr_sent cr then put_in cr (ac_sys x) else ac_sys x
   | None \<Rightarrow> ac_sys x)"

lemma put_in_simps [simp]:
  "loop (put_in cr s) = put_connection (cr_pair cr) (cr_conn cr) (loop s)"
  "sockets_of (put_in cr s) = (sockets_of s)(cr_pair cr \<mapsto> cr_conn cr)"
  "readers (put_in cr s) = (readers s)(cr_pair cr := cr_reader cr)"
  "writers (put_in cr s) = (writers s)(cr_pair cr := cr_writer cr)"
  "running (put_in cr s) = running s" "at_top (put_in cr s) = at_top s" "listening (put_in cr s) = listening s"
  "closings (put_in cr s) = closings s" "updates (put_in cr s) = updates s"
  by (simp_all add: put_in_def set_connection_loop put_connection_def set_pool_def sockets_of_def loop_pool_def)

lemma view_simps [simp]:
  "running (view x) = running (ac_sys x)" "at_top (view x) = at_top (ac_sys x)"
  "listening (view x) = listening (ac_sys x)"
  by (simp_all add: view_def split: option.split)

lemma view_incoming [simp]: "view (x\<lparr>ac_incoming := hs\<rparr>) = view x"
  by (simp add: view_def split: option.split)

lemma view_none: "ac_creating x = None \<Longrightarrow> view x = ac_sys x"
  by (simp add: view_def)

lemma put_in_take_out:
  assumes "take_out cr s = (cr', s')" and "sockets_of s (cr_pair cr) \<noteq> None"
  shows "put_in cr' s' = s" and "cr_pair cr' = cr_pair cr"
    and "cr_sent cr' = cr_sent cr"
  using assms
  by (auto simp: take_out_def put_in_def Let_def set_connection_def sockets_of_def set_pool_def
      loop_pool_def map_upd_triv)

section \<open>Actions on halves, on the view\<close>

text \<open>An action on a half does not depend on another connection.\<close>

lemma put_connection_twist:
  "g \<noteq> h \<Longrightarrow> put_connection g c (put_connection h d l) = put_connection h d (put_connection g c l)"
  by (simp add: put_connection_def set_pool_def loop_pool_def fun_upd_twist)

lemma put_in_other:
  assumes "g \<noteq> cr_pair cr"
  shows "set_connection g c (put_in cr s) = put_in cr (set_connection g c s)"
    and "(put_in cr s)\<lparr>readers := ((readers s)(cr_pair cr := cr_reader cr))(g := rh)\<rparr> =
      put_in cr (s\<lparr>readers := (readers s)(g := rh)\<rparr>)"
    and "(put_in cr s)\<lparr>closings := ms, readers := ((readers s)(cr_pair cr := cr_reader cr))(g := rh)\<rparr> =
      put_in cr (s\<lparr>closings := ms, readers := (readers s)(g := rh)\<rparr>)"
    and "(put_in cr s)\<lparr>closings := ms, writers := ((writers s)(cr_pair cr := cr_writer cr))(g := wh)\<rparr> =
      put_in cr (s\<lparr>closings := ms, writers := (writers s)(g := wh)\<rparr>)"
    and "(put_in cr s)\<lparr>updates := us\<rparr> = put_in cr (s\<lparr>updates := us\<rparr>)"
  using assms by (simp_all add: put_in_def set_connection_loop put_connection_twist fun_upd_twist)

lemma exec_put_in:
  assumes "event_half e = Some g" and "g \<noteq> cr_pair cr"
  shows "exec W A D e (put_in cr s) = map_option (\<lambda>o1. and_then o1 (\<lambda>s'. Done (put_in cr s'))) (exec W A D e s)"
  using assms
  by (cases e) (simp_all add: step_read_def step_write_def step_close_def put_in_other and_then_assoc
      case_prod_beta del: fun_upd_apply split: option.split, auto intro!: and_then_cong)

lemma exec_half_pooled:
  assumes "event_half e = Some g" and "exec W A D e s = Some (Done s')" and "sockets_of s h \<noteq> None"
  shows "sockets_of s' h \<noteq> None"
  using exec_half [OF assms(1,2)] assms(3)
  by (auto simp: sockets_of_def put_connection_def)

text \<open>The stream of a connection that is not sent yet is out of reach.\<close>

definition in_reach :: "addr_pair \<Rightarrow> ('s, 'q, 'k) accepting \<Rightarrow> bool" where
  "in_reach h x \<longleftrightarrow> (\<forall>cr. ac_creating x = Some cr \<longrightarrow> \<not> cr_sent cr \<longrightarrow> cr_pair cr \<noteq> h)"

lemma half_step_view:
  assumes "event_half e = Some h" and "in_reach h x" and "half_step W A D (h, e) x = Some r"
  shows "exec W A D e (view x) = Some (and_then r (\<lambda>x'. Done (view x')))"
proof (cases "\<exists>cr. ac_creating x = Some cr \<and> cr_pair cr = h")
  case True
  then obtain cr where cr: "ac_creating x = Some cr" "cr_pair cr = h" "cr_sent cr"
    using assms(2) by (auto simp: in_reach_def)
  with assms(3) obtain o1 where o1: "exec W A D e (put_in cr (ac_sys x)) = Some o1"
    and r: "r = and_then o1 (\<lambda>s. let (cr', s') = take_out cr s in Done (x\<lparr>ac_sys := s', ac_creating := Some cr'\<rparr>))"
    by (auto simp: half_step_def simp del: exec.simps)
  have "view (x\<lparr>ac_sys := s', ac_creating := Some cr'\<rparr>) = s" if "o1 = Done s" "take_out cr s = (cr', s')" for s s' cr'
  proof -
    have "sockets_of s (cr_pair cr) \<noteq> None"
      by (rule exec_half_pooled [OF assms(1) o1 [unfolded that(1)]]) simp
    from put_in_take_out [OF that(2) this] cr show ?thesis
      by (simp add: view_def)
  qed
  then have "and_then r (\<lambda>x'. Done (view x')) = o1"
    unfolding r by (cases o1) (auto simp: Let_def split: prod.split)
  with o1 cr show ?thesis
    by (simp add: view_def del: exec.simps)
next
  case False
  with assms(3) have r: "lift_sys x (exec W A D e (ac_sys x)) = Some r"
    by (auto simp: half_step_def split: option.splits simp del: exec.simps)
  show ?thesis
  proof (cases "ac_creating x")
    case None
    with r show ?thesis
      by (auto simp: lift_sys_def view_def and_then_assoc simp del: exec.simps)
  next
    case (Some cr)
    with False have "h \<noteq> cr_pair cr" by auto
    with Some r show ?thesis
      by (auto simp: lift_sys_def view_def and_then_assoc exec_put_in [OF assms(1)] simp del: exec.simps)
  qed
qed

section \<open>The invariant\<close>

text \<open>While a connection is created the loop is in the middle of its round, and the pair is not in the pool.\<close>

definition stage_ok :: "wire_api \<Rightarrow> 's tcp_api \<Rightarrow> ('s, 'q, 'k) accepting \<Rightarrow> bool" where
  "stage_ok W A x \<longleftrightarrow> (\<forall>cr. ac_creating x = Some cr \<longrightarrow> running (ac_sys x) \<and> \<not> at_top (ac_sys x)
     \<and> sockets_of (ac_sys x) (cr_pair cr) = None
     \<and> (\<not> cr_sent cr \<longrightarrow> (\<exists>t. opens_connection W A (cr_wr cr) (cr_rd cr) (loop (ac_sys x)) = Some (cr_pair cr, t)
          \<and> untouched cr t)))"

text \<open>A stream in the channel is whole, and it was sent.\<close>

definition waiting_ok :: "('s, 'q, 'k) accepting \<Rightarrow> bool" where
  "waiting_ok x \<longleftrightarrow> length (ac_incoming x) \<le> 1
     \<and> (\<forall>h \<in> set (ac_incoming x). both_held (view x) h \<and> in_reach h x)"

definition early_inv ::
    "('q, 'k) entries \<Rightarrow> (instant \<Rightarrow> bool) \<Rightarrow> clock \<Rightarrow> wire_api \<Rightarrow> 's tcp_api \<Rightarrow> ('s, 'q, 'k) accepting \<Rightarrow> bool" where
  "early_inv ent in_range clk W A x \<longleftrightarrow>
     sys_inv ent in_range clk W (view x) \<and> stage_ok W A x \<and> waiting_ok x"

text \<open>
  A step leaves the view as it is, is a run of events on it, or puts the new connection into it; the last
  is the send of a stream to the listener.
\<close>

definition hands_over :: "('s, 'q, 'k) accepting \<Rightarrow> ('s, 'q, 'k) accepting \<Rightarrow> bool" where
  "hands_over x x' \<longleftrightarrow> (\<exists>cr t. ac_creating x = Some cr \<and> untouched cr t \<and> sockets_of (view x) (cr_pair cr) = None
     \<and> view x' = put_in cr (view x) \<and> ac_incoming x' = [cr_pair cr])"

lemma half_step_stage:
  assumes "event_half e = Some h" and "in_reach h x" and "half_step W A D (h, e) x = Some (Done x')"
  shows "stage_ok W A x \<Longrightarrow> stage_ok W A x'" and "ac_incoming x' = ac_incoming x"
    and "in_reach g x' \<longleftrightarrow> in_reach g x"
proof -
  have "(stage_ok W A x \<longrightarrow> stage_ok W A x') \<and> ac_incoming x' = ac_incoming x \<and> (in_reach g x' \<longleftrightarrow> in_reach g x)"
  proof (cases "\<exists>cr. ac_creating x = Some cr \<and> cr_pair cr = h")
    case True
    with assms obtain cr s cr' s' where cr: "ac_creating x = Some cr" "cr_pair cr = h" "cr_sent cr"
      and s: "exec W A D e (put_in cr (ac_sys x)) = Some (Done s)" and out: "take_out cr s = (cr', s')"
      and x': "x' = x\<lparr>ac_sys := s', ac_creating := Some cr'\<rparr>"
      by (auto simp: half_step_def in_reach_def Let_def split: prod.splits simp del: exec.simps)
    have "cr_sent cr'" "running s' = running (ac_sys x)" "at_top s' = at_top (ac_sys x)" "sockets_of s' (cr_pair cr') = None"
      using out cr(3) exec_half [OF assms(1) s] by (auto simp: take_out_def Let_def sockets_of_def)
    with cr x' show ?thesis
      by (auto simp: stage_ok_def in_reach_def)
  next
    case False
    with assms(3) obtain s where s: "exec W A D e (ac_sys x) = Some (Done s)" and x': "x' = x\<lparr>ac_sys := s\<rparr>"
      by (auto simp: half_step_def lift_sys_def split: option.splits simp del: exec.simps)
    have "opens_connection W A wr rd (loop s) = Some (k, t)"
      if "opens_connection W A wr rd (loop (ac_sys x)) = Some (k, t)" "k \<noteq> h" for wr rd k t
      using exec_half [OF assms(1) s] that by (auto intro: opens_put_connection)
    moreover have "sockets_of s k = sockets_of (ac_sys x) k" if "k \<noteq> h" for k
      using exec_half [OF assms(1) s] that by (auto simp: sockets_of_def put_connection_def)
    ultimately show ?thesis
      using False exec_half [OF assms(1) s] x' by (auto simp: stage_ok_def in_reach_def)
  qed
  then show "stage_ok W A x \<Longrightarrow> stage_ok W A x'" "ac_incoming x' = ac_incoming x"
    "in_reach g x' \<longleftrightarrow> in_reach g x"
    by blast+
qed

text \<open>Several actions on halves, as when the listener is dropped.\<close>

lemma half_run_view:
  assumes "run_events (half_step W A D) hes x = Some r"
    and "\<And>h e. (h, e) \<in> set hes \<Longrightarrow> event_half e = Some h \<and> in_reach h x"
  shows "run_events (exec W A D) (map snd hes) (view x) = Some (and_then r (\<lambda>x'. Done (view x')))"
    and "r = Done x' \<Longrightarrow> stage_ok W A x \<Longrightarrow> stage_ok W A x' \<and> ac_incoming x' = ac_incoming x"
proof -
  have "run_events (exec W A D) (map snd hes) (view x) = Some (and_then r (\<lambda>x'. Done (view x')))
    \<and> (\<forall>x'. r = Done x' \<longrightarrow> stage_ok W A x \<longrightarrow> stage_ok W A x' \<and> ac_incoming x' = ac_incoming x)"
    using assms
  proof (induction hes arbitrary: x)
    case Nil
    then show ?case by auto
  next
    case (Cons he hes)
    obtain h e where he: "he = (h, e)" by (cases he)
    with Cons.prems(2) have e: "event_half e = Some h" "in_reach h x" by auto
    from Cons.prems(1) he obtain r1 where r1: "half_step W A D (h, e) x = Some r1"
      by (auto split: option.splits)
    note view = half_step_view [OF e r1]
    show ?case
    proof (cases r1)
      case (Panicked p)
      with Cons.prems(1) he r1 view show ?thesis by (auto simp del: exec.simps)
    next
      case (Done x1)
      note stage = half_step_stage [OF e r1 [unfolded Done]]
      have run: "run_events (half_step W A D) hes x1 = Some r"
        using Cons.prems(1) he r1 Done by simp
      have "event_half e' = Some h' \<and> in_reach h' x1" if "(h', e') \<in> set hes" for h' e'
        using Cons.prems(2) [of h' e'] that stage(3) by simp
      note rest = Cons.IH [OF run this]
      have "run_events (exec W A D) (map snd (he # hes)) (view x) = run_events (exec W A D) (map snd hes) (view x1)"
        using he view Done by (simp del: exec.simps)
      with rest stage(1,2) show ?thesis by auto
    qed
  qed
  then show "run_events (exec W A D) (map snd hes) (view x) = Some (and_then r (\<lambda>x'. Done (view x')))"
    "r = Done x' \<Longrightarrow> stage_ok W A x \<Longrightarrow> stage_ok W A x' \<and> ac_incoming x' = ac_incoming x"
    by blast+
qed

section \<open>Preservation\<close>

lemma put_in_halves:
  assumes "untouched cr t"
  shows "alive (put_in cr s) x \<longleftrightarrow> alive s x \<or> fst x = cr_pair cr"
    and "open_half (sockets_of (put_in cr s)) x \<longleftrightarrow> open_half (sockets_of s) x \<and> fst x \<noteq> cr_pair cr \<or> fst x = cr_pair cr"
    and "both_held (put_in cr s) (cr_pair cr)"
proof -
  show "alive (put_in cr s) x \<longleftrightarrow> alive s x \<or> fst x = cr_pair cr"
    using assms by (cases "(s, x)" rule: alive.cases) (auto simp: untouched_def)
  have "\<not> dropped_side side (rw (cr_conn cr))" for side
    using assms by (cases side) (simp_all add: untouched_def TcpStream_new_def Connection_new_def Let_def split_beta)
  then show "open_half (sockets_of (put_in cr s)) x \<longleftrightarrow>
      open_half (sockets_of s) x \<and> fst x \<noteq> cr_pair cr \<or> fst x = cr_pair cr"
    by (auto simp: open_half_def)
  show "both_held (put_in cr s) (cr_pair cr)"
    using assms by (simp add: both_held_def untouched_def)
qed

context loop_stack
begin

text \<open>A connection may be put into the pool as soon as its stream is sent.\<close>

lemma put_in_inv:
  assumes inv: "sys_inv ent in_range clk W s" and new: "untouched cr t" "sockets_of s (cr_pair cr) = None"
  shows "sys_inv ent in_range clk W (put_in cr s)"
proof -
  note I = sys_invD [OF inv]
  let ?h = "cr_pair cr" and ?p = "loop_pool (loop s)"
  have pinv: "pool_inv ent clk (next_poll (loop s)) ?p"
    using I(1) by (simp add: loop_inv_def)
  have conn: "Connection_handle (cr_conn cr) = ?h" "\<not> needs_poll (cr_conn cr)"
    using new(1) by (simp_all add: untouched_def TcpStream_new_def Connection_new_def Connection_handle_def
        needs_poll_def both_dropped_def Let_def split_beta)
  have "pool_inv ent clk (next_poll (loop s)) (?p\<lparr>sp_queue := sp_queue ?p, sp_sockets := (sp_sockets ?p)(?h \<mapsto> cr_conn cr)\<rparr>)"
    by (rule pool_inv_update [OF pinv touches_only_refl [OF pool_invD(1) [OF pinv]]]) (use conn in simp_all)
  then have loop: "loop_inv ent clk W (loop (put_in cr s))"
    using I(1) by (simp add: loop_inv_def loop_pool_def)
  have "\<not> alive s x \<and> x \<notin> set (closings s)" if "fst x = ?h" for x
    using that new(2) by (intro balancedD(4) [OF I(3)]) (simp add: open_half_def)
  then have "balanced (put_in cr s)"
    using I(3) unfolding balanced_def put_in_halves(1,2) [OF new(1)]
    by (auto simp: count_list_0_iff)
  moreover have "named (put_in cr s)"
    using I(4) new(1)
    by (auto simp: named_def untouched_def TcpStream_new_def ReadHalf_new_def WriteHalf_new_def Let_def split_beta)
  ultimately show ?thesis
    using loop I by (auto simp: sys_inv_def loop_ready_def)
qed

lemma loop_step_early:
  assumes inv: "early_inv ent in_range clk W A x" and step: "exec W A D e (view x) = Some (Done (ac_sys x'))"
    and "event_half e = None" and "ac_creating x' = None" and "ac_incoming x' = ac_incoming x"
  shows "early_inv ent in_range clk W A x'"
proof -
  have "sys_inv ent in_range clk W (ac_sys x')"
    using inv step by (auto simp: early_inv_def simp del: exec.simps intro: exec_inv)
  with assms loop_step_held [OF step assms(3)] show ?thesis
    by (auto simp: early_inv_def stage_ok_def waiting_ok_def in_reach_def view_def)
qed

lemma half_step_early:
  assumes inv: "early_inv ent in_range clk W A x" and e: "event_half e = Some h" and "\<not> not_accepted h x"
    and step: "half_step W A D (h, e) x = Some (Done x')"
  shows "early_inv ent in_range clk W A x'"
proof -
  have reach: "in_reach h x"
    using assms(3) by (auto simp: not_accepted_def in_reach_def)
  have view: "exec W A D e (view x) = Some (Done (view x'))"
    using half_step_view [OF e reach step] by simp
  note stage = half_step_stage [OF e reach step]
  have "sys_inv ent in_range clk W (view x')"
    using inv view by (auto simp: early_inv_def simp del: exec.simps intro: exec_inv)
  moreover have "both_held (view x') g" if "both_held (view x) g" "g \<in> set (ac_incoming x)" for g
    using that exec_half [OF e view] assms(3) by (auto simp: both_held_def not_accepted_def)
  ultimately show ?thesis
    using inv stage by (auto simp: early_inv_def waiting_ok_def)
qed

lemma round_early:
  assumes inv: "early_inv ent in_range clk W A x" and none: "ac_creating x = None"
    and step: "round_step W A D now wr rd x = Some (Done x')"
  shows "early_inv ent in_range clk W A x'"
proof (cases "if running (ac_sys x) \<and> \<not> at_top (ac_sys x) \<and> listening (ac_sys x)
    then opens_connection W A wr rd (loop (ac_sys x)) else None")
  case None
  with step obtain s where s: "exec W A D (Select now wr rd) (ac_sys x) = Some (Done s)" "x' = x\<lparr>ac_sys := s\<rparr>"
    by (auto simp: round_step_def lift_sys_def Let_def simp del: exec.simps)
  show ?thesis
    by (rule loop_step_early [OF inv, of "Select now wr rd"]) (use s none in \<open>simp_all add: view_none del: exec.simps\<close>)
next
  case (Some ht)
  obtain h t where ht: "ht = (h, t)" by (cases ht)
  with Some have opens: "opens_connection W A wr rd (loop (ac_sys x)) = Some (h, t)"
    and on: "running (ac_sys x)" "\<not> at_top (ac_sys x)"
    by (auto split: if_splits)
  from step Some ht have x': "x' = x\<lparr>ac_creating := Some (begin_creation now wr rd h t)\<rparr>"
    by (simp add: round_step_def Let_def)
  have view: "view x' = view x"
    using none by (simp add: x' view_def begin_creation_def Let_def split_beta)
  have "balanced (ac_sys x)"
    using inv none by (simp add: early_inv_def view_none sys_inv_def)
  then have "h \<notin> set (ac_incoming x)"
    using inv none both_held_pooled [of "ac_sys x" h] opens_fresh [OF opens]
    by (auto simp: early_inv_def waiting_ok_def view_none sockets_of_def)
  moreover have "sockets_of (ac_sys x) h = None"
    using opens_fresh [OF opens] by (simp add: sockets_of_def)
  ultimately show ?thesis
    using inv view opens on none
    by (auto simp: early_inv_def waiting_ok_def stage_ok_def in_reach_def x' begin_creation_def untouched_def
        Let_def split_beta)
qed

lemma offer_early:
  assumes inv: "early_inv ent in_range clk W A x" and step: "offer_step W A D x = Some (Done x')"
  shows "early_inv ent in_range clk W A x'"
proof -
  from step obtain cr where cr: "ac_creating x = Some cr" "\<not> cr_sent cr"
    by (auto simp: offer_step_def split: option.splits if_splits)
  with inv obtain t where on: "running (ac_sys x)" "\<not> at_top (ac_sys x)"
    and opens: "opens_connection W A (cr_wr cr) (cr_rd cr) (loop (ac_sys x)) = Some (cr_pair cr, t)"
    and new: "untouched cr t"
    by (auto simp: early_inv_def stage_ok_def)
  have view: "view x = ac_sys x"
    using cr by (simp add: view_def)
  show ?thesis
  proof (cases "listening (ac_sys x)")
    case True
    let ?cr = "cr\<lparr>cr_sent := True\<rparr>"
    from True step cr have x': "x' = x\<lparr>ac_incoming := [cr_pair cr], ac_creating := Some ?cr\<rparr>"
      by (auto simp: offer_step_def split: if_splits)
    have new': "untouched ?cr t"
      using new by (simp add: untouched_def)
    have view': "view x' = put_in ?cr (ac_sys x)"
      by (simp add: x' view_def)
    have "sys_inv ent in_range clk W (view x')"
      unfolding view' using inv view opens_fresh [OF opens]
      by (intro put_in_inv [OF _ new']) (simp_all add: early_inv_def sockets_of_def)
    moreover have "both_held (view x') (cr_pair cr)"
      using put_in_halves(3) [OF new', of "ac_sys x"] by (simp add: view')
    ultimately show ?thesis
      using on opens_fresh [OF opens]
      by (simp add: early_inv_def waiting_ok_def stage_ok_def in_reach_def sockets_of_def x')
  next
    case False
    with step cr on obtain s where
      s: "exec W A D (Select (cr_now cr) (cr_wr cr) (cr_rd cr)) (ac_sys x) = Some (Done s)"
      and x': "x' = x\<lparr>ac_sys := s, ac_creating := None\<rparr>"
      by (auto simp: offer_step_def)
    show ?thesis
      by (rule loop_step_early [OF inv, of "Select (cr_now cr) (cr_wr cr) (cr_rd cr)"])
        (use s in \<open>simp_all add: x' view del: exec.simps\<close>)
  qed
qed

lemma resume_early:
  assumes inv: "early_inv ent in_range clk W A x" and step: "resume_step W A D x = Some r"
  obtains x' where "r = Done x'" "early_inv ent in_range clk W A x'"
proof -
  from step obtain cr where cr: "ac_creating x = Some cr" "cr_sent cr"
    by (auto simp: resume_step_def split: option.splits if_splits)
  let ?e = "Select (cr_now cr) (cr_wr cr) (cr_rd cr)"
  from inv cr have on: "running (view x)" "\<not> at_top (view x)" and view: "view x = put_in cr (ac_sys x)"
    and free: "sockets_of (ac_sys x) (cr_pair cr) = None"
    by (auto simp: early_inv_def stage_ok_def view_def)
  obtain s where s: "step_select W A D (cr_now cr) (cr_wr cr) (cr_rd cr) (view x) = Done s"
    using step_select_no_panic [of "view x"] inv on unfolding early_inv_def no_panic_iff by blast
  let ?x' = "x\<lparr>ac_sys := s, ac_creating := None\<rparr>"
  show thesis
  proof (rule that [of ?x'])
    show "r = Done ?x'"
      using step cr s free by (simp add: resume_step_def view)
    show "early_inv ent in_range clk W A ?x'"
      by (rule loop_step_early [OF inv, of ?e]) (use on s in simp_all)
  qed
qed

text \<open>Dropping the listener drops the halves of the stream in the channel.\<close>

lemma drop_listener_view:
  assumes inv: "early_inv ent in_range clk W A x" and step: "accept_exec W A D (Sys DropListener) x = Some r"
  obtains es where "run_events (exec W A D) (DropListener # es) (view x) = Some (and_then r (\<lambda>x'. Done (view x')))"
    "\<forall>e \<in> set es. \<exists>h \<in> set (ac_incoming x). e = DropWriter h \<or> e = DropReader h"
    "\<And>x'. r = Done x' \<Longrightarrow> stage_ok W A x' \<and> ac_incoming x' = []"
proof -
  let ?x0 = "x\<lparr>ac_sys := (ac_sys x)\<lparr>listening := False\<rparr>, ac_incoming := []\<rparr>"
  let ?hes = "concat (map (\<lambda>h. [(h, DropWriter h), (h, DropReader h)]) (ac_incoming x))"
  have run: "run_events (half_step W A D) ?hes ?x0 = Some r"
    using step by simp
  have half: "event_half e = Some h \<and> in_reach h ?x0" if "(h, e) \<in> set ?hes" for h e
    using that inv by (auto simp: early_inv_def waiting_ok_def in_reach_def)
  have view: "view ?x0 = (view x)\<lparr>listening := False\<rparr>"
    by (simp add: view_def put_in_def set_connection_loop split: option.split)
  have stage: "stage_ok W A ?x0"
    using inv by (auto simp: early_inv_def stage_ok_def sockets_of_def)
  show thesis
  proof (rule that [of "map snd ?hes"])
    show "run_events (exec W A D) (DropListener # map snd ?hes) (view x) = Some (and_then r (\<lambda>x'. Done (view x')))"
      using half_run_view(1) [OF run half] view by simp
    show "\<forall>e \<in> set (map snd ?hes). \<exists>h \<in> set (ac_incoming x). e = DropWriter h \<or> e = DropReader h"
      by auto
    show "stage_ok W A x' \<and> ac_incoming x' = []" if "r = Done x'" for x'
      using half_run_view(2) [OF run half that stage] by simp
  qed
qed

lemma drop_listener_sim:
  assumes inv: "early_inv ent in_range clk W A x"
    and step: "accept_exec W A D (Sys DropListener) x = Some (Done x')"
  shows "reach (exec W A D) (\<lambda>_ _. True) (view x) (view x')"
proof (rule drop_listener_view [OF inv step])
  fix es
  assume "run_events (exec W A D) (DropListener # es) (view x) = Some (and_then (Done x') (\<lambda>x'. Done (view x')))"
  then show ?thesis
    by (intro run_events_reach [of "exec W A D" "DropListener # es"]) simp
qed

lemma drop_listener_early:
  assumes inv: "early_inv ent in_range clk W A x"
    and step: "accept_exec W A D (Sys DropListener) x = Some (Done x')"
  shows "early_inv ent in_range clk W A x'"
proof -
  have "stage_ok W A x' \<and> ac_incoming x' = []"
    by (rule drop_listener_view [OF inv step]) blast
  with any.reach_inv [OF drop_listener_sim [OF inv step]] inv show ?thesis
    by (auto simp: early_inv_def waiting_ok_def)
qed

lemma accept_exec_early:
  assumes inv: "early_inv ent in_range clk W A x" and step: "accept_exec W A D e x = Some (Done x')"
  shows "early_inv ent in_range clk W A x'"
proof (cases e)
  case (Sys f)
  show ?thesis
  proof (cases f)
    case (Egress now)
    with Sys step obtain s where none: "ac_creating x = None" and x': "x' = x\<lparr>ac_sys := s\<rparr>"
      and s: "exec W A D (Egress now) (ac_sys x) = Some (Done s)"
      by (auto simp: lift_sys_def split: if_splits simp del: exec.simps)
    show ?thesis
      by (rule loop_step_early [OF inv, of "Egress now"]) (use none s x' in \<open>simp_all add: view_none del: exec.simps\<close>)
  next
    case (Select now wr rd)
    with Sys step round_early [OF inv] show ?thesis by (auto split: if_splits)
  next
    case DropListener
    with Sys step drop_listener_early [OF inv] show ?thesis by blast
  qed (use Sys step in \<open>auto split: if_splits dest!: half_step_early [OF inv, rotated 2]\<close>)
next
  case Offer
  with step offer_early [OF inv] show ?thesis by simp
next
  case Resume
  with step show ?thesis by (auto elim: resume_early [OF inv])
next
  case Accept
  with step obtain h hs where "ac_incoming x = h # hs" "x' = x\<lparr>ac_incoming := hs\<rparr>"
    by (auto simp: TcpListener_accept_def split: list.splits if_splits)
  with inv show ?thesis
    by (auto simp: early_inv_def waiting_ok_def stage_ok_def in_reach_def view_def split: option.splits)
qed

section \<open>Panics\<close>

lemma half_run_panics:
  assumes "sys_inv ent in_range clk W s" and "run_events (exec W A D) es s = Some (Panicked p)"
    and "\<forall>e \<in> set es. event_half e \<noteq> None"
  shows "p = ChannelClosed \<and> \<not> running s"
  using assms
proof (induction es arbitrary: s)
  case (Cons e es)
  then obtain g where e: "event_half e = Some g" by auto
  from Cons.prems(2) consider "exec W A D e s = Some (Panicked p)"
    | s1 where "exec W A D e s = Some (Done s1)" "run_events (exec W A D) es s1 = Some (Panicked p)"
    by (auto split: option.splits outcome.splits)
  then show ?case
  proof cases
    case 1
    from exec_panics [OF Cons.prems(1) 1] e show ?thesis by auto
  next
    case 2
    with Cons.IH [OF exec_inv [OF Cons.prems(1) 2(1)] 2(2)] Cons.prems(3) exec_half [OF e 2(1)] show ?thesis
      by simp
  qed
qed simp

lemma offer_no_panic:
  assumes inv: "early_inv ent in_range clk W A x"
  shows "offer_step W A D x \<noteq> Some (Panicked p)"
proof
  assume step: "offer_step W A D x = Some (Panicked p)"
  then obtain cr where cr: "ac_creating x = Some cr" "\<not> cr_sent cr"
    and panic: "step_select W A D (cr_now cr) (cr_wr cr) (cr_rd cr) (ac_sys x) = Panicked p"
    by (auto simp: offer_step_def and_then_Panicked_iff split: option.splits if_splits)
  with inv have "sys_inv ent in_range clk W (ac_sys x)" "running (ac_sys x)"
    by (auto simp: early_inv_def view_def stage_ok_def)
  from step_select_no_panic [OF this, of "cr_now cr" "cr_wr cr" "cr_rd cr"] panic show False by simp
qed

lemma half_step_panics:
  assumes inv: "early_inv ent in_range clk W A x" and step: "half_step W A D (h, e) x = Some (Panicked p)"
    and e: "event_half e = Some h" and "\<not> not_accepted h x"
  shows "p = ChannelClosed \<and> \<not> running (ac_sys x)"
proof -
  have "in_reach h x"
    using assms(4) by (auto simp: not_accepted_def in_reach_def)
  from half_step_view [OF e this step] have "exec W A D e (view x) = Some (Panicked p)"
    by simp
  with exec_panics [of "view x" e p] inv e show ?thesis
    by (auto simp: early_inv_def)
qed

lemma accept_exec_panics:
  assumes inv: "early_inv ent in_range clk W A x" and step: "accept_exec W A D e x = Some (Panicked p)"
  shows "(p = ChannelClosed \<and> \<not> running (ac_sys x))
    \<or> (p = DispatchAfterDrop \<and> running (ac_sys x) \<and> (\<exists>now. e = Sys (Egress now))
        \<and> \<not> set_option (next_poll (loop (ac_sys x))) \<subseteq> dom (sockets_of (ac_sys x)))"
proof -
  have sys: "sys_inv ent in_range clk W (view x)"
    using inv by (simp add: early_inv_def)
  show ?thesis
  proof (cases e)
    case (Sys f)
    show ?thesis
    proof (cases f)
      case (Egress now)
      with Sys step have "ac_creating x = None" "exec W A D (Egress now) (view x) = Some (Panicked p)"
        by (auto simp: lift_sys_def view_none and_then_Panicked_iff split: if_splits simp del: exec.simps)
      with exec_panics [OF sys] Sys Egress show ?thesis
        by (auto simp: view_none simp del: exec.simps)
    next
      case (Select now wr rd)
      with Sys step have "exec W A D (Select now wr rd) (view x) = Some (Panicked p)"
        by (auto simp: round_step_def lift_sys_def view_none and_then_Panicked_iff Let_def
            split: if_splits option.splits simp del: exec.simps)
      from exec_panics [OF sys this] show ?thesis by simp
    next
      case DropListener
      with Sys step obtain es where
        es: "run_events (exec W A D) (DropListener # es) (view x) = Some (Panicked p)"
        and halves: "\<forall>e \<in> set es. event_half e \<noteq> None"
        by (fastforce elim!: drop_listener_view [OF inv])
      have "sys_inv ent in_range clk W ((view x)\<lparr>listening := False\<rparr>)"
        using exec_inv [OF sys, of DropListener] by simp
      from half_run_panics [OF this _ halves] es show ?thesis by simp
    qed (use Sys step in \<open>auto split: if_splits dest!: half_step_panics [OF inv]\<close>)
  next
    case Resume
    with step resume_early [OF inv] show ?thesis by fastforce
  qed (use step offer_no_panic [OF inv] in \<open>auto split: prod.splits poll.splits option.splits\<close>)
qed

section \<open>The simulation on the view\<close>

lemma half_step_sim:
  assumes "half_step W A D (h, e) x = Some (Done x')" and "event_half e = Some h" and "\<not> not_accepted h x"
  shows "reach (exec W A D) (\<lambda>_ _. True) (view x) (view x')"
proof -
  have "in_reach h x"
    using assms(3) by (auto simp: not_accepted_def in_reach_def)
  from half_step_view [OF assms(2) this assms(1)] show ?thesis
    by (intro reach_one [of "exec W A D" e]) simp
qed

lemma round_view:
  assumes "ac_creating x = None" and "round_step W A D now wr rd x = Some (Done x')"
  shows "(view x' = view x \<or> exec W A D (Select now wr rd) (view x) = Some (Done (view x')))
    \<and> ac_incoming x' = ac_incoming x"
  using assms
  by (auto simp: round_step_def lift_sys_def view_def begin_creation_def Let_def split_beta simp del: exec.simps
      split: option.splits if_splits)

lemma offer_view:
  assumes inv: "early_inv ent in_range clk W A x" and step: "offer_step W A D x = Some (Done x')"
  shows "(\<exists>now wr rd. exec W A D (Select now wr rd) (view x) = Some (Done (view x'))) \<and> ac_incoming x' = ac_incoming x
    \<or> hands_over x x'"
proof -
  from step obtain cr where cr: "ac_creating x = Some cr" "\<not> cr_sent cr"
    by (auto simp: offer_step_def split: option.splits if_splits)
  with inv obtain t where on: "running (ac_sys x)" "\<not> at_top (ac_sys x)"
    and opens: "opens_connection W A (cr_wr cr) (cr_rd cr) (loop (ac_sys x)) = Some (cr_pair cr, t)"
    and new: "untouched cr t"
    by (auto simp: early_inv_def stage_ok_def)
  show ?thesis
  proof (cases "listening (ac_sys x)")
    case True
    with step cr have "x' = x\<lparr>ac_incoming := [cr_pair cr], ac_creating := Some (cr\<lparr>cr_sent := True\<rparr>)\<rparr>"
      by (auto simp: offer_step_def split: if_splits)
    with cr new opens_fresh [OF opens] have "hands_over x x'"
      by (auto simp: hands_over_def view_def put_in_def sockets_of_def)
    then show ?thesis ..
  next
    case False
    with step cr on have "exec W A D (Select (cr_now cr) (cr_wr cr) (cr_rd cr)) (view x) = Some (Done (view x'))
        \<and> ac_incoming x' = ac_incoming x"
      by (auto simp: offer_step_def view_def)
    then show ?thesis by blast
  qed
qed

lemma resume_view:
  assumes inv: "early_inv ent in_range clk W A x" and step: "resume_step W A D x = Some (Done x')"
  shows "(\<exists>now wr rd. exec W A D (Select now wr rd) (view x) = Some (Done (view x'))) \<and> ac_incoming x' = ac_incoming x"
proof -
  from step obtain cr where cr: "ac_creating x = Some cr" "cr_sent cr"
    by (auto simp: resume_step_def split: option.splits if_splits)
  with inv step have "exec W A D (Select (cr_now cr) (cr_wr cr) (cr_rd cr)) (view x) = Some (Done (view x'))
      \<and> ac_incoming x' = ac_incoming x"
    by (auto simp: resume_step_def early_inv_def stage_ok_def view_def split: if_splits)
  then show ?thesis by blast
qed

lemma accept_exec_sim:
  assumes inv: "early_inv ent in_range clk W A x" and step: "accept_exec W A D e x = Some (Done x')"
  shows "reach (exec W A D) (\<lambda>_ _. True) (view x) (view x') \<or> hands_over x x'"
proof (cases e)
  case (Sys f)
  show ?thesis
  proof (cases f)
    case (Egress now)
    with Sys step show ?thesis
      by (auto simp: lift_sys_def view_def split: if_splits simp del: exec.simps intro: reach_one [of "exec W A D"])
  next
    case (Select now wr rd)
    with Sys step round_view [of x now wr rd x'] show ?thesis
      by (auto split: if_splits intro: reach.start reach_one [of "exec W A D"] simp del: exec.simps)
  next
    case DropListener
    with Sys step drop_listener_sim [OF inv] show ?thesis by blast
  qed (use Sys step in \<open>auto split: if_splits dest!: half_step_sim\<close>)
next
  case Accept
  with step obtain h hs where "ac_incoming x = h # hs" "x' = x\<lparr>ac_incoming := hs\<rparr>"
    by (auto simp: TcpListener_accept_def split: list.splits if_splits)
  then show ?thesis
    by (simp add: reach.start)
next
  case Offer
  with step offer_view [OF inv, of x'] show ?thesis
    by (auto intro: reach_one [of "exec W A D"] simp del: exec.simps)
next
  case Resume
  with step resume_view [OF inv, of x'] show ?thesis
    by (auto intro: reach_one [of "exec W A D"] simp del: exec.simps)
qed

lemma early_start:
  assumes "start_io D t0 caps = Done x0" and "clk = Clock_new t0"
  shows "early_inv ent in_range clk W A x0"
proof -
  from assms(1) have x0: "sys_start D t0 caps = Done (ac_sys x0)" "ac_incoming x0 = []" "ac_creating x0 = None"
    by (auto simp: start_io_def)
  with sys_start_inv [OF x0(1) assms(2)] show ?thesis
    by (simp add: early_inv_def stage_ok_def waiting_ok_def view_none)
qed

end

sublocale loop_stack \<subseteq> early: invariant_system "accept_exec W A D" "\<lambda>_ _. True" "early_inv ent in_range clk W A"
  by unfold_locales (rule accept_exec_early)

context loop_stack
begin

lemma reach_early:
  assumes "start_io D t0 caps = Done x0" and "clk = Clock_new t0"
    and "reach (accept_exec W A D) (\<lambda>_ _. True) x0 x"
  shows "early_inv ent in_range clk W A x"
  using assms(3) early_start [OF assms(1,2)] by (rule early.reach_inv)

text \<open>With room in the channel the creation that is under way comes to its end.\<close>

lemma creation_ends:
  assumes inv: "early_inv ent in_range clk W A x" and cr: "ac_creating x = Some cr" "\<not> cr_sent cr"
    and "listening (ac_sys x)" and "ac_incoming x = []"
  shows "\<exists>x'. run_events (accept_exec W A D) [Offer, Resume] x = Some (Done x') \<and> ac_creating x' = None
    \<and> ac_incoming x' = [cr_pair cr] \<and> sockets_of (ac_sys x') (cr_pair cr) \<noteq> None"
proof -
  let ?x1 = "x\<lparr>ac_incoming := [cr_pair cr], ac_creating := Some (cr\<lparr>cr_sent := True\<rparr>)\<rparr>"
  have offer: "offer_step W A D x = Some (Done ?x1)"
    using assms by (simp add: offer_step_def)
  obtain r where r: "resume_step W A D ?x1 = Some r"
    by (simp add: resume_step_def)
  from resume_early [OF offer_early [OF inv offer] r] obtain x' where x': "r = Done x'"
    and inv': "early_inv ent in_range clk W A x'" .
  then have none: "ac_creating x' = None" "ac_incoming x' = [cr_pair cr]"
    using r by (auto simp: resume_step_def split: if_splits)
  have "balanced (ac_sys x')" "both_held (ac_sys x') (cr_pair cr)"
    using inv' none by (auto simp: early_inv_def waiting_ok_def view_none dest: sys_invD(3))
  from both_held_pooled [OF this] offer r x' none show ?thesis by simp
qed

end

section \<open>Waiting for room\<close>

text \<open>
  The loop stands still: at most the sockets and wakers inside its connections change, by the actions of
  the application. It has the same connections, schedule, replies, buffer and futures.
\<close>

definition stands_still :: "('s, 'q, 'k) io_loop \<Rightarrow> ('s, 'q, 'k) io_loop \<Rightarrow> bool" where
  "stands_still l l' \<longleftrightarrow> (\<exists>m. dom m = dom (sp_sockets (loop_pool l))
     \<and> l' = set_pool ((loop_pool l)\<lparr>sp_sockets := m\<rparr>) l)"

lemma stands_still_refl: "stands_still l l"
  unfolding stands_still_def
  by (intro exI [of _ "sp_sockets (loop_pool l)"]) (simp add: set_pool_def loop_pool_def)

lemma stands_still_trans:
  assumes "stands_still l1 l2" and "stands_still l2 l3"
  shows "stands_still l1 l3"
proof -
  from assms(1) obtain m where m: "dom m = dom (sp_sockets (loop_pool l1))"
      "l2 = set_pool ((loop_pool l1)\<lparr>sp_sockets := m\<rparr>) l1"
    by (auto simp: stands_still_def)
  with assms(2) obtain m' where "dom m' = dom m" "l3 = set_pool ((loop_pool l1)\<lparr>sp_sockets := m'\<rparr>) l1"
    by (auto simp: stands_still_def set_pool_def loop_pool_def)
  with m(1) show ?thesis
    unfolding stands_still_def by (intro exI [of _ m']) simp
qed

lemma put_connection_stands:
  assumes "h \<in> dom (sp_sockets (loop_pool l))"
  shows "stands_still l (put_connection h c l)"
  unfolding stands_still_def put_connection_def
  by (rule exI [of _ "(sp_sockets (loop_pool l))(h \<mapsto> c)"]) (use assms in auto)

lemma exec_half_stands:
  assumes "event_half e = Some g" and "exec W A D e s = Some (Done s')"
  shows "stands_still (loop s) (loop s')"
    and "\<exists>ms. closings s' = closings s @ ms" and "\<exists>us. updates s' = updates s @ us"
proof -
  show "stands_still (loop s) (loop s')"
    using assms
    by (cases e) (auto simp: step_read_def step_write_def step_close_def set_connection_loop sockets_of_def
        intro!: stands_still_refl put_connection_stands split: option.splits prod.splits)
  show "\<exists>ms. closings s' = closings s @ ms" "\<exists>us. updates s' = updates s @ us"
    using assms
    by (cases e; auto simp: step_read_def step_write_def step_close_def set_connection_loop
        split: option.splits prod.splits)+
qed

text \<open>Nobody takes a stream out of the channel.\<close>

definition unattended :: "accept_event \<Rightarrow> ('s, 'q, 'k) accepting \<Rightarrow> bool" where
  "unattended e x \<longleftrightarrow> e \<noteq> Accept \<and> e \<noteq> Sys DropListener"

lemma stalled_step:
  assumes st: "ac_creating x = Some cr" "\<not> cr_sent cr" "listening (ac_sys x)" "ac_incoming x = [h]"
    and "unattended e x" and step: "accept_exec W A D e x = Some (Done x')"
  obtains f g s where "event_half f = Some g" and "exec W A D f (ac_sys x) = Some (Done s)" and "x' = x\<lparr>ac_sys := s\<rparr>"
proof (cases e)
  case (Sys f)
  have half: "half_step W A D (g, f) x = lift_sys x (exec W A D f (ac_sys x))" if "\<not> not_accepted g x" for g
    using st that by (auto simp: half_step_def not_accepted_def simp del: exec.simps)
  from Sys step st assms(5) obtain g where "event_half f = Some g" "\<not> not_accepted g x"
      "half_step W A D (g, f) x = Some (Done x')"
    by (cases f) (auto simp: unattended_def split: if_splits simp del: exec.simps)
  with half that show thesis
    by (auto simp: lift_sys_def simp del: exec.simps)
qed (use assms in \<open>auto simp: unattended_def offer_step_def resume_step_def\<close>)

lemma stalled_stays:
  assumes "reach (accept_exec W A D) unattended x y"
    and st: "ac_creating x = Some cr" "\<not> cr_sent cr" "listening (ac_sys x)" "ac_incoming x = [h]"
  shows "ac_creating y = Some cr \<and> ac_incoming y = [h] \<and> listening (ac_sys y)
    \<and> stands_still (loop (ac_sys x)) (loop (ac_sys y))
    \<and> (\<exists>ms. closings (ac_sys y) = closings (ac_sys x) @ ms) \<and> (\<exists>us. updates (ac_sys y) = updates (ac_sys x) @ us)"
  using assms(1)
proof (induction rule: reach.induct)
  case start
  with st show ?case by (simp add: stands_still_refl)
next
  case (step y e y')
  then have y: "ac_creating y = Some cr" "listening (ac_sys y)" "ac_incoming y = [h]" by simp_all
  obtain f g s where f: "event_half f = Some g" "exec W A D f (ac_sys y) = Some (Done s)" "y' = y\<lparr>ac_sys := s\<rparr>"
    by (rule stalled_step [OF y(1) st(2) y(2,3) step.hyps(2,3)])
  from step.IH y f(3) exec_half [OF f(1,2)] exec_half_stands [OF f(1,2)] show ?case
    by (auto intro: stands_still_trans)
qed

section \<open>Runs against the sample libraries\<close>

text \<open>The stream is accepted, its writer closed, and both halves dropped before the SYN is processed.\<close>

definition hasty_run :: "accept_event list" where
  "hasty_run = [Sys (Egress 1), Sys (Select 2 None (Some (Inr (seg 2)))), Offer, Accept,
     Sys (AppClose sample_handle True), Sys (DropReader sample_handle), Sys (DropWriter sample_handle)]"

text \<open>The stale update, with the listener.\<close>

definition race_accepted :: "accept_event list" where
  "race_accepted = map Sys (take 2 race) @ [Offer, Resume, Accept] @ map Sys (take 19 (drop 2 race))"

lemma sample_hasty:
  "\<exists>x0 x. start_io slab_api 0 sample_caps = Done x0 \<and> run_events sample_accept hasty_run x0 = Some (Done x)
     \<and> closings (view x) = [(sample_handle, CloseRead), (sample_handle, CloseWrite)] \<and> ac_creating x \<noteq> None
     \<and> (\<exists>x'. sample_accept Resume x = Some (Done x'))"
  by (simp add: hasty_run_def accept_defs view_def)

lemma sample_raced_accepted:
  "\<exists>x0 x. start_io slab_api 0 sample_caps = Done x0 \<and> run_events sample_accept race_accepted x0 = Some (Done x)
     \<and> sample_accept (Sys (Egress 19)) x = Some (Panicked DispatchAfterDrop)"
  by (simp add: race_accepted_def race_def accept_defs)

section \<open>Properties with early access\<close>

text \<open>
  (C10) Refinement, for arbitrary clients: every step of the system with its listener, seen through the
  view, is a run of events of the system without it, or the send of a stream to the listener, which puts
  a new connection with two open halves into the view under a pair that was not in use.
\<close>

theorem early_access_refines:
  assumes "loop_stack D ent in_range W A (Clock_new t0)" and "start_io D t0 caps = Done x0"
    and "reach (accept_exec W A D) (\<lambda>_ _. True) x0 x" and "accept_exec W A D e x = Some (Done x')"
  shows "reach (exec W A D) (\<lambda>_ _. True) (view x) (view x') \<or> hands_over x x'"
  using loop_stack.accept_exec_sim [OF assms(1) loop_stack.reach_early [OF assms(1,2) refl assms(3)] assms(4)] .

theorem early_access_refines_witness:
  "\<exists>x0 x x'. start_io slab_api 0 sample_caps = Done x0 \<and> run_events sample_accept hasty_run x0 = Some (Done x)
     \<and> sample_accept Resume x = Some (Done x')
     \<and> (reach sample_exec (\<lambda>_ _. True) (view x) (view x') \<or> hands_over x x')"
proof -
  obtain x0 x x' where x0: "start_io slab_api 0 sample_caps = Done x0"
    and run: "run_events sample_accept hasty_run x0 = Some (Done x)" and step: "sample_accept Resume x = Some (Done x')"
    using sample_hasty by blast
  from early_access_refines [OF sample.loop_stack_axioms x0 run_events_reach [OF run] step] x0 run step
  show ?thesis by blast
qed

text \<open>
  (C9) The books of the halves balance for arbitrary clients of the listener, also for a stream that is
  used or dropped before its connection is in the pool: each open half is held or reported in
  exactly one message on its way, never both, and nothing else is held or reported. A stream in the
  channel is whole.
\<close>

theorem early_halves_accounted:
  assumes "loop_stack D ent in_range W A (Clock_new t0)" and "start_io D t0 caps = Done x0"
    and "reach (accept_exec W A D) (\<lambda>_ _. True) x0 x"
  shows "of_bool (alive (view x) m) + count_list (closings (view x)) m =
      (of_bool (open_half (sockets_of (view x)) m) :: nat)
    \<and> (\<forall>h \<in> set (ac_incoming x). readers (view x) h \<noteq> None \<and> writers (view x) h \<noteq> None)"
proof -
  have inv: "early_inv ent in_range (Clock_new t0) W A x"
    using loop_stack.reach_early [OF assms(1,2) refl assms(3)] .
  then have "balanced (view x)" "\<forall>h \<in> set (ac_incoming x). both_held (view x) h"
    by (auto simp: early_inv_def waiting_ok_def dest: sys_invD(3))
  then show ?thesis
    unfolding balanced_def both_held_def by blast
qed

theorem early_halves_accounted_witness:
  "\<exists>x0 x. start_io slab_api 0 sample_caps = Done x0 \<and> run_events sample_accept hasty_run x0 = Some (Done x)
     \<and> \<not> alive (view x) (sample_handle, CloseRead) \<and> open_half (sockets_of (view x)) (sample_handle, CloseRead)"
proof -
  obtain x0 x where x0: "start_io slab_api 0 sample_caps = Done x0"
    and run: "run_events sample_accept hasty_run x0 = Some (Done x)"
    and msgs: "closings (view x) = [(sample_handle, CloseRead), (sample_handle, CloseWrite)]"
    using sample_hasty by blast
  from early_halves_accounted [OF sample.loop_stack_axioms x0 run_events_reach [OF run], of "(sample_handle, CloseRead)"]
  show ?thesis
    using x0 run msgs by (auto simp: of_bool_def split: if_splits)
qed

text \<open>
  (C8) The complete list of panics with the listener and arbitrary clients, which may use a stream
  before its connection is in the pool, or drop the listener with a stream in the channel: the loop
  panics only at its top, when the connection to dispatch was removed, and a half only when it sends
  to a loop that has ended. In particular no step of the creation of a connection panics.
\<close>

theorem accepting_panics:
  assumes "loop_stack D ent in_range W A (Clock_new t0)" and "start_io D t0 caps = Done x0"
    and "reach (accept_exec W A D) (\<lambda>_ _. True) x0 x" and "accept_exec W A D e x = Some (Panicked p)"
  shows "(p = ChannelClosed \<and> \<not> running (ac_sys x))
    \<or> (p = DispatchAfterDrop \<and> running (ac_sys x) \<and> (\<exists>now. e = Sys (Egress now))
        \<and> (\<exists>h. next_poll (loop (ac_sys x)) = Some h \<and> h \<notin> dom (sockets_of (ac_sys x))))"
  using loop_stack.accept_exec_panics [OF assms(1) loop_stack.reach_early [OF assms(1,2) refl assms(3)] assms(4)]
  by (cases "next_poll (loop (ac_sys x))") auto

theorem accepting_panics_witness:
  "\<exists>x0 x. start_io slab_api 0 sample_caps = Done x0 \<and> run_events sample_accept race_accepted x0 = Some (Done x)
     \<and> sample_accept (Sys (Egress 19)) x = Some (Panicked DispatchAfterDrop)
     \<and> (\<exists>h. next_poll (loop (ac_sys x)) = Some h \<and> h \<notin> dom (sockets_of (ac_sys x)))"
proof -
  obtain x0 x where x0: "start_io slab_api 0 sample_caps = Done x0"
    and run: "run_events sample_accept race_accepted x0 = Some (Done x)"
    and panic: "sample_accept (Sys (Egress 19)) x = Some (Panicked DispatchAfterDrop)"
    using sample_raced_accepted by blast
  from accepting_panics [OF sample.loop_stack_axioms x0 run_events_reach [OF run] panic] x0 run panic
  show ?thesis by blast
qed

text \<open>
  (C12) The loop waits for the application, and only for it. Once the channel is full and the loop has
  another stream to offer, it stands still with all its connections in every run in which nobody
  accepts or drops the listener, whatever else the clients do: their messages pile up in the
  channels, in order. At any moment, as soon as the stream is accepted, the loop can send the other one and
  finish its round without a panic, and the connection is in the pool.
\<close>

theorem loop_waits_for_accept:
  assumes "loop_stack D ent in_range W A (Clock_new t0)" and "start_io D t0 caps = Done x0"
    and "reach (accept_exec W A D) (\<lambda>_ _. True) x0 x"
    and "ac_creating x = Some cr" and "\<not> cr_sent cr" and "listening (ac_sys x)" and "ac_incoming x = [h]"
    and "reach (accept_exec W A D) unattended x y"
  shows "ac_creating y = Some cr \<and> ac_incoming y = [h] \<and> stands_still (loop (ac_sys x)) (loop (ac_sys y))
    \<and> (\<exists>ms. closings (ac_sys y) = closings (ac_sys x) @ ms) \<and> (\<exists>us. updates (ac_sys y) = updates (ac_sys x) @ us)
    \<and> (\<exists>x'. run_events (accept_exec W A D) [Accept, Offer, Resume] y = Some (Done x') \<and> ac_creating x' = None
        \<and> ac_incoming x' = [cr_pair cr] \<and> sockets_of (ac_sys x') (cr_pair cr) \<noteq> None)"
proof -
  have stalled: "ac_creating y = Some cr" "ac_incoming y = [h]" "listening (ac_sys y)"
    and rest: "stands_still (loop (ac_sys x)) (loop (ac_sys y))"
      "\<exists>ms. closings (ac_sys y) = closings (ac_sys x) @ ms" "\<exists>us. updates (ac_sys y) = updates (ac_sys x) @ us"
    using stalled_stays [OF assms(8,4-7)] by simp_all
  let ?y = "y\<lparr>ac_incoming := []\<rparr>"
  have accept: "accept_exec W A D Accept y = Some (Done ?y)"
    using stalled(2) by (simp add: TcpListener_accept_def)
  have "reach (accept_exec W A D) (\<lambda>_ _. True) x0 y"
    by (rule reach_trans [OF reach_mono [OF assms(8)] assms(3)]) simp
  then have "early_inv ent in_range (Clock_new t0) W A ?y"
    using accept by (intro loop_stack.reach_early [OF assms(1,2) refl]) (rule reach.step [where exec = "accept_exec W A D"], simp_all del: accept_exec.simps)
  from loop_stack.creation_ends [OF assms(1) this, of cr] stalled assms(5) obtain x' where
    "run_events (accept_exec W A D) [Offer, Resume] ?y = Some (Done x')" "ac_creating x' = None"
    "ac_incoming x' = [cr_pair cr]" "sockets_of (ac_sys x') (cr_pair cr) \<noteq> None"
    by (auto simp del: run_events.simps)
  with accept stalled rest show ?thesis
    by (auto simp del: accept_exec.simps)
qed

theorem loop_waits_for_accept_witness:
  "\<exists>x0 x x'. start_io slab_api 0 sample_caps = Done x0 \<and> run_events sample_accept two_syns x0 = Some (Done x)
     \<and> (\<forall>y. reach sample_accept unattended x y \<longrightarrow> stands_still (loop (ac_sys x)) (loop (ac_sys y)))
     \<and> run_events sample_accept [Accept, Offer, Resume] x = Some (Done x')"
proof -
  obtain x0 x cr where run: "start_io slab_api 0 sample_caps = Done x0"
      "run_events sample_accept two_syns x0 = Some (Done x)"
    and st: "ac_creating x = Some cr" "\<not> cr_sent cr" "listening (ac_sys x)" "ac_incoming x = [sample_handle]"
    using sample_two_syns by blast
  note waits = loop_waits_for_accept [OF sample.loop_stack_axioms run(1) run_events_reach [OF run(2)] st]
  obtain x' where "run_events sample_accept [Accept, Offer, Resume] x = Some (Done x')"
    using waits [OF reach.start] by blast
  with run waits show ?thesis by blast
qed

end
