(* ===== verification/Early_Safety.thy ===== *)
theory Early_Safety
  imports Early_Access
begin

text \<open>
  No panic with the listener, while the loop runs, for clients that keep a writer until the updates it
  sent are delivered. They may use a stream before its connection is in the pool, and drop the
  listener with a stream in its channel.
\<close>

section \<open>Patient clients of the listener\<close>

fun prudent :: "accept_event \<Rightarrow> ('s, 'q, 'k) accepting \<Rightarrow> bool" where
  "prudent (Sys e) x \<longleftrightarrow> patient e (view x)"
| "prudent _ x \<longleftrightarrow> running (ac_sys x)"

text \<open>No update is on its way for a stream that nobody has accepted.\<close>

definition fresh_access :: "('q, 'k) entries \<Rightarrow> ('s, 'q, 'k) accepting \<Rightarrow> bool" where
  "fresh_access ent x \<longleftrightarrow> fresh ent (view x)
     \<and> (\<forall>h \<in> set (ac_incoming x). h \<notin> fst ` set (updates (view x)))"

lemma fresh_access_same:
  assumes "fresh_access ent x" and "view x' = view x" and "set (ac_incoming x') \<subseteq> set (ac_incoming x)"
  shows "fresh_access ent x'"
proof -
  have "g \<notin> fst ` set (updates (view x))" if "g \<in> set (ac_incoming x')" for g
    using assms(1) subsetD [OF assms(3) that] by (simp add: fresh_access_def)
  with assms(1,2) show ?thesis
    by (simp add: fresh_access_def)
qed

lemma half_updates:
  assumes "named s" and "event_half e = Some g" and "exec W A D e s = Some (Done s')"
  shows "fst ` set (updates s') \<subseteq> insert g (fst ` set (updates s))"
proof -
  have own: "wh_handle wh = g" if "writers s g = Some wh" for wh
    using assms(1) that by (simp add: named_def)
  show ?thesis
    using assms(2,3)
  proof (cases e)
    case (AppWrite h lf wk buf)
    with assms(2,3) obtain wh c where "writers s g = Some wh" "step_write A g lf wk buf wh c s = Done s'"
      by (auto split: option.splits)
    with own show ?thesis
      by (elim step_write_updates) (simp add: image_Un, blast)
  next
    case (AppClose h lf)
    with assms(2,3) obtain wh c where "writers s g = Some wh" "step_close A g lf wh c s = Done s'"
      by (auto split: option.splits)
    with own show ?thesis
      by (elim step_close_updates) (simp add: image_Un, blast)
  qed (auto simp: step_read_def split: option.splits prod.splits)
qed

lemma loop_updates:
  assumes "running s \<Longrightarrow> loop_ready (loop s)" and "event_half e = None" and "exec W A D e s = Some (Done s')"
  shows "set (updates s') \<subseteq> set (updates s)"
proof (cases e)
  case (Select now wr rd)
  with assms(1,3) have "loop_ready (loop s)" "step_select W A D now wr rd s = Done s'"
    by (auto split: if_splits)
  then show ?thesis
    by (cases rule: step_select_cases) (auto split: selected.splits)
qed (use assms(2,3) in \<open>auto simp: step_egress_def split: if_splits\<close>)

lemma put_in_fresh:
  assumes "fresh ent s" and "untouched cr t"
  shows "fresh ent (put_in cr s)"
proof -
  have "dom (sp_sockets (loop_pool (loop s))) \<subseteq> dom (sp_sockets (loop_pool (loop (put_in cr s))))"
    using put_in_simps(2) [of cr s] unfolding sockets_of_def by auto
  with assms show ?thesis
    by (auto simp: fresh_def fresh_pool_def untouched_def loop_pool_def)
qed

context loop_stack
begin

text \<open>The halves of a stream in the channel may be dropped.\<close>

lemma drops_fresh:
  assumes "run_events (exec W A D) es s = Some (Done s')" and "sys_inv ent in_range clk W s" and "fresh ent s"
    and "running s" and "\<forall>e \<in> set es. \<exists>h. h \<notin> fst ` set (updates s) \<and> (e = DropWriter h \<or> e = DropReader h)"
  shows "fresh ent s' \<and> updates s' = updates s"
  using assms
proof (induction es arbitrary: s)
  case (Cons e es)
  then obtain s1 where s1: "exec W A D e s = Some (Done s1)" and rest: "run_events (exec W A D) es s1 = Some (Done s')"
    by (auto split: option.splits outcome.splits)
  have "patient e s" "updates s1 = updates s" "running s1"
    using Cons.prems(4,5) s1 by (auto split: option.splits)
  with Cons.IH [OF rest exec_inv [OF Cons.prems(2) s1] exec_fresh [OF Cons.prems(2,3) _ s1]] Cons.prems(5)
  show ?case by simp
qed simp

lemma half_fresh:
  assumes inv: "early_inv ent in_range clk W A x" and fr: "fresh_access ent x"
    and step: "half_step W A D (h, e) x = Some (Done x')"
    and e: "event_half e = Some h" and "\<not> not_accepted h x" and ok: "patient e (view x)"
  shows "fresh_access ent x'"
proof -
  have sys: "sys_inv ent in_range clk W (view x)"
    using inv by (simp add: early_inv_def)
  have reach: "in_reach h x" and other: "h \<notin> set (ac_incoming x)"
    using assms(5) by (auto simp: not_accepted_def in_reach_def)
  have view: "exec W A D e (view x) = Some (Done (view x'))"
    using half_step_view [OF e reach step] by simp
  have "fresh ent (view x')"
    using exec_fresh [OF sys _ ok view] fr by (simp add: fresh_access_def)
  moreover have "ac_incoming x' = ac_incoming x"
    using half_step_stage(2) [OF e reach step] .
  moreover have "g \<notin> fst ` set (updates (view x'))" if "g \<in> set (ac_incoming x)" for g
  proof -
    have "g \<noteq> h" "g \<notin> fst ` set (updates (view x))"
      using that other fr by (auto simp: fresh_access_def)
    with half_updates [OF sys_invD(4) [OF sys] e view] show ?thesis by blast
  qed
  ultimately show ?thesis
    by (simp add: fresh_access_def)
qed

lemma loop_fresh:
  assumes inv: "early_inv ent in_range clk W A x" and fr: "fresh_access ent x"
    and step: "exec W A D e (view x) = Some (Done (view x'))" and "event_half e = None"
    and ok: "patient e (view x)" and "ac_incoming x' = ac_incoming x"
  shows "fresh_access ent x'"
proof -
  have sys: "sys_inv ent in_range clk W (view x)"
    using inv by (simp add: early_inv_def)
  have "fresh ent (view x')"
    using exec_fresh [OF sys _ ok step] fr by (simp add: fresh_access_def)
  moreover have "fst ` set (updates (view x')) \<subseteq> fst ` set (updates (view x))"
    by (rule image_mono [OF loop_updates [OF sys_invD(2) [OF sys] assms(4) step]])
  then have "g \<notin> fst ` set (updates (view x'))" if "g \<in> set (ac_incoming x)" for g
    using that fr unfolding fresh_access_def by blast
  ultimately show ?thesis
    using assms(6) by (simp add: fresh_access_def)
qed

lemma hands_over_fresh:
  assumes inv: "early_inv ent in_range clk W A x" and fr: "fresh_access ent x" and "hands_over x x'"
  shows "fresh_access ent x'"
proof -
  from assms(3) obtain cr t where cr: "untouched cr t" "sockets_of (view x) (cr_pair cr) = None"
    and x': "view x' = put_in cr (view x)" "ac_incoming x' = [cr_pair cr]"
    by (auto simp: hands_over_def)
  have "balanced (view x)"
    using inv by (auto simp: early_inv_def dest: sys_invD(3))
  then have "writers (view x) (cr_pair cr) = None"
    using alive_pooled [of "view x" "(cr_pair cr, CloseWrite)"] cr(2)
    by (cases "writers (view x) (cr_pair cr)") auto
  then have "cr_pair cr \<notin> fst ` set (updates (view x))"
    using fr by (auto simp: fresh_access_def fresh_def)
  with put_in_fresh [of ent "view x", OF _ cr(1)] fr x' show ?thesis
    by (simp add: fresh_access_def)
qed

lemma drop_listener_fresh:
  assumes inv: "early_inv ent in_range clk W A x" and fr: "fresh_access ent x" and run: "running (ac_sys x)"
    and step: "accept_exec W A D (Sys DropListener) x = Some (Done x')"
  shows "fresh_access ent x'"
proof (rule drop_listener_view [OF inv step])
  fix es
  assume es: "run_events (exec W A D) (DropListener # es) (view x) = Some (and_then (Done x') (\<lambda>x'. Done (view x')))"
    and own: "\<forall>e \<in> set es. \<exists>h \<in> set (ac_incoming x). e = DropWriter h \<or> e = DropReader h"
    and "\<And>x''. Done x' = Done x'' \<Longrightarrow> stage_ok W A x'' \<and> ac_incoming x'' = []"
  then have none: "ac_incoming x' = []" by blast
  let ?s = "(view x)\<lparr>listening := False\<rparr>"
  have start: "exec W A D DropListener (view x) = Some (Done ?s)" by simp
  have sys: "sys_inv ent in_range clk W (view x)"
    using inv by (simp add: early_inv_def)
  have "fresh ent ?s"
    by (rule exec_fresh [OF sys _ _ start]) (use fr run in \<open>simp_all add: fresh_access_def\<close>)
  moreover have "\<forall>e \<in> set es. \<exists>h. h \<notin> fst ` set (updates ?s) \<and> (e = DropWriter h \<or> e = DropReader h)"
    using own fr by (fastforce simp: fresh_access_def)
  ultimately show ?thesis
    using drops_fresh [OF _ exec_inv [OF sys start], of es "view x'"] es run none
    by (simp add: fresh_access_def)
qed

lemma accept_exec_fresh:
  assumes inv: "early_inv ent in_range clk W A x" and fr: "fresh_access ent x" and ok: "prudent e x"
    and step: "accept_exec W A D e x = Some (Done x')"
  shows "fresh_access ent x'"
proof -
  have select: ?thesis if "running (ac_sys x)" "ac_incoming x' = ac_incoming x"
      "exec W A D (Select now wr rd) (view x) = Some (Done (view x'))" for now wr rd
    using loop_fresh [OF inv fr that(3)] that(1,2) by simp
  show ?thesis
  proof (cases e)
    case (Sys f)
    show ?thesis
    proof (cases f)
      case (Egress now)
      with Sys step have "exec W A D (Egress now) (view x) = Some (Done (view x'))" "ac_incoming x' = ac_incoming x"
        by (auto simp: lift_sys_def view_def split: if_splits simp del: exec.simps)
      from loop_fresh [OF inv fr this(1)] this(2) ok Sys Egress show ?thesis by simp
    next
      case (Select now wr rd)
      with Sys step have "ac_creating x = None" "round_step W A D now wr rd x = Some (Done x')"
        by (auto split: if_splits)
      from round_view [OF this] select [of now wr rd] fresh_access_same [OF fr, of x'] ok Sys Select show ?thesis
        by (auto simp del: exec.simps)
    next
      case DropListener
      with Sys step ok drop_listener_fresh [OF inv fr] show ?thesis by simp
    qed (use Sys step ok in \<open>auto split: if_splits dest!: half_fresh [OF inv fr]\<close>)
  next
    case Offer
    with step ok offer_view [OF inv, of x'] select hands_over_fresh [OF inv fr] show ?thesis
      by (auto simp del: exec.simps)
  next
    case Resume
    with step ok resume_view [OF inv, of x'] select show ?thesis
      by (auto simp del: exec.simps)
  next
    case Accept
    with step obtain h hs where "ac_incoming x = h # hs" "x' = x\<lparr>ac_incoming := hs\<rparr>"
      by (auto simp: TcpListener_accept_def split: list.splits if_splits)
    with fresh_access_same [OF fr, of x'] show ?thesis by auto
  qed
qed

end

text \<open>Under this invariant no allowed event panics.\<close>

sublocale loop_stack \<subseteq> quiet: safe_system "accept_exec W A D" prudent
  "\<lambda>x. early_inv ent in_range clk W A x \<and> fresh_access ent x"
proof unfold_locales
  fix x e x'
  show "early_inv ent in_range clk W A x \<and> fresh_access ent x \<Longrightarrow> prudent e x \<Longrightarrow>
      accept_exec W A D e x = Some (Done x') \<Longrightarrow> early_inv ent in_range clk W A x' \<and> fresh_access ent x'"
    using accept_exec_early accept_exec_fresh by blast
next
  fix x e r
  assume inv: "early_inv ent in_range clk W A x \<and> fresh_access ent x" and ok: "prudent e x"
    and step: "accept_exec W A D e x = Some r"
  have "running (ac_sys x)"
  proof (cases "(e, x)" rule: prudent.cases)
    case (1 f y)
    with ok show ?thesis by (cases "(f, view x)" rule: patient.cases) auto
  qed (use ok in auto)
  moreover have "set_option (next_poll (loop (ac_sys x))) \<subseteq> dom (sockets_of (ac_sys x))" if "e = Sys (Egress now)" for now
  proof -
    have "view x = ac_sys x"
      using step that by (simp add: view_none split: if_splits)
    then show ?thesis
      using inv by (simp add: fresh_access_def fresh_def fresh_pool_def sockets_of_def)
  qed
  ultimately show "no_panic r"
    using accept_exec_panics [of x e] inv step by (cases r) auto
qed

context loop_stack
begin

lemma prudent_safe:
  assumes "start_io D t0 caps = Done x0" and "clk = Clock_new t0"
    and "reach (accept_exec W A D) prudent x0 x" and "prudent e x"
  shows "accept_exec W A D e x \<noteq> Some (Panicked p)"
proof -
  from assms(1) have "sys_start D t0 caps = Done (ac_sys x0)" "ac_incoming x0 = []" "ac_creating x0 = None"
    by (auto simp: start_io_def)
  then have "fresh_access ent x0"
    using fresh_start by (simp add: fresh_access_def view_none)
  with quiet.reach_safe [OF assms(3) _ assms(4)] early_start [OF assms(1,2)] show ?thesis by blast
qed

end

section \<open>A run against the sample libraries\<close>

text \<open>A client that accepts a stream and drops its reader before the SYN is processed.\<close>

definition prudent_run :: "accept_event list" where
  "prudent_run = early_run @ [Sys (DropReader sample_handle)]"

lemma sample_prudent:
  "\<exists>x0 x. start_io slab_api 0 sample_caps = Done x0 \<and> run_events sample_accept prudent_run x0 = Some (Done x)
     \<and> all_allowed sample_accept prudent prudent_run x0 \<and> prudent (Sys (DropWriter sample_handle)) x
     \<and> sample_accept (Sys (DropWriter sample_handle)) x \<noteq> None"
  by (simp add: prudent_run_def early_run_def accept_defs view_def)

section \<open>No panic with the listener\<close>

text \<open>
  (C2) Safety with the listener: while the loop runs, and as long as the clients keep a writer until the
  updates it sent are delivered, no step panics, neither of the loop nor of the creation of a
  connection nor of a client, also when a client uses a stream before its connection is in the pool
  or drops the listener with a stream in its channel.
\<close>

theorem accepting_never_panics:
  assumes "loop_stack D ent in_range W A (Clock_new t0)" and "start_io D t0 caps = Done x0"
    and "reach (accept_exec W A D) prudent x0 x" and "prudent e x"
  shows "accept_exec W A D e x \<noteq> Some (Panicked p)"
  using loop_stack.prudent_safe [OF assms(1,2) refl assms(3,4)] .

theorem accepting_never_panics_witness:
  "\<exists>x0 x x'. start_io slab_api 0 sample_caps = Done x0 \<and> run_events sample_accept prudent_run x0 = Some (Done x)
     \<and> sample_accept (Sys (DropWriter sample_handle)) x = Some (Done x')"
proof -
  obtain x0 x where x0: "start_io slab_api 0 sample_caps = Done x0"
    and run: "run_events sample_accept prudent_run x0 = Some (Done x)"
    and ok: "all_allowed sample_accept prudent prudent_run x0" "prudent (Sys (DropWriter sample_handle)) x"
    and on: "sample_accept (Sys (DropWriter sample_handle)) x \<noteq> None"
    using sample_prudent by blast
  obtain r where r: "sample_accept (Sys (DropWriter sample_handle)) x = Some r"
    using on by blast
  with accepting_never_panics [OF sample.loop_stack_axioms x0 all_allowed_reach [OF run ok(1)] ok(2)]
  obtain x' where "r = Done x'"
    by (cases r) auto
  with x0 run r show ?thesis by blast
qed

end
