(* ===== verification/Servers.thy ===== *)
theory Servers
  imports Clients Early_Safety
begin

text \<open>
  The programs of the examples (\<open>src/ustunet/examples\<close>) around their client loops: binding the listener,
  the main task that accepts streams and spawns a task for each, and the relay's task, which
  connects to a server and copies in both directions in two tasks of their own. The command line, the
  logger and the server's connection are libraries: what they return is an argument.
\<close>

section \<open>Starting\<close>

record connect_up =
  up_server :: socket_addr
  up_tun :: string

record echo_up =
  eu_tun :: string

definition bind_unwrap ::
    "'d tun_api \<Rightarrow> ('q, 'k) delay_api \<Rightarrow> instant \<Rightarrow> string \<Rightarrow> ('s, 'q, 'k) accepting outcome" where
  "bind_unwrap T D now name =
     and_then (TcpListener_bind T D now name) (\<lambda>r.
       case r of Inl e \<Rightarrow> Panicked ClientExpect | Inr x \<Rightarrow> Done x)"

section \<open>The relay's task\<close>

text \<open>
  The task owns the stream until the server is connected, and drops it when that fails. Then the
  two halves belong to two tasks, and each drops its half when it ends. The relay returns when both
  have ended. A step yields the halves that are dropped in it, in order.
\<close>

type_synonym task_result = "(io_error, (io_error, nat) result) result"

datatype relay_phase =
    Connecting
  | Copying "task_result option" "task_result option"
  | Returned "(io_error, nat \<times> nat) result"

record relay =
  rl_remote :: socket_addr
  rl_handle :: addr_pair
  rl_phase :: relay_phase

datatype relay_event =
    Connected "(io_error, unit) result"
  | SentEnds task_result
  | RecvEnds task_result

definition relay_start :: "socket_addr \<Rightarrow> addr_pair \<Rightarrow> relay" where
  "relay_start remote h = \<lparr>rl_remote = remote, rl_handle = h, rl_phase = Connecting\<rparr>"

fun join_tasks :: "task_result option \<Rightarrow> task_result option \<Rightarrow> relay_phase" where
  "join_tasks (Some sent) (Some recv) = Returned (copy_to_server (Inr ()) sent recv)"
| "join_tasks sent recv = Copying sent recv"

definition relay_step :: "relay_event \<Rightarrow> relay \<Rightarrow> (relay \<times> event list) option" where
  "relay_step ev rl =
     (let h = rl_handle rl
      in case (rl_phase rl, ev) of
           (Connecting, Connected (Inl e)) \<Rightarrow>
             Some (rl\<lparr>rl_phase := Returned (Inl e)\<rparr>, [DropWriter h, DropReader h])
         | (Connecting, Connected (Inr u)) \<Rightarrow> Some (rl\<lparr>rl_phase := Copying None None\<rparr>, [])
         | (Copying None recv, SentEnds sent) \<Rightarrow>
             Some (rl\<lparr>rl_phase := join_tasks (Some sent) recv\<rparr>, [DropWriter h])
         | (Copying sent None, RecvEnds recv) \<Rightarrow>
             Some (rl\<lparr>rl_phase := join_tasks sent (Some recv)\<rparr>, [DropReader h])
         | _ \<Rightarrow> None)"

section \<open>The main tasks\<close>

text \<open>
  One poll of a main task: it takes the streams that are in the channel and spawns a task for each,
  until the channel is empty, and has ended when the channel is closed.
\<close>

function serve_poll ::
    "(('s, 'q, 'k) accepting \<Rightarrow> addr_pair \<Rightarrow> 't) \<Rightarrow> ('s, 'q, 'k) accepting \<Rightarrow>
     bool \<times> 't list \<times> ('s, 'q, 'k) accepting" where
  "serve_poll spawn x =
     (case TcpListener_poll_next x of
        (Ready (Some h), x1) \<Rightarrow>
          (case serve_poll spawn x1 of (ended, ts, x2) \<Rightarrow> (ended, spawn x1 h # ts, x2))
      | (Ready None, x1) \<Rightarrow> (True, [], x1)
      | (Pending, x1) \<Rightarrow> (False, [], x1))"
  by pat_completeness auto

termination serve_poll
  by (relation "measure (\<lambda>(spawn, x). length (ac_incoming x))")
    (auto simp: TcpListener_poll_next_def split: list.splits if_splits)

declare serve_poll.simps [simp del]

text \<open>The stream of a pair, as its halves are in the system.\<close>

definition accepted_stream :: "('s, 'q, 'k) accepting \<Rightarrow> addr_pair \<Rightarrow> tcp_stream option" where
  "accepted_stream x h =
     (case (readers (view x) h, writers (view x) h) of
        (Some r, Some w) \<Rightarrow> Some \<lparr>ts_writer = w, ts_reader = r, ts_addr = h\<rparr>
      | _ \<Rightarrow> None)"

definition rendezvous_main ::
    "'d tun_api \<Rightarrow> ('q, 'k) delay_api \<Rightarrow> instant \<Rightarrow> connect_up \<Rightarrow>
     (socket_addr \<times> ('s, 'q, 'k) accepting) outcome" where
  "rendezvous_main T D now up =
     (let server = up_server up
      in and_then (bind_unwrap T D now (up_tun up)) (\<lambda>listener. Done (server, listener)))"

definition rendezvous_serve ::
    "socket_addr \<Rightarrow> ('s, 'q, 'k) accepting \<Rightarrow> bool \<times> relay list \<times> ('s, 'q, 'k) accepting" where
  "rendezvous_serve server = serve_poll (\<lambda>x h. relay_start server h)"

definition rend_main ::
    "'d tun_api \<Rightarrow> ('q, 'k) delay_api \<Rightarrow> instant \<Rightarrow> connect_up \<Rightarrow>
     (socket_addr \<times> ('s, 'q, 'k) accepting) outcome" where
  "rend_main T D now up =
     (let server = up_server up
      in and_then (bind_unwrap T D now (up_tun up)) (\<lambda>listener. Done (server, listener)))"

definition rend_serve ::
    "socket_addr \<Rightarrow> ('s, 'q, 'k) accepting \<Rightarrow> bool \<times> relay list \<times> ('s, 'q, 'k) accepting" where
  "rend_serve server = serve_poll (\<lambda>x h. relay_start server h)"

definition echo_main ::
    "'d tun_api \<Rightarrow> ('q, 'k) delay_api \<Rightarrow> instant \<Rightarrow> echo_up \<Rightarrow> ('s, 'q, 'k) accepting outcome" where
  "echo_main T D now up = bind_unwrap T D now (eu_tun up)"

definition echo_serve ::
    "('s, 'q, 'k) accepting \<Rightarrow> bool \<times> echo option list \<times> ('s, 'q, 'k) accepting" where
  "echo_serve = serve_poll (\<lambda>x h. map_option echo_start (accepted_stream x h))"

section \<open>What a main task does in one poll\<close>

lemma serve_poll_outcome:
  "serve_poll spawn x =
     (\<not> running (ac_sys x), map (\<lambda>i. spawn (x\<lparr>ac_incoming := drop (Suc i) (ac_incoming x)\<rparr>) (ac_incoming x ! i))
        [0..<length (ac_incoming x)], x\<lparr>ac_incoming := []\<rparr>)"
proof (induction "ac_incoming x" arbitrary: x)
  case Nil
  then show ?case
    by (subst serve_poll.simps) (cases x, auto simp: TcpListener_poll_next_def)
next
  case (Cons h hs)
  let ?x1 = "x\<lparr>ac_incoming := hs\<rparr>"
  have next1: "TcpListener_poll_next x = (Ready (Some h), ?x1)"
    using Cons.hyps(2) by (simp add: TcpListener_poll_next_def flip: Cons.hyps(2))
  show ?case
    using Cons.hyps(1) [of ?x1]
    by (subst serve_poll.simps)
      (simp add: next1 flip: Cons.hyps(2) del: upt_Suc add: upt_conv_Cons map_Suc_upt [symmetric] comp_def)
qed

lemma accepts_run:
  "run_events (accept_exec W A D) (replicate (length (ac_incoming x)) Accept) x = Some (Done (x\<lparr>ac_incoming := []\<rparr>))"
proof (induction "ac_incoming x" arbitrary: x)
  case Nil
  then show ?case by (cases x) simp
next
  case (Cons h hs)
  let ?x1 = "x\<lparr>ac_incoming := hs\<rparr>"
  have "accept_exec W A D Accept x = Some (Done ?x1)"
    by (simp add: TcpListener_accept_def flip: Cons.hyps(2))
  with Cons.hyps(1) [of ?x1] show ?case
    by (simp flip: Cons.hyps(2) del: accept_exec.simps)
qed

section \<open>Runs against the sample libraries\<close>

lemma sample_two_syns_early:
  obtains x0 x cr where "start_io slab_api 0 sample_caps = Done x0"
    "run_events sample_accept two_syns x0 = Some (Done x)" "ac_creating x = Some cr" "\<not> cr_sent cr"
    "listening (ac_sys x)" "ac_incoming x = [sample_handle]"
  using sample_two_syns by blast

section \<open>Properties of the programs\<close>

text \<open>
  (C16) A server keeps the loop going: in every reachable state, whatever its other tasks do, one poll of
  its main task takes all streams that wait in the channel and spawns one task for each, in order and with
  that stream, and it has ended exactly when the loop has. If the loop was waiting for room in the
  channel, it sends its stream and finishes the round without a panic, and the new connection is in
  the pool.
\<close>

theorem server_unblocks_loop:
  assumes "loop_stack D ent in_range W A (Clock_new t0)" and "start_io D t0 caps = Done x0"
    and "reach (accept_exec W A D) (\<lambda>_ _. True) x0 x" and "serve_poll spawn x = (ended, tasks, x')"
  shows "(ended \<longleftrightarrow> \<not> running (ac_sys x)) \<and> length tasks = length (ac_incoming x) \<and> ac_incoming x' = []
    \<and> (\<forall>i < length tasks. tasks ! i = spawn (x\<lparr>ac_incoming := drop (Suc i) (ac_incoming x)\<rparr>) (ac_incoming x ! i))
    \<and> run_events (accept_exec W A D) (replicate (length tasks) Accept) x = Some (Done x')
    \<and> (\<forall>cr. ac_creating x = Some cr \<longrightarrow> \<not> cr_sent cr \<longrightarrow> listening (ac_sys x) \<longrightarrow>
        (\<exists>x''. run_events (accept_exec W A D) [Offer, Resume] x' = Some (Done x'') \<and> ac_creating x'' = None
          \<and> ac_incoming x'' = [cr_pair cr] \<and> sockets_of (ac_sys x'') (cr_pair cr) \<noteq> None))"
proof -
  have out: "ended = (\<not> running (ac_sys x))" "length tasks = length (ac_incoming x)" "x' = x\<lparr>ac_incoming := []\<rparr>"
    and spawned: "\<forall>i < length tasks. tasks ! i = spawn (x\<lparr>ac_incoming := drop (Suc i) (ac_incoming x)\<rparr>) (ac_incoming x ! i)"
    using assms(4) unfolding serve_poll_outcome by auto
  have run: "run_events (accept_exec W A D) (replicate (length tasks) Accept) x = Some (Done x')"
    using accepts_run [of W A D x] out by simp
  have "reach (accept_exec W A D) (\<lambda>_ _. True) x0 x'"
    using run_events_reach [OF run] assms(3) by (rule reach_trans)
  then have inv: "early_inv ent in_range (Clock_new t0) W A x'"
    by (rule loop_stack.reach_early [OF assms(1,2) refl])
  show ?thesis
    using loop_stack.creation_ends [OF assms(1) inv] run out spawned by (auto simp del: run_events.simps)
qed

theorem server_unblocks_loop_witness:
  "\<exists>x0 x x' x''. start_io slab_api 0 sample_caps = Done x0 \<and> run_events sample_accept two_syns x0 = Some (Done x)
     \<and> sample_accept Offer x = None
     \<and> rendezvous_serve (SockV4 (1, 2, 3, 4) 5) x = (False, [relay_start (SockV4 (1, 2, 3, 4) 5) sample_handle], x')
     \<and> run_events sample_accept [Offer, Resume] x' = Some (Done x'')"
proof -
  obtain x0 x cr where run: "start_io slab_api 0 sample_caps = Done x0"
      "run_events sample_accept two_syns x0 = Some (Done x)"
    and cr: "ac_creating x = Some cr" "\<not> cr_sent cr" "listening (ac_sys x)" "ac_incoming x = [sample_handle]"
    by (rule sample_two_syns_early)
  have inv: "early_inv map_of (\<lambda>_. True) (Clock_new 0) sample_wire sample_tcp x"
    by (rule sample.reach_early [OF run(1) refl run_events_reach [OF run(2)]])
  then have "running (ac_sys x)"
    using cr(1) by (simp add: early_inv_def stage_ok_def)
  then have serve: "rendezvous_serve (SockV4 (1, 2, 3, 4) 5) x =
      (False, [relay_start (SockV4 (1, 2, 3, 4) 5) sample_handle], x\<lparr>ac_incoming := []\<rparr>)"
    unfolding rendezvous_serve_def serve_poll_outcome using cr(4) by simp
  from server_unblocks_loop [OF sample.loop_stack_axioms run(1) run_events_reach [OF run(2)]
      serve [unfolded rendezvous_serve_def]] cr(1-3)
  obtain x'' where "run_events sample_accept [Offer, Resume] (x\<lparr>ac_incoming := []\<rparr>) = Some (Done x'')"
    by (auto simp del: run_events.simps)
  moreover have "sample_accept Offer x = None"
    using cr by (simp add: offer_step_def)
  ultimately show ?thesis
    using run serve by blast
qed

text \<open>The echo server's tasks start with whole streams.\<close>

theorem echo_tasks_whole:
  assumes "loop_stack D ent in_range W A (Clock_new t0)" and "start_io D t0 caps = Done x0"
    and "reach (accept_exec W A D) (\<lambda>_ _. True) x0 x" and "echo_serve x = (ended, tasks, x')"
  shows "map (map_option (ts_addr \<circ> ec_socket)) tasks = map Some (ac_incoming x)"
proof -
  have inv: "early_inv ent in_range (Clock_new t0) W A x"
    using loop_stack.reach_early [OF assms(1,2) refl assms(3)] .
  have "\<exists>st. accepted_stream (x\<lparr>ac_incoming := hs\<rparr>) h = Some st \<and> ts_addr st = h" if "h \<in> set (ac_incoming x)" for h hs
    using inv that by (auto simp: early_inv_def waiting_ok_def both_held_def accepted_stream_def)
  then have "map_option (ts_addr \<circ> ec_socket) (map_option echo_start (accepted_stream (x\<lparr>ac_incoming := hs\<rparr>) (ac_incoming x ! i))) =
      Some (ac_incoming x ! i)" if "i < length (ac_incoming x)" for i hs
    using nth_mem [OF that] by (fastforce simp: echo_start_def)
  then show ?thesis
    using assms(4) unfolding echo_serve_def serve_poll_outcome by (auto intro!: nth_equalityI)
qed

end
