(* ===== verification/Relaying.thy ===== *)
theory Relaying
  imports Servers
begin

text \<open>
  The relay's task (\<open>src/ustunet/examples/rendezvous.rs\<close>) inside the running system. Its two copying
  tasks end at different times, and between its steps the loop, the other clients and the copying
  tasks themselves act in any order. The halves belong to the relay's tasks: nobody else drops them.
\<close>

section \<open>The relay and the system\<close>

datatype relayed_event = World event | Task relay_event

fun relayed_exec ::
    "wire_api \<Rightarrow> 's tcp_api \<Rightarrow> ('q, 'k) delay_api \<Rightarrow> (relayed_event, ('s, 'q, 'k) sys \<times> relay) stepper" where
  "relayed_exec W A D (World e) (s, rl) =
     map_option (\<lambda>o1. and_then o1 (\<lambda>s'. Done (s', rl))) (exec W A D e s)"
| "relayed_exec W A D (Task ev) (s, rl) =
     (case relay_step ev rl of
        None \<Rightarrow> None
      | Some (rl', ds) \<Rightarrow> map_option (\<lambda>o1. and_then o1 (\<lambda>s'. Done (s', rl'))) (run_events (exec W A D) ds s))"

fun relay_owns :: "relayed_event \<Rightarrow> ('s, 'q, 'k) sys \<times> relay \<Rightarrow> bool" where
  "relay_owns (World e) (s, rl) \<longleftrightarrow>
     (\<exists>r. rl_phase rl = Returned r) \<or> e \<notin> {DropReader (rl_handle rl), DropWriter (rl_handle rl)}"
| "relay_owns (Task ev) x \<longleftrightarrow> True"

text \<open>Which halves the relay's tasks still have.\<close>

fun holds :: "relay_phase \<Rightarrow> close \<Rightarrow> bool" where
  "holds Connecting side \<longleftrightarrow> True"
| "holds (Copying sent recv) CloseWrite \<longleftrightarrow> sent = None"
| "holds (Copying sent recv) CloseRead \<longleftrightarrow> recv = None"
| "holds (Returned r) side \<longleftrightarrow> False"

text \<open>A relay that copies still has a half.\<close>

definition relay_ok :: "('s, 'q, 'k) sys \<Rightarrow> relay \<Rightarrow> bool" where
  "relay_ok s rl \<longleftrightarrow> (\<forall>r. rl_phase rl \<noteq> Returned r) \<longrightarrow>
     (\<exists>side. holds (rl_phase rl) side)
     \<and> (\<forall>side. alive s (rl_handle rl, side) \<longleftrightarrow> holds (rl_phase rl) side)"

fun reported :: "event \<Rightarrow> close_msg list" where
  "reported (DropReader h) = [(h, CloseRead)]"
| "reported (DropWriter h) = [(h, CloseWrite)]"
| "reported _ = []"

section \<open>Steps of the world\<close>

text \<open>A new stream never has the pair of a connection in the pool.\<close>

lemma handle_new_streams:
  assumes "io_handle W A D lst now c l = Done (res, l', eff)" and "st \<in> set (new_streams eff)"
  shows "sp_sockets (loop_pool l) (ts_addr st) = None"
  using assms(1)
proof (cases rule: io_handle_cases)
  case (packet m buf r i sel)
  from packet(4) show ?thesis
  proof (cases rule: Interface_process_cases)
    case (pooled ip repr p)
    from pooled(2) assms(2) show ?thesis
      by (cases rule: SocketPool_process_cases)
        (auto simp: loop_pool_def no_effects_def TcpStream_new_def split_beta Let_def split: if_splits)
  qed (use assms(2) in \<open>simp add: no_effects_def\<close>)
qed (use assms(2) in \<open>simp_all add: no_effects_def\<close>)

lemma half_keeps_alive:
  assumes "event_half e = Some g" and "exec W A D e s = Some (Done s')" and "e \<notin> {DropReader h, DropWriter h}"
  shows "alive s' (h, side) = alive s (h, side)"
proof (cases "g = h")
  case True
  with assms show ?thesis
    by (cases e; cases side) (auto simp: step_read_def step_write_def step_close_def set_connection_def
        split: option.splits prod.splits)
next
  case False
  with exec_half [OF assms(1,2)] show ?thesis by (cases side) auto
qed

context loop_stack
begin

lemma world_keeps_alive:
  assumes inv: "sys_inv ent in_range clk W s" and step: "exec W A D e s = Some (Done s')"
    and pooled: "sockets_of s h \<noteq> None" and "e \<notin> {DropReader h, DropWriter h}"
  shows "alive s' (h, side) = alive s (h, side)"
proof (cases "event_half e")
  case (Some g)
  with half_keeps_alive step assms(4) show ?thesis by blast
next
  case None
  show ?thesis
  proof (cases e)
    case (Egress now)
    with step step_egress_keeps [OF inv] show ?thesis
      by (cases side) (auto split: if_splits)
  next
    case (Select now wr rd)
    with step have on: "running s" and call: "step_select W A D now wr rd s = Done s'"
      by (auto split: if_splits)
    from sys_invD(2) [OF inv on] call show ?thesis
    proof (cases rule: step_select_cases)
      case (quiet res l w)
      then show ?thesis by (cases side) auto
    next
      case (handled c sel l' res eff cs us)
      have "h \<notin> ts_addr ` set (new_streams eff)"
        using handle_new_streams [OF handled(1)] pooled by (auto simp: sockets_of_def loop_pool_def)
      then show ?thesis
        unfolding handled(3) alive_effects by (cases side) simp_all
    qed
  qed (use None step in \<open>cases side; auto\<close>)+
qed

end

section \<open>Steps of the relay\<close>

lemma run_drops:
  assumes "named s" and "running s"
  shows "writers s h \<noteq> None \<Longrightarrow> run_events (exec W A D) [DropWriter h] s =
      Some (Done (s\<lparr>closings := closings s @ [(h, CloseWrite)], writers := (writers s)(h := None)\<rparr>))"
    and "readers s h \<noteq> None \<Longrightarrow> run_events (exec W A D) [DropReader h] s =
      Some (Done (s\<lparr>closings := closings s @ [(h, CloseRead)], readers := (readers s)(h := None)\<rparr>))"
    and "writers s h \<noteq> None \<Longrightarrow> readers s h \<noteq> None \<Longrightarrow> run_events (exec W A D) [DropWriter h, DropReader h] s =
      Some (Done (s\<lparr>closings := closings s @ [(h, CloseWrite), (h, CloseRead)],
        writers := (writers s)(h := None), readers := (readers s)(h := None)\<rparr>))"
  using drop_messages [OF assms(1)] assms(2) by auto

lemma drop_fails:
  assumes "named s" and "\<not> running s"
  shows "run_events (exec W A D) (DropWriter h # es) s \<noteq> Some (Done s')"
    and "run_events (exec W A D) (DropReader h # es) s \<noteq> Some (Done s')"
  using drop_messages [OF assms(1)] assms(2) by (auto split: option.splits)

lemma relay_step_cases:
  assumes "relay_step ev rl = Some (rl', ds)"
  obtains (refused) e where "rl_phase rl = Connecting" "rl' = rl\<lparr>rl_phase := Returned (Inl e)\<rparr>"
      "ds = [DropWriter (rl_handle rl), DropReader (rl_handle rl)]"
  | (connected) "rl_phase rl = Connecting" "rl' = rl\<lparr>rl_phase := Copying None None\<rparr>" "ds = []"
  | (sent) res recv where "rl_phase rl = Copying None recv"
      "rl' = rl\<lparr>rl_phase := join_tasks (Some res) recv\<rparr>" "ds = [DropWriter (rl_handle rl)]"
  | (received) res sent where "rl_phase rl = Copying sent None"
      "rl' = rl\<lparr>rl_phase := join_tasks sent (Some res)\<rparr>" "ds = [DropReader (rl_handle rl)]"
  using assms
  by (auto simp: relay_step_def Let_def split: relay_phase.splits relay_event.splits sum.splits option.splits)

lemma all_sides: "(\<forall>side. P side) \<longleftrightarrow> P CloseRead \<and> P CloseWrite"
  by (metis close.exhaust)

lemma ex_side: "(\<exists>side. P side) \<longleftrightarrow> P CloseRead \<or> P CloseWrite"
  by (metis close.exhaust)

lemmas relay_ok_simps = relay_ok_def all_sides ex_side

lemma task_step:
  assumes "named s" and "running s" and ok: "relay_ok s rl" and step: "relay_step ev rl = Some (rl', ds)"
  shows "\<exists>s'. run_events (exec W A D) ds s = Some (Done s') \<and> relay_ok s' rl' \<and> rl_handle rl' = rl_handle rl
    \<and> closings s' = closings s @ concat (map reported ds) \<and> sockets_of s' = sockets_of s
    \<and> (\<forall>r side. rl_phase rl' = Returned r \<longrightarrow> \<not> alive s' (rl_handle rl, side))"
  using step
proof (cases rule: relay_step_cases)
  case (refused e)
  with ok run_drops(3) [OF assms(1,2), of "rl_handle rl"] show ?thesis
    by (simp add: relay_ok_simps sockets_of_def del: run_events.simps not_None_eq)
next
  case connected
  with ok show ?thesis by (simp add: relay_ok_simps)
next
  case (sent res recv)
  with ok run_drops(1) [OF assms(1,2), of "rl_handle rl"] show ?thesis
    by (cases recv) (simp_all add: relay_ok_simps sockets_of_def del: run_events.simps not_None_eq)
next
  case (received res sent)
  with ok run_drops(2) [OF assms(1,2), of "rl_handle rl"] show ?thesis
    by (cases sent) (simp_all add: relay_ok_simps sockets_of_def del: run_events.simps not_None_eq)
qed

context loop_stack
begin

lemma relay_pooled:
  assumes "sys_inv ent in_range clk W s" and "relay_ok s rl" and "\<And>r. rl_phase rl \<noteq> Returned r"
  shows "sockets_of s (rl_handle rl) \<noteq> None"
proof -
  from assms(2,3) obtain side where "alive s (rl_handle rl, side)"
    unfolding relay_ok_def by blast
  from alive_pooled [OF sys_invD(3) [OF assms(1)] this] show ?thesis by auto
qed

lemma relayed_inv:
  assumes inv: "sys_inv ent in_range clk W s" "relay_ok s rl" "rl_handle rl = h" and own: "relay_owns e (s, rl)"
    and step: "relayed_exec W A D e (s, rl) = Some (Done (s', rl'))"
  shows "sys_inv ent in_range clk W s' \<and> relay_ok s' rl' \<and> rl_handle rl' = h"
proof (cases e)
  case (World f)
  with step have f: "exec W A D f s = Some (Done s')" "rl' = rl"
    by (auto simp del: exec.simps)
  have "relay_ok s' rl"
  proof (cases "\<exists>r. rl_phase rl = Returned r")
    case True
    then show ?thesis by (auto simp: relay_ok_def)
  next
    case False
    with own World world_keeps_alive [OF inv(1) f(1) relay_pooled [OF inv(1,2)]] inv(2) show ?thesis
      by (auto simp: relay_ok_def)
  qed
  with f inv exec_inv [OF inv(1) f(1)] show ?thesis by simp
next
  case (Task ev)
  with step obtain ds where rl': "relay_step ev rl = Some (rl', ds)" and ds: "run_events (exec W A D) ds s = Some (Done s')"
    by (auto split: option.splits simp del: run_events.simps)
  have "sys_inv ent in_range clk W s'"
    by (rule any.reach_inv [OF run_events_reach [OF ds] inv(1)])
  moreover have "relay_ok s' rl' \<and> rl_handle rl' = h"
  proof (cases "running s")
    case True
    from task_step [OF sys_invD(4) [OF inv(1)] True inv(2) rl', of W A D] ds inv(3) show ?thesis
      by (auto simp del: run_events.simps)
  next
    case False
    have "ds = []"
      using rl' ds by (cases rule: relay_step_cases)
        (simp_all add: drop_fails [OF sys_invD(4) [OF inv(1)] False] del: run_events.simps)
    with ds have "s' = s" by simp
    with rl' \<open>ds = []\<close> inv show ?thesis
      by (cases rule: relay_step_cases) (simp_all add: relay_ok_simps)
  qed
  ultimately show ?thesis by blast
qed

end

sublocale loop_stack \<subseteq> relayed: invariant_system "relayed_exec W A D" relay_owns
  "\<lambda>(s, rl). sys_inv ent in_range clk W s \<and> relay_ok s rl \<and> rl_handle rl = h" for h
proof
  fix x e x'
  assume inv: "case x of (s, rl) \<Rightarrow> sys_inv ent in_range clk W s \<and> relay_ok s rl \<and> rl_handle rl = h"
    and step: "relay_owns e x" "relayed_exec W A D e x = Some (Done x')"
  obtain s rl s' rl' where x: "x = (s, rl)" "x' = (s', rl')"
    by (cases x; cases x')
  have "sys_inv ent in_range clk W s' \<and> relay_ok s' rl' \<and> rl_handle rl' = h"
    by (rule relayed_inv [of s rl h e]) (use inv step in \<open>simp_all only: x prod.case\<close>)
  then show "case x' of (s, rl) \<Rightarrow> sys_inv ent in_range clk W s \<and> relay_ok s rl \<and> rl_handle rl = h"
    by (simp add: x)
qed

context loop_stack
begin

lemmas relayed_reach = relayed.reach_inv

lemma relay_reach:
  assumes "sys_start D t0 caps = Done s0" and "clk = Clock_new t0"
    and "reach (exec W A D) (\<lambda>_ _. True) s0 s1" and "readers s1 h \<noteq> None" and "writers s1 h \<noteq> None"
    and "reach (relayed_exec W A D) relay_owns (s1, relay_start remote h) (s, rl)"
  shows "sys_inv ent in_range clk W s \<and> relay_ok s rl \<and> rl_handle rl = h"
proof -
  have "sys_inv ent in_range clk W s1"
    using reach_sys_inv [OF assms(1-3)] .
  moreover have "relay_ok s1 (relay_start remote h)"
    using assms(4,5) by (simp add: relay_ok_simps relay_start_def)
  ultimately show ?thesis
    using relayed_reach [OF assms(6), of h] by (simp add: relay_start_def)
qed

end

section \<open>A run against the sample libraries\<close>

text \<open>
  The relay connects, a round of the loop follows, the receiving task ends and drops its reader, the loop
  delivers the report, and the sending task ends.
\<close>

definition relayed_run :: "relayed_event list" where
  "relayed_run = [Task (Connected (Inr ())), World (Egress 3), Task (RecvEnds (Inr (Inr 5))), World (Select 4 None None)]"

lemma sample_relayed:
  "\<exists>s0 s1 s rl. sys_start slab_api 0 sample_caps = Done s0 \<and> run_events sample_exec (take 2 race) s0 = Some (Done s1)
     \<and> readers s1 sample_handle \<noteq> None \<and> writers s1 sample_handle \<noteq> None
     \<and> run_events (relayed_exec sample_wire sample_tcp slab_api) relayed_run
         (s1, relay_start (SockV4 (1, 2, 3, 4) 5) sample_handle) = Some (Done (s, rl))
     \<and> all_allowed (relayed_exec sample_wire sample_tcp slab_api) relay_owns relayed_run
         (s1, relay_start (SockV4 (1, 2, 3, 4) 5) sample_handle)
     \<and> running s \<and> closings s = []
     \<and> relay_step (SentEnds (Inr (Inr 7))) rl =
         Some (rl\<lparr>rl_phase := Returned (Inr (7, 5))\<rparr>, [DropWriter sample_handle])"
  by (simp add: race_def relayed_run_def relay_start_def relay_step_def copy_to_server_def run_defs)

section \<open>The property\<close>

text \<open>
  (C17) The relay gives back what it was given, in any interleaving with the loop and all other tasks. As
  long as it has not returned its connection is in the pool, and the application holds exactly the
  halves whose task has not ended. While the loop runs no step of the relay panics: it drops
  exactly the halves of the task that ends, or both when the server cannot be reached, and each drop puts one
  report for its half into the channel to the loop. When the relay returns, in whatever way, both halves are
  given back.
\<close>

theorem relay_returns_halves:
  assumes "loop_stack D ent in_range W A (Clock_new t0)" and "sys_start D t0 caps = Done s0"
    and "reach (exec W A D) (\<lambda>_ _. True) s0 s1" and "readers s1 h \<noteq> None" and "writers s1 h \<noteq> None"
    and "reach (relayed_exec W A D) relay_owns (s1, relay_start remote h) (s, rl)"
  shows "(case rl_phase rl of
      Connecting \<Rightarrow> readers s h \<noteq> None \<and> writers s h \<noteq> None \<and> h \<in> dom (sockets_of s)
    | Copying sent recv \<Rightarrow> (readers s h \<noteq> None \<longleftrightarrow> recv = None) \<and> (writers s h \<noteq> None \<longleftrightarrow> sent = None)
        \<and> h \<in> dom (sockets_of s)
    | Returned r \<Rightarrow> True)
    \<and> (\<forall>ev rl' ds. running s \<longrightarrow> relay_step ev rl = Some (rl', ds) \<longrightarrow>
        (\<exists>s'. relayed_exec W A D (Task ev) (s, rl) = Some (Done (s', rl'))
          \<and> closings s' = closings s @ concat (map reported ds) \<and> sockets_of s' = sockets_of s
          \<and> (\<forall>r. rl_phase rl' = Returned r \<longrightarrow> readers s' h = None \<and> writers s' h = None)))"
proof -
  have inv: "sys_inv ent in_range (Clock_new t0) W s" "relay_ok s rl" "rl_handle rl = h"
    using loop_stack.relay_reach [OF assms(1,2) refl assms(3-6)] by simp_all
  have "h \<in> dom (sockets_of s)" if "\<And>r. rl_phase rl \<noteq> Returned r"
    using loop_stack.relay_pooled [OF assms(1) inv(1,2) that] inv(3) by auto
  then have "case rl_phase rl of
      Connecting \<Rightarrow> readers s h \<noteq> None \<and> writers s h \<noteq> None \<and> h \<in> dom (sockets_of s)
    | Copying sent recv \<Rightarrow> (readers s h \<noteq> None \<longleftrightarrow> recv = None) \<and> (writers s h \<noteq> None \<longleftrightarrow> sent = None)
        \<and> h \<in> dom (sockets_of s)
    | Returned r \<Rightarrow> True"
    using inv(2,3) by (cases "rl_phase rl") (simp_all add: relay_ok_simps)
  moreover have "\<exists>s'. relayed_exec W A D (Task ev) (s, rl) = Some (Done (s', rl'))
      \<and> closings s' = closings s @ concat (map reported ds) \<and> sockets_of s' = sockets_of s
      \<and> (\<forall>r. rl_phase rl' = Returned r \<longrightarrow> readers s' h = None \<and> writers s' h = None)"
    if "running s" "relay_step ev rl = Some (rl', ds)" for ev rl' ds
    using task_step [OF sys_invD(4) [OF inv(1)] that(1) inv(2) that(2), of W A D] that(2) inv(3)
    by (auto simp: all_sides simp del: run_events.simps)
  ultimately show ?thesis by blast
qed

theorem relay_returns_halves_witness:
  "\<exists>s0 s1 s rl s'. sys_start slab_api 0 sample_caps = Done s0 \<and> run_events sample_exec (take 2 race) s0 = Some (Done s1)
     \<and> run_events (relayed_exec sample_wire sample_tcp slab_api) relayed_run
         (s1, relay_start (SockV4 (1, 2, 3, 4) 5) sample_handle) = Some (Done (s, rl))
     \<and> relayed_exec sample_wire sample_tcp slab_api (Task (SentEnds (Inr (Inr 7)))) (s, rl) =
         Some (Done (s', rl\<lparr>rl_phase := Returned (Inr (7, 5))\<rparr>))
     \<and> closings s' = [(sample_handle, CloseWrite)] \<and> readers s' sample_handle = None \<and> writers s' sample_handle = None"
proof -
  obtain s0 s1 s rl where s0: "sys_start slab_api 0 sample_caps = Done s0"
    and run: "run_events sample_exec (take 2 race) s0 = Some (Done s1)"
    and held: "readers s1 sample_handle \<noteq> None" "writers s1 sample_handle \<noteq> None"
    and relay: "run_events (relayed_exec sample_wire sample_tcp slab_api) relayed_run
         (s1, relay_start (SockV4 (1, 2, 3, 4) 5) sample_handle) = Some (Done (s, rl))"
    and ok: "all_allowed (relayed_exec sample_wire sample_tcp slab_api) relay_owns relayed_run
         (s1, relay_start (SockV4 (1, 2, 3, 4) 5) sample_handle)"
    and st: "running s" "closings s = []"
    and ends: "relay_step (SentEnds (Inr (Inr 7))) rl =
         Some (rl\<lparr>rl_phase := Returned (Inr (7, 5))\<rparr>, [DropWriter sample_handle])"
    using sample_relayed by blast
  from relay_returns_halves [OF sample.loop_stack_axioms s0 run_events_reach [OF run] held all_allowed_reach [OF relay ok]]
    st(1) ends
  have "\<exists>s'. relayed_exec sample_wire sample_tcp slab_api (Task (SentEnds (Inr (Inr 7)))) (s, rl) =
         Some (Done (s', rl\<lparr>rl_phase := Returned (Inr (7, 5))\<rparr>))
     \<and> closings s' = [(sample_handle, CloseWrite)] \<and> readers s' sample_handle = None \<and> writers s' sample_handle = None"
    using st(2) by (fastforce simp del: relayed_exec.simps)
  with s0 run relay show ?thesis by blast
qed

end
