(* ===== verification/Provenance.thy ===== *)
theory Provenance
  imports Handover System_Safety
begin

text \<open>
  Where the pool's keys come from: every connection in the pool was opened by a SYN that the device
  delivered, its peer is the source and its local side the destination of that packet. It holds for
  any library and any clients. In particular both addresses of a key are of one family.
\<close>

section \<open>The packet that opens a connection\<close>

definition opened_by :: "wire_api \<Rightarrow> checksum_caps \<Rightarrow> bytes \<Rightarrow> addr_pair \<Rightarrow> bool" where
  "opened_by W cs packet h \<longleftrightarrow>
     (\<exists>ip repr. packet_headers W cs packet = Some (ip, repr) \<and> unicast_tcp W ip
        \<and> control repr = CtlSyn \<and> ack_number repr = None
        \<and> convert_to_socket_address W (ip_src_addr ip) (src_port repr) = Inr (peer h)
        \<and> convert_to_socket_address W (ip_dst_addr ip) (dst_port repr) = Inr (local_side h))"

fun is_v4 :: "socket_addr \<Rightarrow> bool" where
  "is_v4 (SockV4 a p) \<longleftrightarrow> True"
| "is_v4 (SockV6 a p) \<longleftrightarrow> False"

lemma opened_by_family:
  assumes "opened_by W cs packet h"
  shows "is_v4 (peer h) = is_v4 (local_side h)"
proof -
  from assms obtain ip and repr :: tcp_repr where "unicast_tcp W ip"
      "convert_to_socket_address W (ip_src_addr ip) (src_port repr) = Inr (peer h)"
      "convert_to_socket_address W (ip_dst_addr ip) (dst_port repr) = Inr (local_side h)"
    unfolding opened_by_def by blast
  then show ?thesis
    by (cases ip; cases "peer h"; cases "local_side h") auto
qed

lemma packet_headers_unicast:
  assumes "packet_headers W cs packet = Some (ip, repr)"
  shows "unicast_tcp W ip"
  using assms
  by (auto simp: packet_headers_def ipv4_headers_def ipv6_headers_def tcp_headers_def
      split: list.splits if_splits sum.splits)

lemma packet_pair_sides:
  assumes "packet_pair W ip t = Inr h"
  shows "convert_to_socket_address W (ip_src_addr ip) (src_port t) = Inr (peer h)"
    and "convert_to_socket_address W (ip_dst_addr ip) (dst_port t) = Inr (local_side h)"
  using assms by (auto simp: packet_pair_def split: sum.splits)

text \<open>A packet without headers for the pool changes nothing.\<close>

lemma Interface_process_no_headers:
  assumes "packet_headers W (if_checksum_caps i) packet = None"
    and "Interface_process W A D lst now packet i = Done (r, i', eff)"
  shows "i' = i"
  using assms
  by (auto simp: packet_headers_def ipv4_headers_def ipv6_headers_def tcp_headers_def Interface_process_def
      process_ipv4_def process_ipv6_def process_tcp_def Let_def split: list.splits if_splits sum.splits ip_protocol.splits)

section \<open>New keys\<close>

lemma process_keys:
  assumes "Interface_process W A D lst now packet i = Done (r, i', eff)"
  shows "dom (sp_sockets (if_sockets i')) \<subseteq>
      dom (sp_sockets (if_sockets i)) \<union> Collect (opened_by W (if_checksum_caps i) packet)"
    and "if_checksum_caps i' = if_checksum_caps i"
proof -
  have "dom (sp_sockets (if_sockets i')) \<subseteq>
      dom (sp_sockets (if_sockets i)) \<union> Collect (opened_by W (if_checksum_caps i) packet)
    \<and> if_checksum_caps i' = if_checksum_caps i"
  proof (cases "packet_headers W (if_checksum_caps i) packet")
    case None
    with Interface_process_no_headers [OF None assms] show ?thesis by simp
  next
    case (Some x)
    obtain ip repr where x: "x = (ip, repr)" by (cases x)
    note hd = Some [unfolded x]
    from assms obtain p where p: "SocketPool_process W A D lst now ip repr (if_sockets i) = Done (r, p, eff)"
      and i': "i' = i\<lparr>if_sockets := p\<rparr>"
      by (auto simp: Interface_process_headers [OF hd])
    from p have "dom (sp_sockets p) \<subseteq> dom (sp_sockets (if_sockets i)) \<union> Collect (opened_by W (if_checksum_caps i) packet)"
      using hd packet_headers_unicast [OF hd]
      by (cases rule: SocketPool_process_cases) (auto simp: opened_by_def packet_pair_sides)
    with i' show ?thesis by simp
  qed
  then show "dom (sp_sockets (if_sockets i')) \<subseteq>
      dom (sp_sockets (if_sockets i)) \<union> Collect (opened_by W (if_checksum_caps i) packet)"
    "if_checksum_caps i' = if_checksum_caps i"
    by blast+
qed

lemma dispatch_keys:
  assumes "Interface_dispatch W A D now buf h i = Done (b, i', eff)"
  shows "dom (sp_sockets (if_sockets i')) \<subseteq> dom (sp_sockets (if_sockets i))"
    and "if_checksum_caps i' = if_checksum_caps i"
  using assms
  by (auto simp: Interface_dispatch_def SocketPool_dispatch_def Let_def split: if_splits)

lemma drop_keys:
  assumes "SocketPool_drop_tcp_half A D h side p = Done p'"
  shows "dom (sp_sockets p') \<subseteq> dom (sp_sockets p)"
  using assms by (auto simp: SocketPool_drop_tcp_half_def split: if_splits)

section \<open>Steps of the loop\<close>

text \<open>The size of the read buffer, which is at hand or in the reader's future.\<close>

definition buffer_ok :: "('s, 'q, 'k) io_loop \<Rightarrow> bool" where
  "buffer_ok l \<longleftrightarrow> (\<forall>b. slot_b (selector l) = Some b \<longrightarrow> length b = 2048)"

abbreviation caps_of :: "('s, 'q, 'k) io_loop \<Rightarrow> checksum_caps" where
  "caps_of l \<equiv> if_checksum_caps (interface l)"

lemma egress_keys:
  assumes "io_egress W A D now l = Done (l', eff)"
  shows "dom (sp_sockets (loop_pool l')) \<subseteq> dom (sp_sockets (loop_pool l))"
    and "caps_of l' = caps_of l" and "buffer_ok l \<Longrightarrow> buffer_ok l'"
  using assms dispatch_keys [of W A D now]
  by (fastforce simp: io_egress_def loop_pool_def insert_a_def buffer_ok_def Let_def split: if_splits option.splits)+

text \<open>What the reader's future returns: the bytes of the device, as far as they fit.\<close>

lemma wait_reads:
  assumes "io_wait D now l \<lparr>dev_write = wr, dev_read = rd, closing = cs, poll_recv = us\<rparr> = Done (res, l', w')"
    and "buffer_ok l"
  shows "sp_sockets (loop_pool l') = sp_sockets (loop_pool l)" and "caps_of l' = caps_of l" and "buffer_ok l'"
    and "res = Chosen (SelB (n, buf)) \<Longrightarrow> length buf = 2048
      \<and> (\<forall>m. n = Inr m \<longrightarrow> (\<exists>data. rd = Some (Inr data) \<and> take m buf = take 2048 data))"
proof -
  show "sp_sockets (loop_pool l') = sp_sockets (loop_pool l)" "caps_of l' = caps_of l"
    using assms(1) by (cases rule: io_wait_cases; simp add: loop_pool_def set_pool_def)+
  have poll: "slot_b sel' = slot_b sel \<or> slot_b sel' = None"
    if "select_poll write_future read_future recv_close recv_poll sel w = (r, sel', w')" for sel sel' w w' r
    using that by (auto simp: select_poll_def poll_slot_def future_defs Let_def
        split: option.splits sum.splits list.splits)
  show "buffer_ok l'"
    using assms(1)
    by (cases rule: io_wait_cases) (use assms(2) in \<open>auto simp: buffer_ok_def set_pool_def dest!: poll\<close>)
  show "length buf = 2048 \<and> (\<forall>m. n = Inr m \<longrightarrow> (\<exists>data. rd = Some (Inr data) \<and> take m buf = take 2048 data))"
    if "res = Chosen (SelB (n, buf))"
    using assms(1)
    by (cases rule: io_wait_cases) (use assms(2) that in \<open>auto simp: buffer_ok_def select_poll_def poll_slot_def
        future_defs Let_def min_def split: option.splits sum.splits list.splits poll.splits if_splits\<close>)
qed

lemma handle_keys:
  assumes "io_handle W A D lst now c l = Done (res, l', eff)" and "buffer_ok l"
    and "\<And>n buf. c = SelB (n, buf) \<Longrightarrow> length buf = 2048"
  shows "dom (sp_sockets (loop_pool l')) \<subseteq> dom (sp_sockets (loop_pool l))
      \<union> {h. \<exists>m buf. c = SelB (Inr m, buf) \<and> opened_by W (caps_of l) (take m buf) h}"
    and "caps_of l' = caps_of l" and "buffer_ok l'"
proof -
  have "dom (sp_sockets (loop_pool l')) \<subseteq> dom (sp_sockets (loop_pool l))
      \<union> {h. \<exists>m buf. c = SelB (Inr m, buf) \<and> opened_by W (caps_of l) (take m buf) h}
    \<and> caps_of l' = caps_of l \<and> buffer_ok l'"
    using assms(1)
  proof (cases rule: io_handle_cases)
    case (packet m buf r i sel)
    from packet(5) assms(3) packet(1) have "\<forall>b. slot_b sel = Some b \<longrightarrow> length b = 2048"
      by (auto simp: insert_b_def split: if_splits)
    with packet process_keys [OF packet(4)] show ?thesis
      by (auto simp: loop_pool_def buffer_ok_def)
  next
    case (half h side p sel)
    with drop_keys [OF half(2)] assms(2) show ?thesis
      by (auto simp: buffer_ok_def set_pool_def loop_pool_def insert_c_def split: if_splits)
  qed (use assms(2,3) in \<open>auto simp: loop_pool_def set_pool_def buffer_ok_def insert_b_def insert_d_def split: if_splits\<close>)
  then show "dom (sp_sockets (loop_pool l')) \<subseteq> dom (sp_sockets (loop_pool l))
      \<union> {h. \<exists>m buf. c = SelB (Inr m, buf) \<and> opened_by W (caps_of l) (take m buf) h}"
    "caps_of l' = caps_of l" "buffer_ok l'"
    by blast+
qed

section \<open>Runs\<close>

fun opens :: "wire_api \<Rightarrow> checksum_caps \<Rightarrow> event \<Rightarrow> addr_pair \<Rightarrow> bool" where
  "opens W cs (Select now wr (Some (Inr data))) h \<longleftrightarrow> opened_by W cs (take 2048 data) h"
| "opens W cs _ h \<longleftrightarrow> False"

lemma exec_keys:
  assumes "exec W A D e s = Some (Done s')" and "buffer_ok (loop s)"
  shows "dom (sockets_of s') \<subseteq> dom (sockets_of s) \<union> Collect (opens W (caps_of (loop s)) e)
    \<and> caps_of (loop s') = caps_of (loop s) \<and> buffer_ok (loop s')"
proof (cases e)
  case (Egress now)
  with assms obtain l eff where l: "io_egress W A D now (loop s) = Done (l, eff)" and "loop s' = l"
    by (auto simp: step_egress_def apply_effects_def split: if_splits)
  with egress_keys [OF l] assms(2) show ?thesis
    by (auto simp: sockets_of_def)
next
  case (Select now wr rd)
  with assms obtain r l w where wait: "io_wait D now (loop s)
      \<lparr>dev_write = wr, dev_read = rd, closing = closings s, poll_recv = updates s\<rparr> = Done (r, l, w)"
    by (auto simp: step_select_def split: if_splits)
  note reads = wait_reads [OF wait assms(2)]
  show ?thesis
  proof (cases r)
    case (Chosen c)
    with assms Select wait obtain res l' eff where
      h: "io_handle W A D (listening s) now c l = Done (res, l', eff)" and l': "loop s' = l'"
      by (auto simp: step_select_def Let_def apply_effects_def split: if_splits sum.splits)
    have size: "length buf = 2048" if "c = SelB (n, buf)" for n buf
      using reads(4) Chosen that by simp
    have "opens W (caps_of (loop s)) e g" if "c = SelB (Inr m, buf)" "opened_by W (caps_of l) (take m buf) g" for m buf g
      using reads(2) reads(4) [of "Inr m" buf] Chosen that Select by auto
    moreover have "dom (sp_sockets (loop_pool l')) \<subseteq> dom (sp_sockets (loop_pool l))
        \<union> {h. \<exists>m buf. c = SelB (Inr m, buf) \<and> opened_by W (caps_of l) (take m buf) h}"
      "caps_of l' = caps_of l" "buffer_ok l'"
      by (rule handle_keys [OF h reads(3)], erule size)+
    ultimately show ?thesis
      using reads(1,2) l' by (auto simp: sockets_of_def)
  qed (use assms Select wait reads(1-3) in
    \<open>auto simp: step_select_def sockets_of_def loop_pool_def buffer_ok_def split: if_splits\<close>)
qed (use assms in \<open>auto simp: step_read_def step_write_def step_close_def set_connection_def sockets_of_def
  loop_pool_def set_pool_def buffer_ok_def split: option.splits prod.splits if_splits\<close>)

lemma run_keys:
  assumes "run_events (exec W A D) es s = Some (Done s')" and "buffer_ok (loop s)" and "h \<in> dom (sockets_of s')"
  shows "h \<in> dom (sockets_of s) \<or> (\<exists>e \<in> set es. opens W (caps_of (loop s)) e h)"
  using assms
proof (induction es arbitrary: s)
  case (Cons e es)
  then obtain s1 where s1: "exec W A D e s = Some (Done s1)" and rest: "run_events (exec W A D) es s1 = Some (Done s')"
    by (auto split: option.splits outcome.splits simp del: exec.simps)
  note step = exec_keys [OF s1 Cons.prems(2)]
  from Cons.IH [OF rest _ Cons.prems(3)] step show ?case by auto
qed simp

lemma sys_start_empty:
  assumes "sys_start D t0 caps = Done s"
  shows "sockets_of s = Map.empty" and "buffer_ok (loop s)" and "caps_of (loop s) = checksum caps"
  using assms
  by (auto simp: sys_start_def io_start_def insert_b_def insert_c_def insert_d_def Selector_new_def
      sockets_of_def loop_pool_def SocketPool_new_def buffer_ok_def Let_def)

lemma sample_key:
  "\<exists>s0 s. sys_start slab_api 0 sample_caps = Done s0 \<and> run_events sample_exec (take 2 race) s0 = Some (Done s)
     \<and> sample_handle \<in> dom (sockets_of s)"
  by (simp add: race_def run_defs)

section \<open>The property\<close>

text \<open>
  (C28) Every connection was opened by the peer: after any run, for any library and any clients, each
  connection in the pool was created by a SYN without ACK that the device delivered in that run, as far as it
  fits the read buffer, from a unicast source; the connection's peer is the source and its local
  side the destination of that packet, and both are of one address family.
\<close>

theorem pool_keys_from_syns:
  assumes "sys_start D t0 caps = Done s0" and "run_events (exec W A D) es s0 = Some (Done s)"
    and "h \<in> dom (sockets_of s)"
  shows "(\<exists>now wr data ip repr. Select now wr (Some (Inr data)) \<in> set es
      \<and> packet_headers W (checksum caps) (take 2048 data) = Some (ip, repr) \<and> unicast_tcp W ip
      \<and> control repr = CtlSyn \<and> ack_number repr = None
      \<and> convert_to_socket_address W (ip_src_addr ip) (src_port repr) = Inr (peer h)
      \<and> convert_to_socket_address W (ip_dst_addr ip) (dst_port repr) = Inr (local_side h))
    \<and> is_v4 (peer h) = is_v4 (local_side h)"
proof -
  from run_keys [OF assms(2) sys_start_empty(2) [OF assms(1)] assms(3)] sys_start_empty [OF assms(1)]
  obtain e where e: "e \<in> set es" "opens W (checksum caps) e h" by auto
  then obtain now wr data where data: "e = Select now wr (Some (Inr data))" "opened_by W (checksum caps) (take 2048 data) h"
    by (cases "(W, checksum caps, e, h)" rule: opens.cases) auto
  with opened_by_family e(1) show ?thesis
    unfolding opened_by_def by blast
qed

theorem pool_keys_from_syns_witness:
  "\<exists>now wr data. Select now wr (Some (Inr data)) \<in> set (take 2 race)
     \<and> (\<exists>ip repr. packet_headers sample_wire (checksum sample_caps) (take 2048 data) = Some (ip, repr)
          \<and> control repr = CtlSyn)
     \<and> is_v4 (peer sample_handle) = is_v4 (local_side sample_handle)"
proof -
  obtain s0 s where s0: "sys_start slab_api 0 sample_caps = Done s0"
    and run: "run_events sample_exec (take 2 race) s0 = Some (Done s)" and key: "sample_handle \<in> dom (sockets_of s)"
    using sample_key by blast
  from pool_keys_from_syns [OF s0 run key] show ?thesis by blast
qed

end
