(* ===== verification/Connection_Invariants.thy ===== *)
theory Connection_Invariants
  imports System_Safety Provenance
begin

text \<open>
  Invariants of single connections. The locale \<open>connection_invariant\<close> is the one place where a
  property of a connection is lifted to all pooled connections of all reachable states: it is
  enough that a new connection has it, and that the operations of the loop on a connection and the
  actions of its two halves keep it. Actions may be restricted by a condition on the connection.
\<close>

section \<open>From one connection to the pool\<close>

definition all_conns :: "('s connection \<Rightarrow> bool) \<Rightarrow> ('s, 'q, 'k) sys \<Rightarrow> bool" where
  "all_conns P s \<longleftrightarrow> (\<forall>h c. sockets_of s h = Some c \<longrightarrow> P c)"

definition half_ok :: "(event \<Rightarrow> 's connection \<Rightarrow> bool) \<Rightarrow> event \<Rightarrow> ('s, 'q, 'k) sys \<Rightarrow> bool" where
  "half_ok ok e s \<longleftrightarrow>
     (case e of
        AppRead h lf wk buf \<Rightarrow> (\<forall>c. sockets_of s h = Some c \<longrightarrow> ok e c)
      | AppWrite h lf wk buf \<Rightarrow> (\<forall>c. sockets_of s h = Some c \<longrightarrow> ok e c)
      | AppClose h lf \<Rightarrow> (\<forall>c. sockets_of s h = Some c \<longrightarrow> ok e c)
      | _ \<Rightarrow> True)"

lemma all_conns_set_connection:
  assumes "all_conns P s" and "sockets_of s' = sockets_of s" and "P c"
  shows "all_conns P (set_connection h c s')"
  using assms by (auto simp: all_conns_def)

locale connection_invariant =
  fixes W :: wire_api and A :: "'s tcp_api" and D :: "('q, 'k) delay_api"
    and P :: "'s connection \<Rightarrow> bool" and ok :: "event \<Rightarrow> 's connection \<Rightarrow> bool"
  assumes new_ok: "P (snd (TcpStream_new t h))"
    and process_ok: "P c \<Longrightarrow> Connection_process W A D ts ip repr c q = Done (reply, c', q', ws) \<Longrightarrow> P c'"
    and dispatch_ok: "P c \<Longrightarrow> Connection_dispatch W A D [] ts caps c q = Done (False, b, c', q', ws) \<Longrightarrow> P c'"
    and drop_ok: "P c \<Longrightarrow> Connection_drop_half A D side c q = Done (c', q') \<Longrightarrow> P c'"
    and read_ok: "P c \<Longrightarrow> ok (AppRead h lf wk buf) c \<Longrightarrow>
      ReadHalf_poll_read_inner A lf wk buf rh (socket c) (read_readiness (rw c)) = (got, buf', rh', inn, sh) \<Longrightarrow>
      P (c\<lparr>socket := inn, rw := (rw c)\<lparr>read_readiness := sh\<rparr>\<rparr>)"
    and write_ok: "P c \<Longrightarrow> ok (AppWrite h lf wk buf) c \<Longrightarrow>
      WriteHalf_poll_write_inner A on lf wk buf wh (socket c) (write_readiness (rw c)) = Done (put, inn, sh, ms) \<Longrightarrow>
      P (c\<lparr>socket := inn, rw := (rw c)\<lparr>write_readiness := sh\<rparr>\<rparr>)"
    and close_ok: "P c \<Longrightarrow> ok (AppClose h lf) c \<Longrightarrow>
      WriteHalf_poll_close_inner A on lf wh (socket c) = Done (fin, inn, ms) \<Longrightarrow> P (c\<lparr>socket := inn\<rparr>)"
begin

lemma process_conns:
  assumes "SocketPool_process W A D lst now ip repr p = Done (r, p', eff)"
    and "\<And>h c. sp_sockets p h = Some c \<Longrightarrow> P c" and "sp_sockets p' h = Some c"
  shows "P c"
  using assms(1)
  by (cases rule: SocketPool_process_cases)
    (use assms(2,3) new_ok in \<open>auto split: if_splits dest!: process_ok [rotated]\<close>)

lemma dispatch_conns:
  assumes "SocketPool_dispatch W A D now buf g p = Done (buf', p', eff)"
    and "\<And>h c. sp_sockets p h = Some c \<Longrightarrow> P c" and "sp_sockets p' h = Some c"
  shows "P c"
  using assms(1)
  by (cases rule: SocketPool_dispatch_cases) (use assms(2,3) in \<open>auto split: if_splits dest!: dispatch_ok [rotated]\<close>)

lemma drop_conns:
  assumes "SocketPool_drop_tcp_half A D g side p = Done p'"
    and "\<And>h c. sp_sockets p h = Some c \<Longrightarrow> P c" and "sp_sockets p' h = Some c"
  shows "P c"
  using assms(1)
  by (cases rule: SocketPool_drop_cases) (use assms(2,3) in \<open>auto split: if_splits dest!: drop_ok [rotated]\<close>)

lemma handle_conns:
  assumes "io_handle W A D lst now x l = Done (res, l', eff)"
    and "\<And>h c. sp_sockets (loop_pool l) h = Some c \<Longrightarrow> P c" and "sp_sockets (loop_pool l') h = Some c"
  shows "P c"
  using assms(1)
proof (cases rule: io_handle_cases)
  case (packet m buf r i sel)
  from packet(4) show ?thesis
    by (cases rule: Interface_process_cases)
      (use packet(7) assms(2,3) process_conns in \<open>auto simp: loop_pool_def\<close>)
next
  case (half g side p sel)
  with drop_conns [OF half(2)] assms(2,3) show ?thesis by simp
qed (use assms(2,3) in auto)

lemma egress_conns:
  assumes "io_egress W A D now l = Done (l', eff)"
    and "\<And>h c. sp_sockets (loop_pool l) h = Some c \<Longrightarrow> P c" and "sp_sockets (loop_pool l') h = Some c"
  shows "P c"
proof -
  have "P c" if "Interface_dispatch W A D now buf g (interface l) = Done (b, i, e)"
      "sp_sockets (if_sockets i) h = Some c" for buf g b i e
    using that(1)
    by (cases rule: Interface_dispatch_cases) (use dispatch_conns assms(2) that(2) in \<open>auto simp: loop_pool_def\<close>)
  with assms show ?thesis
    by (fastforce simp: io_egress_def loop_pool_def Let_def split: if_splits option.splits)
qed

lemma wait_conns:
  assumes "io_wait D now l w = Done (res, l', w')"
  shows "sp_sockets (loop_pool l') = sp_sockets (loop_pool l)"
  using assms by (cases rule: io_wait_cases) (auto simp: loop_pool_def set_pool_def)

lemma select_conns:
  assumes "step_select W A D now wr rd s = Done s'" and "all_conns P s"
  shows "all_conns P s'"
proof -
  obtain r l w where wait: "io_wait D now (loop s)
      \<lparr>dev_write = wr, dev_read = rd, closing = closings s, poll_recv = updates s\<rparr> = Done (r, l, w)"
    using assms(1) by (auto simp: step_select_def)
  show ?thesis
  proof (cases r)
    case (Chosen x)
    with assms(1) wait obtain res l' eff where
      h: "io_handle W A D (listening s) now x l = Done (res, l', eff)" and "loop s' = l'"
      by (auto simp: step_select_def Let_def split: sum.splits)
    with handle_conns [OF h] wait_conns [OF wait] assms(2) show ?thesis
      by (auto simp: all_conns_def sockets_of_def)
  qed (use assms wait wait_conns [OF wait] in
    \<open>auto simp: step_select_def all_conns_def sockets_of_def\<close>)
qed

lemma exec_conns:
  assumes inv: "all_conns P s" and ok: "half_ok ok e s" and step: "exec W A D e s = Some (Done s')"
  shows "all_conns P s'"
proof (cases e)
  case (Egress now)
  with step inv show ?thesis
    by (auto simp: step_egress_def all_conns_def sockets_of_def split: if_splits intro: egress_conns)
next
  case (Select now wr rd)
  with step inv show ?thesis
    by (auto split: if_splits intro: select_conns)
next
  case (AppRead h lf wk buf)
  with step obtain rh c got buf' rh' inn sh where c: "sockets_of s h = Some c"
    and call: "ReadHalf_poll_read_inner A lf wk buf rh (socket c) (read_readiness (rw c)) = (got, buf', rh', inn, sh)"
    and s': "s' = set_connection h (c\<lparr>socket := inn, rw := (rw c)\<lparr>read_readiness := sh\<rparr>\<rparr>)
        (s\<lparr>readers := (readers s)(h \<mapsto> rh')\<rparr>)"
    by (auto simp: step_read_def split: option.splits prod.splits)
  from c inv ok AppRead have "P c" "ok e c" by (auto simp: half_ok_def all_conns_def)
  with read_ok [OF _ _ call] AppRead inv show ?thesis
    by (auto simp: s' sockets_of_def intro!: all_conns_set_connection)
next
  case (AppWrite h lf wk buf)
  with step obtain wh c put inn sh ms where c: "sockets_of s h = Some c"
    and call: "WriteHalf_poll_write_inner A (running s) lf wk buf wh (socket c) (write_readiness (rw c)) =
        Done (put, inn, sh, ms)"
    and s': "s' = set_connection h (c\<lparr>socket := inn, rw := (rw c)\<lparr>write_readiness := sh\<rparr>\<rparr>)
        (s\<lparr>updates := updates s @ ms\<rparr>)"
    by (auto simp: step_write_def split: option.splits)
  from c inv ok AppWrite have "P c" "ok e c" by (auto simp: half_ok_def all_conns_def)
  with write_ok [OF _ _ call] AppWrite inv show ?thesis
    by (auto simp: s' sockets_of_def intro!: all_conns_set_connection)
next
  case (AppClose h lf)
  with step obtain wh c fin inn ms where c: "sockets_of s h = Some c"
    and call: "WriteHalf_poll_close_inner A (running s) lf wh (socket c) = Done (fin, inn, ms)"
    and s': "s' = set_connection h (c\<lparr>socket := inn\<rparr>) (s\<lparr>updates := updates s @ ms\<rparr>)"
    by (auto simp: step_close_def split: option.splits)
  from c inv ok AppClose have "P c" "ok e c" by (auto simp: half_ok_def all_conns_def)
  with close_ok [OF _ _ call] AppClose inv show ?thesis
    by (auto simp: s' sockets_of_def intro!: all_conns_set_connection)
qed (use step inv in \<open>auto simp: all_conns_def sockets_of_def split: option.splits\<close>)

end

sublocale connection_invariant \<subseteq> conns: invariant_system "exec W A D" "half_ok ok" "all_conns P"
  by unfold_locales (rule exec_conns)

context connection_invariant
begin

lemma reach_conns:
  assumes "sys_start D t0 caps = Done s0" and "reach (exec W A D) (half_ok ok) s0 s" and "sockets_of s h = Some c"
  shows "P c"
  using conns.reach_inv [OF assms(2)] sys_start_empty(1) [OF assms(1)] assms(3) by (simp add: all_conns_def)

end

end
