(* ===== verification/Wakeups.thy ===== *)
theory Wakeups
  imports Connection_Invariants
begin

text \<open>
  No half sleeps in vain, in any interleaving. A task that waits has left its waker in the cell of
  its direction. In every reachable state a reader's waker is there only while the socket has no
  byte for it and may still get some, and a writer's waker only while the socket may still send. The
  loop, the peer and the other half therefore never bring the socket into a state in which the
  task should run without waking it.

  What this needs of the socket are the laws of the locale \<open>socket_states\<close>.
\<close>

section \<open>The laws\<close>

text \<open>A reader has to wait: there is nothing to read, and the end is not reached.\<close>

definition reads_idle :: "'s tcp_api \<Rightarrow> 's \<Rightarrow> bool" where
  "reads_idle A t \<longleftrightarrow> \<not> sk_can_recv A t \<and> (sk_may_recv A t \<or> sk_state A t = SynReceived)"

text \<open>
  Reading from a socket that has bytes into a buffer with room returns some, or fails. Writing and
  reading do not change what the other direction may do. Closing ends the sending direction only.
  Dispatching sends, and puts nothing into the receive buffer.
\<close>

locale socket_states =
  fixes A :: "'s tcp_api"
  assumes recv_some: "sk_can_recv A t \<Longrightarrow> buf \<noteq> [] \<Longrightarrow> fst (sk_recv_slice A t buf) \<noteq> Inr 0"
    and recv_sending: "sk_may_send A (snd (snd (sk_recv_slice A t buf))) = sk_may_send A t"
    and send_reading: "reads_idle A t \<Longrightarrow> reads_idle A (snd (sk_send_slice A t buf))"
    and send_sending: "sk_may_send A (snd (sk_send_slice A t buf)) = sk_may_send A t"
    and close_reading: "reads_idle A t \<Longrightarrow> reads_idle A (sk_close A t)"
    and dispatch_silent: "sk_dispatch A t ts caps = NoEmit r t' \<Longrightarrow> sk_can_recv A t' \<Longrightarrow> sk_can_recv A t"
    and dispatch_emits: "sk_dispatch A t ts caps = Emit p k \<Longrightarrow> k r = (r', t') \<Longrightarrow> sk_can_recv A t' \<Longrightarrow> sk_can_recv A t"

interpretation sample_states: socket_states sample_tcp
  by unfold_locales
    (auto simp: sample_tcp_def reads_idle_def sock_dispatch_def Let_def split: if_splits sum.splits)

section \<open>Waiting halves\<close>

definition reader_waits :: "'s connection \<Rightarrow> bool" where
  "reader_waits c \<longleftrightarrow> \<not> reader_dropped (rw c) \<and> waker_of (read_readiness (rw c)) \<noteq> None"

definition writer_waits :: "'s connection \<Rightarrow> bool" where
  "writer_waits c \<longleftrightarrow> \<not> writer_dropped (rw c) \<and> waker_of (write_readiness (rw c)) \<noteq> None"

definition reader_ok :: "'s tcp_api \<Rightarrow> 's connection \<Rightarrow> bool" where
  "reader_ok A c \<longleftrightarrow> (reader_waits c \<longrightarrow> reads_idle A (tcp (socket c)))"

definition writer_ok :: "'s tcp_api \<Rightarrow> 's connection \<Rightarrow> bool" where
  "writer_ok A c \<longleftrightarrow> (writer_waits c \<longrightarrow> sk_may_send A (tcp (socket c)))"

lemmas waiting_defs = reader_waits_def writer_waits_def reader_ok_def writer_ok_def

text \<open>The reads have room, and no stream is closed while a write on it waits.\<close>

fun room_to_read :: "event \<Rightarrow> 's connection \<Rightarrow> bool" where
  "room_to_read (AppRead h lf wk buf) c \<longleftrightarrow> buf \<noteq> []"
| "room_to_read _ c \<longleftrightarrow> True"

fun close_in_turn :: "event \<Rightarrow> 's connection \<Rightarrow> bool" where
  "close_in_turn (AppClose h lf) c \<longleftrightarrow> waker_of (write_readiness (rw c)) = None"
| "close_in_turn _ c \<longleftrightarrow> True"

lemma new_waits: "\<not> reader_waits (snd (TcpStream_new t h))" "\<not> writer_waits (snd (TcpStream_new t h))"
  by (simp_all add: waiting_defs TcpStream_new_def Connection_new_def ReadHalf_new_def WriteHalf_new_def)

text \<open>Processing and dispatching only take wakers out.\<close>

lemma dispatch_read_waker:
  assumes "Connection_dispatch W A D [] ts caps c q = Done (dr, b, c', q', ws)"
    and "waker_of (read_readiness (rw c')) \<noteq> None"
  shows "waker_of (read_readiness (rw c)) \<noteq> None"
  using assms
  by (auto simp: Connection_dispatch_def wake_defs Let_def split: prod.splits if_splits option.splits)

lemma run_dispatch_result:
  assumes "run_dispatch d emit buf = Done (r, t, buf')"
  obtains "d = NoEmit r t" | p k r0 where "d = Emit p k" "k r0 = (r, t)"
  using assms by (cases d) (auto split: prod.splits)

section \<open>Every operation keeps the waiting in order\<close>

context socket_states
begin

lemma dispatch_can_recv:
  assumes "run_dispatch (sk_dispatch A t ts caps) emit buf = Done (r, t', buf')" and "sk_can_recv A t'"
  shows "sk_can_recv A t"
  using assms(1) by (rule run_dispatch_result) (use assms(2) dispatch_silent dispatch_emits in blast)+

lemma read_reader:
  assumes "reader_ok A c" and "buf \<noteq> []"
    and "ReadHalf_poll_read_inner A lf wk buf rh (socket c) (read_readiness (rw c)) = (got, buf', rh', inn, sh)"
  shows "reader_ok A (c\<lparr>socket := inn, rw := (rw c)\<lparr>read_readiness := sh\<rparr>\<rparr>)"
  using assms recv_some [of "tcp (socket c)" buf]
  by (auto simp: waiting_defs reads_idle_def ReadHalf_poll_read_inner_def read_nothing_def
      split: if_splits prod.splits sum.splits)

lemma read_writer:
  assumes "writer_ok A c"
    and "ReadHalf_poll_read_inner A lf wk buf rh (socket c) (read_readiness (rw c)) = (got, buf', rh', inn, sh)"
  shows "writer_ok A (c\<lparr>socket := inn, rw := (rw c)\<lparr>read_readiness := sh\<rparr>\<rparr>)"
proof -
  have "sk_may_send A (tcp inn) = sk_may_send A (tcp (socket c))"
    using assms(2) recv_sending [of "tcp (socket c)" buf]
    by (auto simp: ReadHalf_poll_read_inner_def split: if_splits prod.splits sum.splits)
  with assms(1) show ?thesis by (simp add: waiting_defs)
qed

lemma write_tcp:
  assumes "WriteHalf_poll_write_inner A on lf wk buf wh inn sh = Done (put, inn', sh', ms)"
  shows "tcp inn' = tcp inn \<or> tcp inn' = snd (sk_send_slice A (tcp inn) buf)"
  using assms
  by (auto simp: WriteHalf_poll_write_inner_def Let_def split: if_splits prod.splits sum.splits)

lemma write_halves:
  assumes "WriteHalf_poll_write_inner A on lf wk buf wh (socket c) (write_readiness (rw c)) = Done (put, inn, sh, ms)"
  shows "reader_ok A c \<Longrightarrow> reader_ok A (c\<lparr>socket := inn, rw := (rw c)\<lparr>write_readiness := sh\<rparr>\<rparr>)"
    and "writer_ok A c \<Longrightarrow> writer_ok A (c\<lparr>socket := inn, rw := (rw c)\<lparr>write_readiness := sh\<rparr>\<rparr>)"
proof -
  show "reader_ok A c \<Longrightarrow> reader_ok A (c\<lparr>socket := inn, rw := (rw c)\<lparr>write_readiness := sh\<rparr>\<rparr>)"
    using write_tcp [OF assms] send_reading by (auto simp: waiting_defs)
  have "sk_may_send A (tcp inn) = sk_may_send A (tcp (socket c))"
    using write_tcp [OF assms] send_sending by auto
  moreover have "sh = write_readiness (rw c) \<or> sk_may_send A (tcp inn)"
    using assms by (auto simp: WriteHalf_poll_write_inner_def Let_def split: if_splits prod.splits sum.splits)
  ultimately show "writer_ok A c \<Longrightarrow> writer_ok A (c\<lparr>socket := inn, rw := (rw c)\<lparr>write_readiness := sh\<rparr>\<rparr>)"
    by (auto simp: waiting_defs)
qed

lemma close_halves:
  assumes "WriteHalf_poll_close_inner A on lf wh (socket c) = Done (fin, inn, ms)"
  shows "reader_ok A c \<Longrightarrow> reader_ok A (c\<lparr>socket := inn\<rparr>)"
    and "waker_of (write_readiness (rw c)) = None \<Longrightarrow> writer_ok A (c\<lparr>socket := inn\<rparr>)"
  using assms close_reading
  by (auto simp: waiting_defs WriteHalf_poll_close_inner_def Let_def split: if_splits)

lemma process_halves:
  assumes "Connection_process W A D ts ip repr c q = Done (reply, c', q', ws)"
  shows "reader_ok A c \<Longrightarrow> reader_ok A c'" and "writer_ok A c \<Longrightarrow> writer_ok A c'"
  using assms
  by (auto simp: waiting_defs reads_idle_def same_status_def elim!: Connection_process_cases)

lemma dispatch_halves:
  assumes "Connection_dispatch W A D [] ts caps c q = Done (dr, b, c', q', ws)"
  shows "reader_ok A c \<Longrightarrow> reader_ok A c'" and "writer_ok A c \<Longrightarrow> writer_ok A c'"
proof -
  show "reader_ok A c \<Longrightarrow> reader_ok A c'"
    using assms dispatch_read_waker [OF assms]
    by (cases rule: Connection_dispatch_cases)
      (auto simp: waiting_defs reads_idle_def same_status_def dest: dispatch_can_recv)
  show "writer_ok A c \<Longrightarrow> writer_ok A c'"
    using assms
  proof (cases rule: Connection_dispatch_cases)
    case (1 r t)
    then show ?thesis
      by (cases "sk_may_send A t") (auto simp: waiting_defs same_status_def)
  qed
qed

lemma drop_halves:
  assumes "Connection_drop_half A D side c q = Done (c', q')"
  shows "reader_ok A c \<Longrightarrow> reader_ok A c'" and "writer_ok A c \<Longrightarrow> writer_ok A c'"
  using assms close_reading
  by (auto simp: waiting_defs elim!: Connection_drop_half_cases)

end

sublocale socket_states \<subseteq> reading: connection_invariant W A D "reader_ok A" room_to_read for W D
  by unfold_locales
    (auto simp: reader_ok_def [of _ "snd (TcpStream_new _ _)"] new_waits
      intro: process_halves(1) dispatch_halves(1) drop_halves(1) read_reader write_halves(1) close_halves(1))

sublocale socket_states \<subseteq> writing: connection_invariant W A D "writer_ok A" close_in_turn for W D
  by unfold_locales
    (auto simp: writer_ok_def [of _ "snd (TcpStream_new _ _)"] new_waits
      intro: process_halves(2) dispatch_halves(2) drop_halves(2) read_writer write_halves(2) close_halves(2))

context socket_states
begin

lemmas reach_reader = reading.reach_conns
lemmas reach_writer = writing.reach_conns
lemmas reading_invariant = reading.connection_invariant_axioms
lemmas writing_invariant = writing.connection_invariant_axioms

end

interpretation sample_reading: connection_invariant sample_wire sample_tcp slab_api "reader_ok sample_tcp" room_to_read
  by (rule sample_states.reading_invariant)

interpretation sample_writing: connection_invariant sample_wire sample_tcp slab_api "writer_ok sample_tcp" close_in_turn
  by (rule sample_states.writing_invariant)

section \<open>Runs against the sample libraries\<close>

definition seg_ack :: bytes where
  "seg_ack = [64, 10, 0, 0, 1, 10, 0, 0, 2, 6, 5, 80, 0, 1]"

text \<open>A reader waits for the handshake, then a writer waits with nothing to write.\<close>

definition waiting_run :: "event list" where
  "waiting_run = take 2 race @ [AppRead sample_handle True 7 [0]]"

definition writing_run :: "event list" where
  "writing_run = take 2 race @ [Egress 3, Select 4 None (Some (Inr seg_ack)), Egress 5,
     AppWrite sample_handle True 9 []]"

lemmas half_run_defs = step_read_def ReadHalf_poll_read_inner_def read_nothing_def step_write_def
  WriteHalf_poll_write_inner_def seg_ack_def

lemma sample_reader_waits:
  "\<exists>s0 s c. sys_start slab_api 0 sample_caps = Done s0 \<and> run_events sample_exec waiting_run s0 = Some (Done s)
     \<and> sockets_of s sample_handle = Some c \<and> reader_waits c"
  by (simp add: waiting_run_def race_def run_defs half_run_defs reader_waits_def)

lemma sample_writer_waits:
  "\<exists>s0 s c. sys_start slab_api 0 sample_caps = Done s0 \<and> run_events sample_exec writing_run s0 = Some (Done s)
     \<and> sockets_of s sample_handle = Some c \<and> writer_waits c"
  by (simp add: writing_run_def race_def run_defs half_run_defs writer_waits_def)

section \<open>Properties of waiting\<close>

text \<open>
  (C13) No lost wake-up for readers, in any interleaving of the loop and the clients whose reads have
  room in their buffers: in every reachable state in which a reader's waker is left with a pooled
  connection the socket has no byte to read, and it may still get some or is in the handshake. So
  a packet, a timer, a close or the writer never leave a reader asleep beside bytes or the end.
\<close>

theorem readers_never_sleep_on_data:
  assumes "socket_states A" and "sys_start D t0 caps = Done s0"
    and "reach (exec W A D) (\<lambda>e s. \<forall>h lf wk. e \<noteq> AppRead h lf wk []) s0 s"
    and "sockets_of s h = Some c" and "\<not> reader_dropped (rw c)" and "waker_of (read_readiness (rw c)) \<noteq> None"
  shows "\<not> sk_can_recv A (tcp (socket c))
    \<and> (sk_may_recv A (tcp (socket c)) \<or> sk_state A (tcp (socket c)) = SynReceived)"
proof -
  have "reach (exec W A D) (half_ok room_to_read) s0 s"
    using assms(3) by (rule reach_mono) (auto simp: half_ok_def split: event.splits)
  from socket_states.reach_reader [OF assms(1,2) this assms(4)] assms(5,6) show ?thesis
    by (simp add: reader_ok_def reader_waits_def reads_idle_def)
qed

theorem readers_never_sleep_on_data_witness:
  "\<exists>s0 s c. sys_start slab_api 0 sample_caps = Done s0 \<and> run_events sample_exec waiting_run s0 = Some (Done s)
     \<and> sockets_of s sample_handle = Some c \<and> reader_waits c \<and> \<not> sk_can_recv sample_tcp (tcp (socket c))"
proof -
  obtain s0 s c where s0: "sys_start slab_api 0 sample_caps = Done s0"
    and run: "run_events sample_exec waiting_run s0 = Some (Done s)"
    and c: "sockets_of s sample_handle = Some c" "reader_waits c"
    using sample_reader_waits by blast
  have "reach sample_exec (\<lambda>e s. \<forall>h lf wk. e \<noteq> AppRead h lf wk []) s0 s"
    by (rule run_events_reach_ok [OF _ run]) (auto simp: waiting_run_def race_def)
  from readers_never_sleep_on_data [OF sample_states.socket_states_axioms s0 this c(1)] c(2) s0 run c
  show ?thesis by (auto simp: reader_waits_def)
qed

text \<open>
  (C14) No lost wake-up for writers at the end: as long as no stream is closed while a write on it waits,
  a writer's waker is left with a pooled connection only while its socket may still send. When the
  peer resets the connection, or it times out, the writer is woken.
\<close>

theorem writers_never_sleep_after_end:
  assumes "socket_states A" and "sys_start D t0 caps = Done s0"
    and "reach (exec W A D) (\<lambda>e s. \<forall>h lf c. e = AppClose h lf \<longrightarrow> sockets_of s h = Some c \<longrightarrow>
        waker_of (write_readiness (rw c)) = None) s0 s"
    and "sockets_of s h = Some c" and "\<not> writer_dropped (rw c)" and "waker_of (write_readiness (rw c)) \<noteq> None"
  shows "sk_may_send A (tcp (socket c))"
proof -
  have "reach (exec W A D) (half_ok close_in_turn) s0 s"
    using assms(3) by (rule reach_mono) (auto simp: half_ok_def split: event.splits)
  from socket_states.reach_writer [OF assms(1,2) this assms(4)] assms(5,6) show ?thesis
    by (simp add: writer_ok_def writer_waits_def)
qed

theorem writers_never_sleep_after_end_witness:
  "\<exists>s0 s c. sys_start slab_api 0 sample_caps = Done s0 \<and> run_events sample_exec writing_run s0 = Some (Done s)
     \<and> sockets_of s sample_handle = Some c \<and> writer_waits c \<and> sk_may_send sample_tcp (tcp (socket c))"
proof -
  obtain s0 s c where s0: "sys_start slab_api 0 sample_caps = Done s0"
    and run: "run_events sample_exec writing_run s0 = Some (Done s)"
    and c: "sockets_of s sample_handle = Some c" "writer_waits c"
    using sample_writer_waits by blast
  have "reach sample_exec (\<lambda>e s. \<forall>h lf c. e = AppClose h lf \<longrightarrow> sockets_of s h = Some c \<longrightarrow>
        waker_of (write_readiness (rw c)) = None) s0 s"
    by (rule run_events_reach_ok [OF _ run]) (auto simp: writing_run_def race_def)
  from writers_never_sleep_after_end [OF sample_states.socket_states_axioms s0 this c(1)] c(2) s0 run c
  show ?thesis by (auto simp: writer_waits_def)
qed

text \<open>
  Room in the send buffer is not enough to wake a writer: a packet, which may acknowledge bytes and
  so make room, leaves the writer's waker where it is as long as the socket may send. The writer is woken
  when the connection is dispatched the next time.
\<close>

theorem process_leaves_writer:
  assumes "Connection_process W A D ts ip repr c q = Done (reply, c', q', ws)"
    and "sk_may_send A (tcp (socket c'))"
  shows "write_readiness (rw c') = write_readiness (rw c)"
  using assms by (cases rule: Connection_process_cases) auto

text \<open>
  Calls without bytes wait: a read into an empty buffer waits although there are bytes to read, and a
  write of no bytes waits although there is room.
\<close>

theorem empty_calls_wait:
  assumes "sk_recv_slice A (tcp inn) [] = (Inr 0, [], tcp inn)" and "sk_may_recv A (tcp inn)"
    and "sk_send_slice A (tcp inn) [] = (Inr 0, tcp inn)" and "sk_may_send A (tcp inn)"
  shows "ReadHalf_poll_read_inner A True wk [] rh inn sh = (Pending, [], rh, inn, sh\<lparr>waker_of := Some wk\<rparr>)"
    and "WriteHalf_poll_write_inner A True True wk [] wh inn sh = Done (Pending, inn, sh\<lparr>waker_of := Some wk\<rparr>,
      if polling_active inn then [] else [(wh_handle wh, sk_poll_at A (tcp inn))])"
  using assms
  by (auto simp: ReadHalf_poll_read_inner_def read_nothing_def WriteHalf_poll_write_inner_def
      QueueUpdater_send_def Let_def)

end
