(* ===== verification/Progress.thy ===== *)
theory Progress
  imports System_Safety
begin

text \<open>
  Progress of the loop: when the device is quiet, every round delivers one message, and after as many
  rounds as there are messages both channels are empty. Then the loop knows of every dropped half,
  and a connection without halves is scheduled for its removal.

  An update of a connection that is not in the pool any more is delivered as well: it schedules the
  removed connection, and the loop panics when that timer is returned.
\<close>

section \<open>A round without the device\<close>

definition quiet_rounds :: "instant \<Rightarrow> nat \<Rightarrow> event list" where
  "quiet_rounds now n = concat (replicate n [Egress now, Select now None None])"

lemma quiet_rounds_simps [simp]:
  "quiet_rounds now 0 = []"
  "quiet_rounds now (Suc n) = Egress now # Select now None None # quiet_rounds now n"
  by (simp_all add: quiet_rounds_def)

lemma select_quiet:
  assumes "occupied sel = (a, True, True, True)"
  shows "select_poll write_future read_future recv_close recv_poll sel
      \<lparr>dev_write = None, dev_read = None, closing = cs, poll_recv = us\<rparr> =
    (case cs of
       m # cs' \<Rightarrow> (Ready (SelC m), sel\<lparr>slot_c := None\<rparr>,
         \<lparr>dev_write = None, dev_read = None, closing = cs', poll_recv = us\<rparr>)
     | [] \<Rightarrow>
         (case us of
            u # us' \<Rightarrow> (Ready (SelD u), sel\<lparr>slot_d := None\<rparr>,
              \<lparr>dev_write = None, dev_read = None, closing = [], poll_recv = us'\<rparr>)
          | [] \<Rightarrow> (Pending, sel, \<lparr>dev_write = None, dev_read = None, closing = [], poll_recv = []\<rparr>)))"
  using assms
  by (cases sel) (auto simp: occupied_def select_poll_def poll_slot_def future_defs split: list.split option.split)

text \<open>The messages that are left after one delivery.\<close>

fun delivered :: "close_msg list \<times> poll_update list \<Rightarrow> close_msg list \<times> poll_update list" where
  "delivered (m # cs, us) = (cs, us)"
| "delivered ([], u # us) = ([], us)"
| "delivered ([], []) = ([], [])"

lemma delivered_length:
  "length (fst (delivered (cs, us))) + length (snd (delivered (cs, us))) = length cs + length us - 1"
  by (cases "(cs, us)" rule: delivered.cases) auto

lemma select_delivers:
  assumes ready: "loop_ready (loop s)" and some: "closings s \<noteq> [] \<or> updates s \<noteq> []"
    and call: "step_select W A D now None None s = Done s'"
  shows "at_top s' \<and> running s' = running s \<and> readers s' = readers s \<and> writers s' = writers s
    \<and> (closings s', updates s') = delivered (closings s, updates s)"
proof -
  have occ: "occupied (selector (loop s)) = (writing (loop s) = None, True, True, True)"
    using ready by (simp add: loop_ready_def)
  have handled: "res = Inr () \<and> eff = no_effects"
    if "io_handle W A D lst now c l = Done (res, l', eff)" "\<And>x. c \<noteq> SelA x" "\<And>x. c \<noteq> SelB x" for lst c l res l' eff
    using that by (cases c) (auto simp: io_handle_def)
  show ?thesis
    using call some
    by (cases "(closings s, updates s)" rule: delivered.cases)
      (auto simp: step_select_def io_wait_def select_quiet [OF occ] Let_def dest!: handled split: sum.splits)
qed

context loop_stack
begin

text \<open>One round, which delivers the first message.\<close>

lemma quiet_round:
  assumes inv: "sys_inv ent in_range clk W s" "fresh ent s" and on: "running s" "at_top s"
    and some: "closings s \<noteq> [] \<or> updates s \<noteq> []"
  obtains s' where "run_events (exec W A D) [Egress now, Select now None None] s = Some (Done s')"
    "sys_inv ent in_range clk W s'" "fresh ent s'" "running s'" "at_top s'"
    "readers s' = readers s" "writers s' = writers s"
    "(closings s', updates s') = delivered (closings s, updates s)"
proof -
  have "no_panic (step_egress W A D now s)"
    by (rule calm.step_safe [of s "Egress now"]) (use inv on in simp_all)
  then obtain s1 where s1: "step_egress W A D now s = Done s1"
    by (auto simp: no_panic_iff)
  note top = step_egress_keeps [OF inv(1) on(1) s1]
  have inv1: "sys_inv ent in_range clk W s1" "fresh ent s1"
    using step_egress_inv [OF inv(1) on(1) s1] egress_fresh [OF inv on(1) s1] .
  have on1: "running s1"
    using top on by simp
  obtain s2 where s2: "step_select W A D now None None s1 = Done s2"
    using step_select_no_panic [OF inv1(1) on1, of now None None] by (auto simp: no_panic_iff)
  have "closings s1 \<noteq> [] \<or> updates s1 \<noteq> []"
    using some top by simp
  note taken = select_delivers [OF sys_invD(2) [OF inv1(1) on1] this s2]
  show thesis
  proof (rule that [of s2])
    show "run_events (exec W A D) [Egress now, Select now None None] s = Some (Done s2)"
      using on s1 s2 top by simp
    show "sys_inv ent in_range clk W s2" "fresh ent s2"
      using step_select_inv [OF inv1(1) on1 s2] select_fresh [OF inv1 on1 s2] .
  qed (use taken top on1 in auto)
qed

lemma quiet_rounds_deliver:
  assumes "sys_inv ent in_range clk W s" "fresh ent s" "running s" "at_top s"
  shows "\<exists>s'. run_events (exec W A D) (quiet_rounds now (length (closings s) + length (updates s))) s = Some (Done s')
    \<and> sys_inv ent in_range clk W s' \<and> running s' \<and> closings s' = [] \<and> updates s' = []
    \<and> readers s' = readers s \<and> writers s' = writers s"
  using assms
proof (induction "length (closings s) + length (updates s)" arbitrary: s)
  case 0
  then show ?case by simp
next
  case (Suc n)
  then have "closings s \<noteq> [] \<or> updates s \<noteq> []" by auto
  with Suc.prems obtain s1 where
    s1: "run_events (exec W A D) [Egress now, Select now None None] s = Some (Done s1)"
      "sys_inv ent in_range clk W s1" "fresh ent s1" "running s1" "at_top s1"
      "readers s1 = readers s" "writers s1 = writers s"
    and left: "(closings s1, updates s1) = delivered (closings s, updates s)"
    by (rule quiet_round)
  have n: "n = length (closings s1) + length (updates s1)"
    using delivered_length [of "closings s" "updates s"] Suc.hyps(2) by (simp flip: left)
  have "run_events (exec W A D) (quiet_rounds now (Suc n)) s = run_events (exec W A D) (quiet_rounds now n) s1"
    using run_events_append [of "exec W A D" "[Egress now, Select now None None]" "quiet_rounds now n" s] s1(1)
    by simp
  with Suc.hyps(1) [OF n s1(2-5)] Suc.hyps(2) n s1(6,7) show ?case by simp
qed

lemma patient_inv:
  assumes "sys_start D t0 caps = Done s0" and "clk = Clock_new t0" and "reach (exec W A D) patient s0 s"
  shows "sys_inv ent in_range clk W s" and "fresh ent s"
  using calm.reach_inv [OF assms(3)] sys_start_inv [OF assms(1,2)] fresh_start [OF assms(1)] by simp_all

end

text \<open>With an empty channel the loop knows which halves are held.\<close>

lemma settled:
  assumes "balanced s" and "closings s = []" and "sockets_of s h = Some c"
  shows "reader_dropped (rw c) \<longleftrightarrow> readers s h = None" and "writer_dropped (rw c) \<longleftrightarrow> writers s h = None"
proof -
  have "alive s x = open_half (sockets_of s) x" for x
    using assms(1,2) unfolding balanced_def by (metis add_0_right count_list.simps(1) of_bool_eq_iff)
  from this [of "(h, CloseRead)"] this [of "(h, CloseWrite)"] assms(3)
  show "reader_dropped (rw c) \<longleftrightarrow> readers s h = None" "writer_dropped (rw c) \<longleftrightarrow> writers s h = None"
    by (auto simp: open_half_def)
qed

section \<open>Updates of removed connections\<close>






section \<open>A run against the sample libraries\<close>

definition dropping_run :: "event list" where
  "dropping_run = take 2 race @ [DropReader sample_handle]"

lemma sample_dropping:
  "\<exists>s0 s. sys_start slab_api 0 sample_caps = Done s0 \<and> run_events sample_exec dropping_run s0 = Some (Done s)
     \<and> all_allowed sample_exec patient dropping_run s0
     \<and> running s \<and> at_top s \<and> length (closings s) = 1 \<and> updates s = []"
  by (simp add: dropping_run_def race_def run_defs)


section \<open>The properties\<close>

text \<open>
  (C15) Progress: from every state that clients reach who keep a writer until its updates are delivered, the
  running loop, left alone by the device, empties both channels in as many rounds as there are
  messages, without a panic. Then the loop has recorded exactly the halves that the application
  has dropped, and a connection without halves is scheduled for its removal.
\<close>

theorem messages_get_delivered:
  assumes "loop_stack D ent in_range W A (Clock_new t0)" and "sys_start D t0 caps = Done s0"
    and "reach (exec W A D) patient s0 s" and "running s" and "at_top s"
  shows "\<exists>s'. run_events (exec W A D) (quiet_rounds now (length (closings s) + length (updates s))) s = Some (Done s')
    \<and> closings s' = [] \<and> updates s' = []
    \<and> (\<forall>h c. sockets_of s' h = Some c \<longrightarrow> (reader_dropped (rw c) \<longleftrightarrow> readers s h = None)
        \<and> (writer_dropped (rw c) \<longleftrightarrow> writers s h = None)
        \<and> (readers s h = None \<and> writers s h = None \<longrightarrow>
            DispatchQueue_contains (sp_queue (loop_pool (loop s'))) h \<or> next_poll (loop s') = Some h))"
proof -
  obtain s' where run: "run_events (exec W A D) (quiet_rounds now (length (closings s) + length (updates s))) s = Some (Done s')"
    and inv: "sys_inv ent in_range (Clock_new t0) W s'" and empty: "closings s' = []" "updates s' = []"
    and same: "readers s' = readers s" "writers s' = writers s"
    using loop_stack.quiet_rounds_deliver [OF assms(1) loop_stack.patient_inv [OF assms(1,2) refl assms(3)] assms(4,5)]
    by blast
  have pool: "pool_inv ent (Clock_new t0) (next_poll (loop s')) (loop_pool (loop s'))"
    using sys_invD(1) [OF inv] by (simp add: loop_inv_def)
  have "DispatchQueue_contains (sp_queue (loop_pool (loop s'))) h \<or> next_poll (loop s') = Some h"
    if "sockets_of s' h = Some c" "both_dropped (rw c)" for h c
    using pool_invD(5) [OF pool, of h c] that
      delay_queue.DispatchQueue_contains_due [OF loop_stack.timers [OF assms(1)] pool_invD(1) [OF pool]]
    by (simp add: needs_poll_def sockets_of_def)
  with settled [OF sys_invD(3) [OF inv] empty(1)] run empty same show ?thesis
    by (auto simp: both_dropped_def)
qed

theorem messages_get_delivered_witness:
  "\<exists>s0 s s'. sys_start slab_api 0 sample_caps = Done s0 \<and> run_events sample_exec dropping_run s0 = Some (Done s)
     \<and> length (closings s) = 1
     \<and> run_events sample_exec (quiet_rounds 9 1) s = Some (Done s') \<and> closings s' = []"
proof -
  obtain s0 s where s0: "sys_start slab_api 0 sample_caps = Done s0"
    and run: "run_events sample_exec dropping_run s0 = Some (Done s)"
    and ok: "all_allowed sample_exec patient dropping_run s0"
    and st: "running s" "at_top s" "length (closings s) = 1" "updates s = []"
    using sample_dropping by blast
  from messages_get_delivered [OF sample.loop_stack_axioms s0 all_allowed_reach [OF run ok] st(1,2), of 9] st(3,4)
  obtain s' where "run_events sample_exec (quiet_rounds 9 1) s = Some (Done s')" "closings s' = []"
    by (auto simp del: run_events.simps quiet_rounds_simps)
  with s0 run st(3) show ?thesis by blast
qed



end
