(* ===== verification/Former_Loop.thy ===== *)
theory Former_Loop
  imports Handover Reachability
begin

text \<open>
  The former version of the interface loop (\<open>src/ustunet/src/dispatch/mod1.rs\<close>), a file that the
  crate's module tree no longer names. Its futures own what they use and hand it back when they
  are done, so the loop moves three things around: the writer, the reader, and the receiver of the
  handles to be polled. The asserts and unwraps of the loop are about this ownership.

  The pool and the poll queue it was written for are not in the repository: the pool is the
  parameter \<open>former_pool\<close>, and the receiver is a token whose answers the environment gives.
  A future is \<open>None\<close> when it is terminated, and otherwise what it owns.
\<close>

section \<open>State\<close>

record 'p former_pool =
  fp_process :: "'p \<Rightarrow> ip_repr \<Rightarrow> tcp_repr \<Rightarrow> smol_instant \<Rightarrow> ((smol_error, reply) result \<times> 'p) outcome"
  fp_dispatch :: "'p \<Rightarrow> bytes \<Rightarrow> smol_instant \<Rightarrow> addr_pair \<Rightarrow> device_capabilities \<Rightarrow>
     ((smol_error, unit) result \<times> bytes \<times> 'p) outcome"

datatype receiver = Receiver

record 'p former_interface =
  fi_sockets :: 'p
  fi_capabilities :: device_capabilities
  fi_clock :: clock
  fi_poll_recv :: "receiver option"

record former_writer =
  fw_buf :: bytes

record 'p former_loop =
  fl_interface :: "'p former_interface"
  fl_ingress_replies :: "ip_packet list"
  fl_next_poll :: "addr_pair option"
  fl_read :: "bytes option"
  fl_write_fut :: "former_writer option"
  fl_next_poll_future :: "receiver option"
  fl_writer :: "former_writer option"
  fl_timestamp :: smol_instant

text \<open>The result of the \<open>select!\<close>: what the future that was ready returned.\<close>

datatype select_value =
    SvRead "(io_error, nat) result \<times> bytes"
  | SvWritten "(io_error, nat) result \<times> former_writer"
  | SvNextPoll addr_pair

section \<open>Parts\<close>

definition Former_new :: "'p \<Rightarrow> instant \<Rightarrow> device_capabilities \<Rightarrow> 'p former_interface" where
  "Former_new pool now caps =
     \<lparr>fi_sockets = pool, fi_capabilities = caps, fi_clock = Clock_new now, fi_poll_recv = Some Receiver\<rparr>"

definition Writer_new :: former_writer where
  "Writer_new = \<lparr>fw_buf = []\<rparr>"

text \<open>Writing: the device's answer, and the writer with its buffer cleared.\<close>

definition Writer_write :: "(io_error, nat) result \<Rightarrow> former_writer \<Rightarrow> (io_error, nat) result \<times> former_writer" where
  "Writer_write n w = (n, w\<lparr>fw_buf := []\<rparr>)"

text \<open>Reading: the device fills the front of the buffer.\<close>

definition Former_read :: "(io_error, bytes) result \<Rightarrow> bytes \<Rightarrow> (io_error, nat) result \<times> bytes" where
  "Former_read answer buf =
     (case answer of
        Inl e \<Rightarrow> (Inl e, buf)
      | Inr data \<Rightarrow>
          let n = min (length data) (length buf)
          in (Inr n, take n data @ drop n buf))"

definition Former_packet_to_bytes ::
    "wire_api \<Rightarrow> ip_packet \<Rightarrow> bytes \<Rightarrow> checksum_caps \<Rightarrow>
     ((smol_error, unit) result \<times> bytes) outcome" where
  "Former_packet_to_bytes W packet buffer caps =
     (if length buffer \<noteq> 0 then Panicked BufferNotEmpty
      else case packet of
        PacketTcp (ip, t) \<Rightarrow>
          (case ip_lower W ip of
             Inl e \<Rightarrow> Done (Inl e, buffer)
           | Inr ip' \<Rightarrow>
               let b = ip_emit W ip' (replicate (ip_total_len W ip') 0) caps;
                   n = ip_buffer_len W ip'
               in if length b < n then Panicked SliceOutOfRange
                  else Done (Inr (),
                    take n b @ tcp_emit W t (drop n b) (ip_src_addr ip') (ip_dst_addr ip') caps))
      | PacketOther x \<Rightarrow> Done (Inr (), buffer))"

section \<open>The packet path\<close>

definition Former_process_tcp ::
    "wire_api \<Rightarrow> 'p former_pool \<Rightarrow> smol_instant \<Rightarrow> ip_repr \<Rightarrow> bytes \<Rightarrow> 'p former_interface \<Rightarrow>
     ((smol_error, reply) result \<times> 'p former_interface) outcome" where
  "Former_process_tcp W P ts ip payload i =
     (case tcp_new_checked W payload of
        Inl e \<Rightarrow> Done (Inl e, i)
      | Inr tcp_packet \<Rightarrow>
          (case tcp_parse W tcp_packet (ip_src_addr ip) (ip_dst_addr ip) (checksum (fi_capabilities i)) of
             Inl e \<Rightarrow> Done (Inl e, i)
           | Inr repr \<Rightarrow>
               and_then (fp_process P (fi_sockets i) ip repr ts)
                 (\<lambda>(r, p). Done (r, i\<lparr>fi_sockets := p\<rparr>))))"

definition Former_process_ipv4 ::
    "wire_api \<Rightarrow> 'p former_pool \<Rightarrow> smol_instant \<Rightarrow> bytes \<Rightarrow> 'p former_interface \<Rightarrow>
     ((smol_error, reply) result \<times> 'p former_interface) outcome" where
  "Former_process_ipv4 W P ts payload i =
     (case v4_new_checked W payload of
        Inl e \<Rightarrow> Done (Inl e, i)
      | Inr ipv4_packet \<Rightarrow>
          (case v4_parse W ipv4_packet (checksum (fi_capabilities i)) of
             Inl e \<Rightarrow> Done (Inl e, i)
           | Inr repr \<Rightarrow>
               if \<not> v4_is_unicast W (v4_src_addr repr) then Done (Inl Malformed, i)
               else (case v4_protocol repr of
                       ProtoTcp \<Rightarrow>
                         Former_process_tcp W P ts (IpReprV4 repr) (v4_payload W ipv4_packet) i
                     | ProtoOther x \<Rightarrow> Done (Inr None, i))))"

definition Former_process ::
    "wire_api \<Rightarrow> 'p former_pool \<Rightarrow> smol_instant \<Rightarrow> bytes \<Rightarrow> 'p former_interface \<Rightarrow>
     ((smol_error, reply) result \<times> 'p former_interface) outcome" where
  "Former_process W P ts packet i = Former_process_ipv4 W P ts packet i"

section \<open>The loop\<close>

definition Former_start :: "instant \<Rightarrow> 'p former_interface \<Rightarrow> 'p former_loop" where
  "Former_start now i =
     \<lparr>fl_interface = i, fl_ingress_replies = [], fl_next_poll = None,
      fl_read = Some (replicate 2048 0), fl_write_fut = None, fl_next_poll_future = None,
      fl_writer = Some Writer_new, fl_timestamp = timestamp (fi_clock i) now\<rparr>"

fun Former_drain ::
    "wire_api \<Rightarrow> checksum_caps \<Rightarrow> ip_packet list \<Rightarrow> bytes \<Rightarrow> (ip_packet list \<times> bytes) outcome" where
  "Former_drain W caps [] buf = Done ([], buf)"
| "Former_drain W caps (r # rs) buf =
     and_then (Former_packet_to_bytes W r buf caps) (\<lambda>(res, buf').
       case res of
         Inl e \<Rightarrow> Panicked ReplyNotSerialised
       | Inr _ \<Rightarrow> if buf' \<noteq> [] then Done (rs, buf') else Former_drain W caps rs buf')"

text \<open>Starting to receive the next handle, unless one is at hand.\<close>

definition Former_receive :: "'p former_loop \<Rightarrow> 'p former_loop outcome" where
  "Former_receive l =
     (if fl_next_poll l = None then
        (case fi_poll_recv (fl_interface l) of
           Some r \<Rightarrow>
             if fl_next_poll_future l \<noteq> None then Panicked ReceivingInProgress
             else Done (l\<lparr>fl_interface := (fl_interface l)\<lparr>fi_poll_recv := None\<rparr>,
                          fl_next_poll_future := Some r\<rparr>)
         | None \<Rightarrow> Done l)
      else Done l)"

text \<open>Filling the writer's buffer, when it is not writing.\<close>

definition Former_fill ::
    "wire_api \<Rightarrow> 'p former_pool \<Rightarrow> 'p former_loop \<Rightarrow> 'p former_loop outcome" where
  "Former_fill W P l =
     (if fl_write_fut l \<noteq> None then Done l
      else and_then (expect WriterMissing (fl_writer l)) (\<lambda>w.
        let caps = fi_capabilities (fl_interface l)
        in and_then (if fw_buf w = [] then Former_drain W (checksum caps) (fl_ingress_replies l) (fw_buf w)
                     else Done (fl_ingress_replies l, fw_buf w)) (\<lambda>(rs, b1).
           and_then (case (if b1 = [] then fl_next_poll l else None) of
                       Some addr \<Rightarrow>
                         and_then (fp_dispatch P (fi_sockets (fl_interface l)) b1 (fl_timestamp l) addr caps)
                           (\<lambda>(r, b2, p). Done (b2, (fl_interface l)\<lparr>fi_sockets := p\<rparr>, None))
                     | None \<Rightarrow> Done (b1, fl_interface l, fl_next_poll l)) (\<lambda>(b2, i, np).
           let l1 = l\<lparr>fl_interface := i, fl_ingress_replies := rs, fl_next_poll := np\<rparr>;
               w1 = w\<lparr>fw_buf := b2\<rparr>
           in if b2 = [] then Done (l1\<lparr>fl_writer := Some w1\<rparr>)
              else Done (l1\<lparr>fl_writer := None, fl_write_fut := Some w1\<rparr>)))))"

definition Former_top ::
    "wire_api \<Rightarrow> 'p former_pool \<Rightarrow> 'p former_loop \<Rightarrow> 'p former_loop outcome" where
  "Former_top W P l = and_then (Former_receive l) (Former_fill W P)"

text \<open>
  The \<open>select!\<close>. It takes a future that is ready, in an order it draws at random, so the choice is
  an event: the device's answer to the read or to the write, or the channel's answer, where
  \<open>None\<close> is a channel without senders. It panics when every future is terminated.
\<close>

datatype former_choice =
    ReadReady "(io_error, bytes) result"
  | WriteReady "(io_error, nat) result"
  | HandleReady "addr_pair option"

fun Former_select :: "former_choice \<Rightarrow> 'p former_loop \<Rightarrow> (select_value \<times> 'p former_loop) outcome option" where
  "Former_select (ReadReady answer) l =
     (case fl_read l of
        None \<Rightarrow> None
      | Some buf \<Rightarrow> Some (Done (SvRead (Former_read answer buf), l\<lparr>fl_read := None\<rparr>)))"
| "Former_select (WriteReady n) l =
     (case fl_write_fut l of
        None \<Rightarrow> None
      | Some w \<Rightarrow> Some (Done (SvWritten (Writer_write n w), l\<lparr>fl_write_fut := None\<rparr>)))"
| "Former_select (HandleReady h) l =
     (case fl_next_poll_future l of
        None \<Rightarrow> None
      | Some r \<Rightarrow> Some (and_then (expect NoMoreSockets h) (\<lambda>a.
          Done (SvNextPoll a, l\<lparr>fl_next_poll_future := None\<rparr>))))"

definition all_terminated :: "'p former_loop \<Rightarrow> bool" where
  "all_terminated l \<longleftrightarrow> fl_read l = None \<and> fl_write_fut l = None \<and> fl_next_poll_future l = None"

definition Former_handle ::
    "wire_api \<Rightarrow> 'p former_pool \<Rightarrow> instant \<Rightarrow> select_value \<Rightarrow> 'p former_loop \<Rightarrow>
     ((io_error, unit) result \<times> 'p former_loop) outcome" where
  "Former_handle W P now v l0 =
     (let l = l0\<lparr>fl_timestamp := timestamp (fi_clock (fl_interface l0)) now\<rparr>
      in case v of
        SvRead (n, buf) \<Rightarrow>
          (case n of
             Inl e \<Rightarrow> Done (Inl e, l)
           | Inr m \<Rightarrow>
               if length buf < m then Panicked SliceOutOfRange
               else and_then (Former_process W P (fl_timestamp l) (take m buf) (fl_interface l))
                 (\<lambda>(r, i).
                   let l1 = l\<lparr>fl_interface := i\<rparr>;
                       l2 = (case r of
                               Inr (Some repr) \<Rightarrow>
                                 l1\<lparr>fl_ingress_replies := PacketTcp repr # fl_ingress_replies l1\<rparr>
                             | _ \<Rightarrow> l1)
                   in Done (Inr (), l2\<lparr>fl_read := Some buf\<rparr>)))
      | SvWritten (n, w) \<Rightarrow>
          (case n of
             Inl e \<Rightarrow> Done (Inl e, l)
           | Inr _ \<Rightarrow> Done (Inr (), l\<lparr>fl_writer := Some w\<rparr>))
      | SvNextPoll s \<Rightarrow>
          if fi_poll_recv (fl_interface l) \<noteq> None then Panicked ReceiverNotTaken
          else if fl_next_poll l \<noteq> None then Panicked NextPollSet
          else Done (Inr (), l\<lparr>fl_interface := (fl_interface l)\<lparr>fi_poll_recv := Some Receiver\<rparr>,
                              fl_next_poll := Some s\<rparr>))"

text \<open>One round: the top, the choice, and its handling. A result ends the loop.\<close>

definition Former_round ::
    "wire_api \<Rightarrow> 'p former_pool \<Rightarrow> instant \<Rightarrow> former_choice \<Rightarrow> 'p former_loop \<Rightarrow>
     ((io_error, unit) result \<times> 'p former_loop) outcome option" where
  "Former_round W P now c l =
     (case Former_top W P l of
        Panicked p \<Rightarrow> Some (Panicked p)
      | Done l1 \<Rightarrow>
          if all_terminated l1 then Some (Panicked AllTerminated)
          else (case Former_select c l1 of
                  None \<Rightarrow> None
                | Some m \<Rightarrow> Some (and_then m (\<lambda>(v, l2). Former_handle W P now v l2))))"

text \<open>The loop as a step function: an error of the device ends it.\<close>

definition Former_exec ::
    "wire_api \<Rightarrow> 'p former_pool \<Rightarrow> (instant \<times> former_choice, bool \<times> 'p former_loop) stepper" where
  "Former_exec W P e s =
     (case (e, s) of
        ((now, c), (on, l)) \<Rightarrow>
          if \<not> on then None
          else (case Former_round W P now c l of
                  None \<Rightarrow> None
                | Some m \<Rightarrow> Some (and_then m (\<lambda>(r, l'). Done (r = Inr (), l')))))"

section \<open>Ownership\<close>

text \<open>
  Between two rounds the reader is in its future, the writer is in exactly one of its two places and
  has an empty buffer when it is at hand, the receiver is in exactly one of its two places, and no
  handle is at hand while the next one is awaited.
\<close>

definition former_owns :: "'p former_loop \<Rightarrow> bool" where
  "former_owns l \<longleftrightarrow> fl_read l \<noteq> None
     \<and> (fl_writer l = None) \<noteq> (fl_write_fut l = None)
     \<and> (\<forall>w. fl_writer l = Some w \<longrightarrow> fw_buf w = [])
     \<and> (fi_poll_recv (fl_interface l) = None) \<noteq> (fl_next_poll_future l = None)
     \<and> (fl_next_poll_future l \<noteq> None \<longrightarrow> fl_next_poll l = None)"

lemma former_packet_to_bytes_eq: "Former_packet_to_bytes = packet_to_bytes"
  by (intro ext) (simp add: Former_packet_to_bytes_def packet_to_bytes_def)

lemma former_drain_eq: "Former_drain W caps rs buf = drain_replies W caps rs buf"
  by (induction rs arbitrary: buf)
    (auto simp: former_packet_to_bytes_eq cong: sum.case_cong intro!: arg_cong2 [where f = and_then])

lemma former_process_cases:
  assumes "Former_process W P ts packet i = m"
  obtains (stopped) r where "m = Done (r, i)"
  | (pooled) ip repr where "m = and_then (fp_process P (fi_sockets i) ip repr ts)
      (\<lambda>(r, p). Done (r, i\<lparr>fi_sockets := p\<rparr>))"
  using assms
  by (auto simp: Former_process_def Former_process_ipv4_def Former_process_tcp_def
      split: sum.splits if_splits ip_protocol.splits)

lemma former_process_keeps:
  assumes "Former_process W P ts packet i = Done (r, i')"
  shows "fi_poll_recv i' = fi_poll_recv i"
  using assms
proof (cases rule: former_process_cases)
  case (pooled ip repr)
  from pooled [symmetric] show ?thesis by auto
qed simp

lemma former_receive_owns:
  assumes "former_owns l"
  obtains l1 where "Former_receive l = Done l1" "former_owns l1" "fl_write_fut l1 = fl_write_fut l"
    "fl_writer l1 = fl_writer l" "fl_next_poll l1 = fl_next_poll l"
proof (cases "fl_next_poll l = None \<and> fi_poll_recv (fl_interface l) \<noteq> None")
  case True
  then obtain r where r: "fi_poll_recv (fl_interface l) = Some r" by blast
  with True assms have "fl_next_poll_future l = None"
    by (auto simp: former_owns_def)
  with True r assms show thesis
    by (intro that [of "l\<lparr>fl_interface := (fl_interface l)\<lparr>fi_poll_recv := None\<rparr>, fl_next_poll_future := Some r\<rparr>"])
      (auto simp: Former_receive_def former_owns_def)
next
  case False
  then have "Former_receive l = Done l"
    by (auto simp: Former_receive_def split: option.split)
  with assms show thesis
    by (intro that [of l]) simp_all
qed

context packet_emitters
begin

lemma drain_panic:
  assumes "drain_replies W caps rs [] = Panicked p"
  shows "p = ReplyNotSerialised"
  using assms
proof (induction rs)
  case (Cons r rs)
  obtain res b where "packet_to_bytes W r [] caps = Done (res, b)"
    using packet_to_bytes_no_panic [of r caps] by (auto simp: no_panic_iff)
  with Cons show ?case
    by (auto split: sum.splits if_splits)
qed simp

lemma former_fill_cases:
  assumes owns: "former_owns l"
  obtains (failed) p where "Former_fill W P l = Panicked p"
      "p = ReplyNotSerialised \<or> (\<exists>s b ts h c. fp_dispatch P s b ts h c = Panicked p)"
  | (filled) l1 where "Former_fill W P l = Done l1" "former_owns l1"
proof (cases "fl_write_fut l")
  case (Some w)
  with owns filled show thesis
    by (simp add: Former_fill_def)
next
  case None
  with owns obtain w where w: "fl_writer l = Some w" "fw_buf w = []"
    by (auto simp: former_owns_def)
  let ?caps = "fi_capabilities (fl_interface l)"
  note fill = Former_fill_def [of W P l] None w former_drain_eq Let_def
  show thesis
  proof (cases "drain_replies W (checksum ?caps) (fl_ingress_replies l) []")
    case (Panicked p)
    with drain_panic [OF this] show thesis
      by (intro failed [of p]) (simp_all add: fill)
  next
    case (Done x)
    obtain rs b1 where x: "x = (rs, b1)" by (cases x)
    note fill = fill Done x
    show thesis
    proof (cases "if b1 = [] then fl_next_poll l else None")
      case None
      then have "\<exists>l1. Former_fill W P l = Done l1 \<and> former_owns l1"
        using owns w by (cases "b1 = []") (auto simp: fill former_owns_def)
      with filled show thesis by blast
    next
      case (Some h)
      show thesis
      proof (cases "fp_dispatch P (fi_sockets (fl_interface l)) b1 (fl_timestamp l) h ?caps")
        case (Panicked p)
        then show thesis
          by (intro failed [of p]) (auto simp: fill Some)
      next
        case (Done y)
        then have "\<exists>l1. Former_fill W P l = Done l1 \<and> former_owns l1"
          using owns w Some by (cases y) (auto simp: fill former_owns_def split: if_splits)
        with filled show thesis by blast
      qed
    qed
  qed
qed

end

lemma former_handle_panic:
  assumes "Former_handle W P now v l2 = Panicked p" and "Former_select c l1 = Some (Done (v, l2))"
    and "former_owns l1"
  shows "p \<in> {ReplyNotSerialised, NoMoreSockets} \<or> (\<exists>s ip t ts. fp_process P s ip t ts = Panicked p)"
proof (cases c)
  case (ReadReady x)
  then obtain buf where buf: "v = SvRead (Former_read x buf)"
    using assms(2) by (auto split: option.splits)
  obtain n b where rd: "Former_read x buf = (n, b)" by (cases "Former_read x buf")
  have "m \<le> length b" if "n = Inr m" for m
    using that rd by (auto simp: Former_read_def Let_def split: sum.splits)
  with assms(1) buf rd obtain ts q i where "Former_process W P ts q i = Panicked p"
    by (auto simp: Former_handle_def Let_def and_then_Panicked_iff split: sum.splits if_splits)
  then show ?thesis
    by (rule former_process_cases) (auto simp: and_then_Panicked_iff dest: sym)
qed (use assms in \<open>auto simp: former_owns_def Former_handle_def Writer_write_def Let_def
  split: option.splits sum.splits if_splits\<close>)

lemma former_handle_owns:
  assumes "former_owns l" and "Former_select c l = Some (Done (v, l1))"
    and "Former_handle W P now v l1 = Done (Inr (), l2)"
  shows "former_owns l2"
proof (cases c)
  case (ReadReady x)
  then obtain buf where buf: "fl_read l = Some buf" "v = SvRead (Former_read x buf)" "l1 = l\<lparr>fl_read := None\<rparr>"
    using assms(2) by (auto split: option.splits)
  obtain n b where rd: "Former_read x buf = (n, b)" by (cases "Former_read x buf")
  obtain m r i where "Former_process W P m (take (projr n) b) (fl_interface l) = Done (r, i)"
    and l2: "fl_read l2 = Some b" "fl_interface l2 = i" "fl_writer l2 = fl_writer l"
      "fl_write_fut l2 = fl_write_fut l" "fl_next_poll l2 = fl_next_poll l"
      "fl_next_poll_future l2 = fl_next_poll_future l"
    using assms(3) buf rd
    by (auto simp: Former_handle_def Let_def split: sum.splits if_splits option.splits)
  then have "fi_poll_recv i = fi_poll_recv (fl_interface l)"
    by (intro former_process_keeps)
  with assms(1) l2 show ?thesis
    by (simp add: former_owns_def)
qed (use assms in \<open>auto simp: former_owns_def Former_handle_def Writer_write_def Let_def
  split: option.splits sum.splits if_splits\<close>)

context packet_emitters
begin

lemma former_round_cases:
  assumes owns: "former_owns l" and round: "Former_round W P now c l = Some m"
  shows "(\<forall>p. m = Panicked p \<longrightarrow> p \<in> {ReplyNotSerialised, NoMoreSockets}
      \<or> (\<exists>s b ts h c. fp_dispatch P s b ts h c = Panicked p)
      \<or> (\<exists>s ip t ts. fp_process P s ip t ts = Panicked p))
    \<and> (\<forall>l'. m = Done (Inr (), l') \<longrightarrow> former_owns l')"
proof -
  obtain l0 where l0: "Former_receive l = Done l0" "former_owns l0"
    using owns by (rule former_receive_owns)
  from l0(2) show ?thesis
  proof (cases rule: former_fill_cases [of _ P])
    case (failed p)
    with round l0 show ?thesis
      by (auto simp: Former_round_def Former_top_def)
  next
    case (filled l1)
    then have "\<not> all_terminated l1"
      by (simp add: former_owns_def all_terminated_def)
    with filled l0 round obtain n where n: "Former_select c l1 = Some n"
      and m: "m = and_then n (\<lambda>(v, l2). Former_handle W P now v l2)"
      by (auto simp: Former_round_def Former_top_def split: option.splits)
    show ?thesis
    proof (cases n)
      case (Panicked p)
      with n m show ?thesis
        by (cases c) (auto simp: and_then_Panicked_iff split: option.splits)
    next
      case (Done x)
      obtain v l2 where x: "x = (v, l2)" by (cases x)
      note sel = n [unfolded Done x]
      have "p \<in> {ReplyNotSerialised, NoMoreSockets} \<or> (\<exists>s ip t ts. fp_process P s ip t ts = Panicked p)"
        if "Former_handle W P now v l2 = Panicked p" for p
        using that sel filled(2) by (rule former_handle_panic)
      with former_handle_owns [OF filled(2) sel] m Done x show ?thesis
        by auto
    qed
  qed
qed

end

section \<open>Agreement with the present packet path\<close>

text \<open>The former path by the headers that the present path passes to its pool.\<close>

lemma former_tcp_headers:
  "case tcp_headers W (checksum (fi_capabilities fi)) ip payload of
     Some (ip', repr) \<Rightarrow> ip' = ip \<and> Former_process_tcp W P ts ip payload fi =
       and_then (fp_process P (fi_sockets fi) ip repr ts) (\<lambda>(r, p). Done (r, fi\<lparr>fi_sockets := p\<rparr>))
   | None \<Rightarrow> if_checksum_caps i = checksum (fi_capabilities fi) \<longrightarrow>
       (\<exists>r. Former_process_tcp W P ts ip payload fi = Done (r, fi)
          \<and> process_tcp W A D lst now ip payload i = Done (r, i, no_effects))"
  by (auto simp: tcp_headers_def Former_process_tcp_def process_tcp_def split: sum.split)

lemma former_ipv4_headers:
  "case ipv4_headers W (checksum (fi_capabilities fi)) packet of
     Some (ip, repr) \<Rightarrow> Former_process_ipv4 W P ts packet fi =
       and_then (fp_process P (fi_sockets fi) ip repr ts) (\<lambda>(r, p). Done (r, fi\<lparr>fi_sockets := p\<rparr>))
   | None \<Rightarrow> if_checksum_caps i = checksum (fi_capabilities fi) \<longrightarrow>
       (\<exists>r. Former_process_ipv4 W P ts packet fi = Done (r, fi)
          \<and> process_ipv4 W A D lst now packet i = Done (r, i, no_effects))"
proof (cases "\<exists>b repr. v4_new_checked W packet = Inr b \<and> v4_parse W b (checksum (fi_capabilities fi)) = Inr repr
    \<and> v4_is_unicast W (v4_src_addr repr) \<and> v4_protocol repr = ProtoTcp")
  case True
  then obtain b repr where b: "v4_new_checked W packet = Inr b" "v4_parse W b (checksum (fi_capabilities fi)) = Inr repr"
      "v4_is_unicast W (v4_src_addr repr)" "v4_protocol repr = ProtoTcp"
    by blast
  with former_tcp_headers [where W = W and fi = fi and P = P and ts = ts and i = i and A = A and D = D and lst = lst and now = now
      and ip = "IpReprV4 repr" and payload = "v4_payload W b"] show ?thesis
    by (auto simp: ipv4_headers_def Former_process_ipv4_def process_ipv4_def split: option.splits)
next
  case False
  then show ?thesis
    by (auto simp: ipv4_headers_def Former_process_ipv4_def process_ipv4_def split: sum.split ip_protocol.split)
qed

text \<open>Ownership as an invariant of all runs.\<close>

sublocale packet_emitters \<subseteq> former: invariant_system "Former_exec W P" "\<lambda>_ _. True"
    "\<lambda>s. fst s \<longrightarrow> former_owns (snd s)" for P :: "'p former_pool"
proof
  fix s s' :: "bool \<times> 'p former_loop" and e
  assume inv: "fst s \<longrightarrow> former_owns (snd s)" and step: "Former_exec W P e s = Some (Done s')"
  obtain now c where e: "e = (now, c)" by (cases e)
  from step e have run: "fst s" and "\<exists>m. Former_round W P now c (snd s) = Some m
      \<and> and_then m (\<lambda>(r, l'). Done (r = Inr (), l')) = Done s'"
    by (auto simp: Former_exec_def split: prod.splits if_splits option.splits)
  then obtain r l' where "Former_round W P now c (snd s) = Some (Done (r, l'))" "s' = (r = Inr (), l')"
    by auto
  with former_round_cases [of "snd s" P now c] inv run show "fst s' \<longrightarrow> former_owns (snd s')"
    by simp
qed

lemma former_start_owns: "former_owns (Former_start t0 (Former_new pool t0 caps))"
  by (simp add: former_owns_def Former_start_def Former_new_def Writer_new_def)

context packet_emitters
begin

lemma former_reach_owns:
  assumes "reach (Former_exec W P) (\<lambda>_ _. True) (True, Former_start t0 (Former_new pool t0 caps)) s" and "fst s"
  shows "former_owns (snd s)"
proof -
  have "former_owns (snd (True, Former_start t0 (Former_new pool t0 caps)))"
    by (simp add: former_start_owns)
  with former.reach_inv [OF assms(1)] assms(2) show ?thesis by blast
qed

end

section \<open>Properties of the former loop\<close>

text \<open>
  (C35) The former loop's bookkeeping is sound: in every reachable state the reader, the writer and
  the receiver are each in one place, so that none of its asserts and unwraps on them can fail. A
  panic comes from a reply that cannot be serialised, from a channel of handles without senders, or
  from the pool.
\<close>

theorem former_loop_panics:
  assumes "packet_emitters W"
    and "reach (Former_exec W P) (\<lambda>_ _. True) (True, Former_start t0 (Former_new pool t0 caps)) s"
    and "Former_exec W P e s = Some (Panicked p)"
  shows "p \<in> {ReplyNotSerialised, NoMoreSockets}
    \<or> (\<exists>s b ts h c. fp_dispatch P s b ts h c = Panicked p)
    \<or> (\<exists>s ip t ts. fp_process P s ip t ts = Panicked p)"
proof -
  obtain now c where e: "e = (now, c)" by (cases e)
  from assms(3) e have "fst s" and "\<exists>m. Former_round W P now c (snd s) = Some m
      \<and> and_then m (\<lambda>(r, l'). Done (r = Inr (), l')) = Panicked p"
    by (auto simp: Former_exec_def split: prod.splits if_splits option.splits)
  moreover from this have "Former_round W P now c (snd s) = Some (Panicked p)"
    by (auto simp: and_then_Panicked_iff)
  moreover have "former_owns (snd s)"
    using packet_emitters.former_reach_owns [OF assms(1,2)] calculation by simp
  ultimately show ?thesis
    using packet_emitters.former_round_cases [OF assms(1)] by blast
qed

text \<open>A pool whose connections never have anything to send.\<close>

abbreviation idle_pool :: "unit former_pool" where
  "idle_pool \<equiv> \<lparr>fp_process = (\<lambda>p ip repr ts. Done (Inr None, p)),
     fp_dispatch = (\<lambda>p buf ts addr caps. Done (Inl Exhausted, buf, p))\<rparr>"

abbreviation former_begin :: "bool \<times> unit former_loop" where
  "former_begin \<equiv> (True, Former_start 0 (Former_new () 0 sample_caps))"

theorem former_loop_panics_witness:
  "Former_exec sample_wire idle_pool (3, HandleReady None) former_begin = Some (Panicked NoMoreSockets)
   \<and> NoMoreSockets \<in> {ReplyNotSerialised, NoMoreSockets}"
proof
  show call: "Former_exec sample_wire idle_pool (3, HandleReady None) former_begin = Some (Panicked NoMoreSockets)"
    by (simp add: Former_exec_def Former_round_def Former_top_def Former_receive_def Former_fill_def
        Former_start_def Former_new_def Writer_new_def all_terminated_def Let_def)
  from former_loop_panics [OF sample_emit.packet_emitters_axioms reach.start this]
  show "NoMoreSockets \<in> {ReplyNotSerialised, NoMoreSockets}" by simp
qed

text \<open>
  (C36) For an IPv4 packet the former packet path is equivalent to the present one, over any two pools and
  with the same checksum settings: both pass the same packets to their pool, with the same headers,
  the former with the time stamp of its round and the present one with the time of the call;
  every other packet gets the same answer from both and changes nothing.
\<close>

theorem former_path_agrees:
  assumes "packet = b # bs" and "b div 16 = 4" and "if_checksum_caps i = checksum (fi_capabilities fi)"
  shows "case packet_headers W (if_checksum_caps i) packet of
      Some (ip, repr) \<Rightarrow>
        Former_process W P ts packet fi =
          and_then (fp_process P (fi_sockets fi) ip repr ts) (\<lambda>(r, p). Done (r, fi\<lparr>fi_sockets := p\<rparr>))
        \<and> Interface_process W A D lst now packet i =
          and_then (SocketPool_process W A D lst now ip repr (if_sockets i))
            (\<lambda>(r, p, eff). Done (r, i\<lparr>if_sockets := p\<rparr>, eff))
    | None \<Rightarrow> \<exists>r. Former_process W P ts packet fi = Done (r, fi)
        \<and> Interface_process W A D lst now packet i = Done (r, i, no_effects)"
proof -
  have hd: "packet_headers W (if_checksum_caps i) packet = ipv4_headers W (checksum (fi_capabilities fi)) packet"
    using assms by (simp add: packet_headers_def)
  have path: "Interface_process W A D lst now packet i = process_ipv4 W A D lst now packet i"
    using assms(1,2) by (simp add: Interface_process_def)
  show ?thesis
    using former_ipv4_headers [where W = W and fi = fi and packet = packet and P = P and ts = ts and i = i and A = A
        and D = D and lst = lst and now = now] process_ipv4_headers [where W = W and i = i and packet = packet and A = A
        and D = D and lst = lst and now = now] assms(3)
    unfolding hd Former_process_def path by (auto split: option.splits)
qed

text \<open>A pool that records what it is given.\<close>

abbreviation recording_pool :: "(ip_repr \<times> tcp_repr \<times> smol_instant) list former_pool" where
  "recording_pool \<equiv> \<lparr>fp_process = (\<lambda>p ip repr ts. Done (Inr None, (ip, repr, ts) # p)),
     fp_dispatch = (\<lambda>p buf ts addr caps. Done (Inl Exhausted, buf, p))\<rparr>"

abbreviation sample_syn :: bytes where
  "sample_syn \<equiv> [64, 10, 0, 0, 1, 10, 0, 0, 2, 6, 5, 80, 2, 0]"

lemma sample_syn_headers:
  "\<exists>ip repr. packet_headers sample_wire [] sample_syn = Some (ip, repr) \<and> control repr = CtlSyn"
  by (simp add: packet_headers_def ipv4_headers_def tcp_headers_def sample_wire_def sample_v4_parse_def
      sample_tcp_parse_def nth_byte_def control_of_def)

theorem former_path_agrees_witness:
  "\<exists>ip repr. packet_headers sample_wire [] sample_syn = Some (ip, repr) \<and> control repr = CtlSyn
     \<and> Former_process sample_wire recording_pool 3 sample_syn
         (Former_new [] 0 \<lparr>max_transmission_unit = 1500, checksum = []\<rparr>) =
       Done (Inr None, Former_new [(ip, repr, 3)] 0 \<lparr>max_transmission_unit = 1500, checksum = []\<rparr>)"
proof -
  obtain ip repr where hd: "packet_headers sample_wire [] sample_syn = Some (ip, repr)" "control repr = CtlSyn"
    using sample_syn_headers by blast
  let ?fi = "Former_new [] 0 sample_caps :: (ip_repr \<times> tcp_repr \<times> smol_instant) list former_interface"
  have caps: "if_checksum_caps sample_if = checksum (fi_capabilities ?fi)"
    by (simp add: Former_new_def)
  have "Former_process sample_wire recording_pool 3 sample_syn ?fi =
      and_then (fp_process recording_pool (fi_sockets ?fi) ip repr 3) (\<lambda>(r, p). Done (r, ?fi\<lparr>fi_sockets := p\<rparr>))"
    using former_path_agrees [OF refl _ caps, where W = sample_wire and P = recording_pool and ts = 3
        and A = sample_tcp and D = slab_api and lst = True and now = 3 and b = 64
        and bs = "tl sample_syn"] hd by simp
  with hd show ?thesis
    by (auto simp: Former_new_def)
qed

text \<open>
  The former loop could stall: when it dispatches a connection that has nothing to send, it waits
  for the device's next packet only. It has not started to receive the next handle, so no timer is
  served before a packet arrives.
\<close>

theorem former_loop_stalls:
  assumes "former_owns l" and "fl_next_poll l = Some h" and "fl_writer l \<noteq> None"
    and "fl_ingress_replies l = []"
    and "fp_dispatch P (fi_sockets (fl_interface l)) [] (fl_timestamp l) h (fi_capabilities (fl_interface l)) =
      Done (r, [], pool)"
  shows "\<exists>l1. Former_top W P l = Done l1 \<and> fl_next_poll l1 = None \<and> fi_poll_recv (fl_interface l1) \<noteq> None
    \<and> (\<forall>c. Former_select c l1 \<noteq> None \<longrightarrow> (\<exists>answer. c = ReadReady answer))"
proof -
  from assms(1-3) obtain w where w: "fl_writer l = Some w" "fw_buf w = []" "fl_write_fut l = None"
    "fl_next_poll_future l = None" "fi_poll_recv (fl_interface l) \<noteq> None"
    by (auto simp: former_owns_def)
  let ?l1 = "l\<lparr>fl_interface := (fl_interface l)\<lparr>fi_sockets := pool\<rparr>, fl_next_poll := None\<rparr>"
  have "Former_top W P l = Done (?l1\<lparr>fl_writer := Some w\<rparr>)"
    using w assms by (simp add: Former_top_def Former_receive_def Former_fill_def Let_def)
  moreover have "\<exists>answer. c = ReadReady answer" if "Former_select c (?l1\<lparr>fl_writer := Some w\<rparr>) \<noteq> None" for c
    using that w by (cases c) auto
  ultimately show ?thesis
    using w(5) by auto
qed

theorem former_loop_stalls_witness:
  "\<exists>l l1. run_events (Former_exec sample_wire idle_pool) [(3, HandleReady (Some sample_handle))]
       (True, Former_start 0 (Former_new () 0 sample_caps)) = Some (Done (True, l))
     \<and> Former_top sample_wire idle_pool l = Done l1 \<and> Former_select (HandleReady None) l1 = None"
proof -
  let ?l = "(Former_start 0 (Former_new () 0 sample_caps))\<lparr>fl_next_poll := Some sample_handle,
    fl_timestamp := timestamp (Clock_new 0) 3\<rparr>"
  have run: "run_events (Former_exec sample_wire idle_pool) [(3, HandleReady (Some sample_handle))]
       (True, Former_start 0 (Former_new () 0 sample_caps)) = Some (Done (True, ?l))"
    by (simp add: Former_exec_def Former_round_def Former_top_def Former_receive_def Former_fill_def
        Former_start_def Former_new_def Writer_new_def Former_handle_def all_terminated_def Let_def)
  have "former_owns ?l"
    by (simp add: former_owns_def Former_start_def Former_new_def Writer_new_def)
  from former_loop_stalls [OF this, of sample_handle idle_pool "Inl Exhausted" "()" sample_wire]
  obtain l1 where "Former_top sample_wire idle_pool ?l = Done l1" "Former_select (HandleReady None) l1 = None"
    by (auto simp del: Former_select.simps simp: Former_start_def Former_new_def Writer_new_def)
  with run show ?thesis by blast
qed

end
