(* ===== verification/Selector_Test.thy ===== *)
theory Selector_Test
  imports Selector Clock
begin

text \<open>
  The test of the selector in \<open>src/ustunet/src/util.rs\<close>: four futures that sleep and return, selected
  four times. When the timer of a sleep counts as fired is \<open>tokio\<close>'s decision and an argument,
  \<open>fired deadline now\<close>; the moments at which the executor polls the test are an argument too.
\<close>

section \<open>Futures that sleep\<close>

text \<open>An asynchronous block does nothing before its first poll, which starts its sleep.\<close>

datatype 'v sleeper = Unpolled nat 'v | Asleep instant 'v

definition from_millis :: "nat \<Rightarrow> nat" where
  "from_millis n = n * 1000000"

fun asleep :: "instant \<Rightarrow> 'v sleeper \<Rightarrow> instant \<times> 'v" where
  "asleep now (Unpolled d v) = (now + d, v)"
| "asleep now (Asleep t v) = (t, v)"

definition poll_sleeper :: "(instant \<Rightarrow> instant \<Rightarrow> bool) \<Rightarrow> ('v sleeper, 'v, instant) poll_fun" where
  "poll_sleeper fired f now =
     (case asleep now f of (t, v) \<Rightarrow> (if fired t now then Ready v else Pending, Asleep t v, now))"

text \<open>The digits of a byte, as \<open>format!\<close> prints them; \<open>u + 1\<close> is checked.\<close>

definition digit :: "nat \<Rightarrow> char" where
  "digit n = char_of (48 + n)"

definition show_byte :: "nat \<Rightarrow> string" where
  "show_byte n =
     (if n < 10 then [digit n]
      else if n < 100 then [digit (n div 10), digit (n mod 10)]
      else [digit (n div 100), digit (n div 10 mod 10), digit (n mod 10)])"

definition fut2 :: "nat \<Rightarrow> string outcome sleeper" where
  "fut2 u = Unpolled (from_millis 1) (if u = 255 then Panicked ClientExpect else Done (CHR ''u'' # show_byte (u + 1)))"

section \<open>The test\<close>

type_synonym test_slots = "(string sleeper, string outcome sleeper, string sleeper, nat sleeper) selector"

text \<open>
  Awaiting the selector: it is polled at the given moments until it is ready. A panic of the
  future in the second slot is a panic of the test. \<open>None\<close>: still waiting after the last moment.
\<close>

fun await_select ::
    "(instant \<Rightarrow> instant \<Rightarrow> bool) \<Rightarrow> instant list \<Rightarrow> test_slots \<Rightarrow>
     ((string, string, string, nat) selected \<times> test_slots \<times> instant list) outcome option" where
  "await_select fired [] s = None"
| "await_select fired (now # ts) s =
     (case select_poll (poll_sleeper fired) (poll_sleeper fired) (poll_sleeper fired) (poll_sleeper fired) s now of
        (Pending, s1, _) \<Rightarrow> await_select fired ts s1
      | (Ready (SelA x), s1, _) \<Rightarrow> Some (Done (SelA x, s1, ts))
      | (Ready (SelB (Done x)), s1, _) \<Rightarrow> Some (Done (SelB x, s1, ts))
      | (Ready (SelB (Panicked p)), s1, _) \<Rightarrow> Some (Panicked p)
      | (Ready (SelC x), s1, _) \<Rightarrow> Some (Done (SelC x, s1, ts))
      | (Ready (SelD x), s1, _) \<Rightarrow> Some (Done (SelD x, s1, ts)))"

fun await_then ::
    "'a outcome option \<Rightarrow> ('a \<Rightarrow> 'b outcome option) \<Rightarrow> 'b outcome option" where
  "await_then None k = None"
| "await_then (Some (Panicked p)) k = Some (Panicked p)"
| "await_then (Some (Done x)) k = k x"

definition test_selector :: "test_slots outcome" where
  "test_selector =
     and_then (insert_a (Unpolled (from_millis 3) ''a'') Selector_new) (\<lambda>s.
     and_then (insert_b (fut2 34) s) (\<lambda>s.
     and_then (insert_c (Unpolled (from_millis 3) ''a'') s) (\<lambda>s.
     insert_d (Unpolled (from_millis 9) 1) s)))"

definition first_match :: "(string, string, string, nat) selected \<Rightarrow> unit outcome" where
  "first_match o1 =
     (case o1 of
        SelA x \<Rightarrow> Panicked ClientExpect
      | SelB n \<Rightarrow> (if n = ''u35'' then Done () else Panicked ClientExpect)
      | SelC x \<Rightarrow> Done ()
      | SelD x \<Rightarrow> Done ())"

definition second_match :: "(string, string, string, nat) selected \<Rightarrow> unit outcome" where
  "second_match o2 =
     (case o2 of
        SelA x \<Rightarrow> (if x = ''a'' then Done () else Panicked ClientExpect)
      | SelB n \<Rightarrow> Panicked ClientExpect
      | _ \<Rightarrow> Done ())"

definition testss :: "(instant \<Rightarrow> instant \<Rightarrow> bool) \<Rightarrow> instant list \<Rightarrow> unit outcome option" where
  "testss fired ts =
     await_then (Some test_selector) (\<lambda>s.
     await_then (await_select fired ts s) (\<lambda>(o1, s, ts).
     await_then (Some (first_match o1)) (\<lambda>_.
     await_then (await_select fired ts s) (\<lambda>(o2, s, ts).
     await_then (Some (second_match o2)) (\<lambda>_.
     await_then (Some (insert_b (fut2 75) s)) (\<lambda>s.
     await_then (await_select fired ts s) (\<lambda>(_, s, ts).
     await_then (await_select fired ts s) (\<lambda>_.
     Some (Done ())))))))))"

section \<open>What decides the test\<close>

definition slept :: "instant \<Rightarrow> test_slots" where
  "slept t0 =
     \<lparr>slot_a = Some (Asleep (t0 + from_millis 3) ''a''),
      slot_b = Some (Asleep (t0 + from_millis 1) (Done ''u35'')),
      slot_c = Some (Asleep (t0 + from_millis 3) ''a''),
      slot_d = Some (Asleep (t0 + from_millis 9) 1)\<rparr>"

text \<open>
  The timers of \<open>tokio\<close>: none fires before its deadline, and at the moment one fires all with an earlier
  deadline have fired, since the driver advances through the deadlines in order.
\<close>

definition timers :: "(instant \<Rightarrow> instant \<Rightarrow> bool) \<Rightarrow> bool" where
  "timers fired \<longleftrightarrow> (\<forall>t now. fired t now \<longrightarrow> t \<le> now \<and> (\<forall>t' \<le> t. fired t' now))"

lemmas test_defs = select_poll_def poll_slot_def poll_sleeper_def slept_def

lemma timersD:
  assumes "timers fired" and "fired t now"
  shows "t \<le> now" and "t' \<le> t \<Longrightarrow> fired t' now"
  using assms by (auto simp: timers_def)

lemma not_fired_later:
  assumes "timers fired" and "\<not> fired (t0 + from_millis d) t" and "d \<le> d'"
  shows "\<not> fired (t0 + from_millis d') t"
  using assms(2,3) timersD(2) [OF assms(1), of "t0 + from_millis d'" t "t0 + from_millis d"]
  by (auto simp: from_millis_def)

lemma not_fired_now:
  assumes "timers fired" and "d > 0"
  shows "\<not> fired (t0 + from_millis d) t0"
  using assms(2) timersD(1) [OF assms(1), of "t0 + from_millis d" t0] by (auto simp: from_millis_def)

lemma test_selector_Done:
  "test_selector = Done
     \<lparr>slot_a = Some (Unpolled (from_millis 3) ''a''), slot_b = Some (fut2 34),
      slot_c = Some (Unpolled (from_millis 3) ''a''), slot_d = Some (Unpolled (from_millis 9) 1)\<rparr>"
  by (simp add: test_selector_def insert_a_def insert_b_def insert_c_def insert_d_def Selector_new_def)

lemma fut2_34: "fut2 34 = Unpolled (from_millis 1) (Done ''u35'')"
  by (simp add: fut2_def show_byte_def digit_def) code_simp

lemma fut2_75: "fut2 75 = Unpolled (from_millis 1) (Done ''u76'')"
  by (simp add: fut2_def show_byte_def digit_def) code_simp

text \<open>The first poll starts all four sleeps; polls before the shortest has fired change nothing.\<close>

lemma await_first:
  assumes "timers fired" and "test_selector = Done s"
  shows "await_select fired (t0 # ts) s = await_select fired ts (slept t0)"
  using assms(2) not_fired_now [OF assms(1), of _ t0] by (auto simp: test_selector_Done fut2_34 test_defs)

lemma await_slept:
  assumes "timers fired" and "\<forall>t \<in> set pre. \<not> fired (t0 + from_millis 1) t"
  shows "await_select fired (pre @ ts) (slept t0) = await_select fired ts (slept t0)"
  using assms(2)
proof (induction pre)
  case (Cons t pre)
  then have "\<not> fired (t0 + from_millis d) t" if "d \<ge> 1" for d
    using not_fired_later [OF assms(1)] that by auto
  with Cons show ?case by (simp add: test_defs)
qed simp

text \<open>The second selection, with its second slot empty, waits for the first slot.\<close>

lemma await_second:
  assumes "timers fired" and "\<forall>t \<in> set pre. \<not> fired (t0 + from_millis 3) t" and "fired (t0 + from_millis 3) t"
  shows "await_select fired (pre @ t # ts) ((slept t0)\<lparr>slot_b := None\<rparr>) =
    Some (Done (SelA ''a'', (slept t0)\<lparr>slot_a := None, slot_b := None\<rparr>, ts))"
  using assms(2)
proof (induction pre)
  case Nil
  with assms(3) show ?case by (simp add: test_defs)
next
  case (Cons t' pre)
  then have "\<not> fired (t0 + from_millis d) t'" if "d \<ge> 3" for d
    using not_fired_later [OF assms(1)] that by auto
  with Cons show ?case by (simp add: test_defs)
qed

lemma await_last:
  assumes "timers fired" and "fired (t0 + from_millis 3) t3" and "fired (t3 + from_millis 1) t4"
  shows "await_then (await_select fired [t3, t4] ((slept t0)\<lparr>slot_a := None, slot_b := Some (fut2 75)\<rparr>))
     (\<lambda>(_, s, ts). await_then (await_select fired ts s) (\<lambda>_. Some (Done ()))) = Some (Done ())"
  using assms(2,3) not_fired_now [OF assms(1), of 1 t3] by (simp add: test_defs fut2_75)

text \<open>The poll at which the second future's millisecond is over.\<close>

lemma await_decides:
  assumes "fired (t0 + from_millis 1) t1"
  shows "await_select fired (t1 # ts) (slept t0) =
    Some (Done (if fired (t0 + from_millis 3) t1 then (SelA ''a'', (slept t0)\<lparr>slot_a := None\<rparr>, ts)
      else (SelB ''u35'', (slept t0)\<lparr>slot_b := None\<rparr>, ts)))"
  using assms by (simp add: test_defs)

lemma await_before:
  assumes "timers fired" and "\<forall>t \<in> set pre. \<not> fired (t0 + from_millis 1) t" and "fired (t0 + from_millis 1) t1"
    and "test_selector = Done s"
  shows "await_select fired (t0 # pre @ t1 # ts) s =
    Some (Done (if fired (t0 + from_millis 3) t1 then (SelA ''a'', (slept t0)\<lparr>slot_a := None\<rparr>, ts)
      else (SelB ''u35'', (slept t0)\<lparr>slot_b := None\<rparr>, ts)))"
  using await_first [OF assms(1,4)] await_slept [OF assms(1,2)] await_decides [of fired t0 t1] assms(3)
  by (simp del: await_select.simps)

section \<open>Properties of the test\<close>

text \<open>
  The test passes or fails with the executor's speed. It fails when the first poll after the
  second future's millisecond comes so late that the first future's three milliseconds are over as well,
  because the selector asks the first slot first. It passes when that poll comes in time and later ones
  follow.
\<close>

theorem testss_depends_on_polls:
  assumes "timers fired" and "\<forall>t \<in> set pre. \<not> fired (t0 + from_millis 1) t" and "fired (t0 + from_millis 1) t1"
  shows "if fired (t0 + from_millis 3) t1
    then testss fired (t0 # pre @ t1 # ts) = Some (Panicked ClientExpect)
    else \<forall>mid t2 t3 t4. ts = mid @ [t2, t3, t4] \<longrightarrow>
      (\<forall>t \<in> set mid. \<not> fired (t0 + from_millis 3) t) \<longrightarrow> fired (t0 + from_millis 3) t2 \<longrightarrow>
      fired (t0 + from_millis 3) t3 \<longrightarrow> fired (t3 + from_millis 1) t4 \<longrightarrow>
      testss fired (t0 # pre @ t1 # ts) = Some (Done ())"
proof -
  obtain s where s: "test_selector = Done s"
    using test_selector_Done by blast
  note first = await_before [OF assms s, of ts]
  have late: "testss fired (t0 # pre @ t1 # ts) = Some (Panicked ClientExpect)" if "fired (t0 + from_millis 3) t1"
    using that unfolding testss_def s await_then.simps first by (simp add: first_match_def)
  have "testss fired (t0 # pre @ t1 # ts) = Some (Done ())"
    if "\<not> fired (t0 + from_millis 3) t1" and ts: "ts = mid @ [t2, t3, t4]"
      and fired: "\<forall>t \<in> set mid. \<not> fired (t0 + from_millis 3) t" "fired (t0 + from_millis 3) t2"
      "fired (t0 + from_millis 3) t3" "fired (t3 + from_millis 1) t4" for mid t2 t3 t4
  proof -
    have "insert_b (fut2 75) ((slept t0)\<lparr>slot_a := None, slot_b := None\<rparr>) =
        Done ((slept t0)\<lparr>slot_a := None, slot_b := Some (fut2 75)\<rparr>)"
      by (simp add: insert_b_def slept_def)
    then show ?thesis
      using that(1) await_second [OF assms(1) fired(1,2), of "[t3, t4]"] await_last [OF assms(1) fired(3,4)]
      unfolding testss_def s await_then.simps first
      by (simp add: ts first_match_def second_match_def del: await_select.simps)
  qed
  with late show ?thesis by simp
qed

theorem testss_depends_on_polls_witness:
  "testss (\<le>) [0, 1000000, 3000000, 3000001, 4000001] = Some (Done ())
   \<and> testss (\<le>) [0, 3000000, 3000000, 3000001, 4000001] = Some (Panicked ClientExpect)"
proof -
  have timers: "timers (\<le>)" by (auto simp: timers_def)
  show ?thesis
    using testss_depends_on_polls [OF timers, of "[]" 0 1000000 "[3000000, 3000001, 4000001]"]
      testss_depends_on_polls [OF timers, of "[]" 0 3000000 "[3000000, 3000001, 4000001]"]
    by (simp add: from_millis_def del: append_assoc)
qed

end
