(* ===== verification/Sending_Buffer.thy ===== *)
theory Sending_Buffer
  imports Prelude
begin

text \<open>
  The packet buffer of \<open>src/ustunet/src/dispatch/sendbuf.rs\<close>: a queue of filled packets and a
  stack of spare buffers, which move between the two so that no memory is allocated per packet.

  The component promises a first-in first-out queue of packets; the locale \<open>packet_fifo\<close>
  states that contract, its clients' lemmas are proved once, and the buffer is shown to provide it.
\<close>

section \<open>The buffer\<close>

record sending_buffer =
  packets :: "bytes list"
  bufs :: "bytes list"

definition NUM_BUFFS :: nat where
  "NUM_BUFFS = 4"

definition SendingBuffer_new :: sending_buffer where
  "SendingBuffer_new = \<lparr>packets = [], bufs = replicate NUM_BUFFS []\<rparr>"

definition pop_packet :: "sending_buffer \<Rightarrow> bytes option \<times> sending_buffer" where
  "pop_packet s =
     (case packets s of
        [] \<Rightarrow> (None, s)
      | p # ps \<Rightarrow> (Some p, s\<lparr>packets := ps\<rparr>))"

definition first :: "sending_buffer \<Rightarrow> bytes option" where
  "first s = (case packets s of [] \<Rightarrow> None | p # ps \<Rightarrow> Some p)"

definition pop_front :: "sending_buffer \<Rightarrow> sending_buffer outcome" where
  "pop_front s =
     (case packets s of
        [] \<Rightarrow> Panicked EmptyVec
      | f # ps \<Rightarrow> Done (s\<lparr>packets := ps, bufs := bufs s @ [f]\<rparr>))"

definition get_buf :: "sending_buffer \<Rightarrow> bytes option \<times> sending_buffer" where
  "get_buf s =
     (if bufs s = [] then (None, s)
      else (Some [], s\<lparr>bufs := butlast (bufs s)\<rparr>))"

text \<open>
  \<open>get_mut\<close> lends the last spare buffer, emptied, to the caller, who writes into it; the
  argument \<open>f\<close> is what the caller does with the borrowed vector.
\<close>

definition get_mut :: "(bytes \<Rightarrow> bytes) \<Rightarrow> sending_buffer \<Rightarrow> bool \<times> sending_buffer" where
  "get_mut f s =
     (if bufs s = [] then (False, s)
      else (True, s\<lparr>bufs := butlast (bufs s) @ [f []]\<rparr>))"

definition queue_buf :: "bytes \<Rightarrow> sending_buffer \<Rightarrow> sending_buffer" where
  "queue_buf b s =
     (if b = [] then s\<lparr>bufs := bufs s @ [b]\<rparr>
      else s\<lparr>packets := packets s @ [b]\<rparr>)"

text \<open>\<open>self.bufs.len() - 1\<close> underflows on an empty vector, and the removal is out of range.\<close>

definition queue_written :: "sending_buffer \<Rightarrow> sending_buffer outcome" where
  "queue_written s =
     (if bufs s = [] then Panicked IndexOutOfRange
      else let b = last (bufs s); s1 = s\<lparr>bufs := butlast (bufs s)\<rparr>
           in Done (if b = [] then s1\<lparr>bufs := bufs s1 @ [b]\<rparr>
                    else s1\<lparr>packets := packets s1 @ [b]\<rparr>))"

section \<open>The contract: a queue of packets\<close>

text \<open>
  \<open>drain\<close> is the client: it looks at the first packet, writes it to the device and removes
  it, as often as the fuel says.
\<close>

fun drain :: "('q \<Rightarrow> 'a option) \<Rightarrow> ('q \<Rightarrow> 'q outcome) \<Rightarrow> nat \<Rightarrow> 'q \<Rightarrow> ('a list \<times> 'q) outcome" where
  "drain front remove 0 q = Done ([], q)"
| "drain front remove (Suc n) q =
     (case front q of
        None \<Rightarrow> Done ([], q)
      | Some x \<Rightarrow>
          and_then (remove q) (\<lambda>q'.
            and_then (drain front remove n q') (\<lambda>(xs, q''). Done (x # xs, q''))))"

locale packet_fifo =
  fixes contents :: "'q \<Rightarrow> 'a list"
    and valid :: "'a \<Rightarrow> bool"
    and empty :: 'q
    and put :: "'a \<Rightarrow> 'q \<Rightarrow> 'q"
    and front :: "'q \<Rightarrow> 'a option"
    and remove :: "'q \<Rightarrow> 'q outcome"
  assumes contents_empty: "contents empty = []"
    and contents_put: "valid x \<Longrightarrow> contents (put x q) = contents q @ [x]"
    and front_contents: "front q = (case contents q of [] \<Rightarrow> None | x # xs \<Rightarrow> Some x)"
    and remove_contents: "contents q = x # xs \<Longrightarrow> \<exists>q'. remove q = Done q' \<and> contents q' = xs"
begin

lemma contents_put_all:
  "list_all valid xs \<Longrightarrow> contents (fold put xs q) = contents q @ xs"
  by (induction xs arbitrary: q) (auto simp: contents_put)

lemma drain_contents:
  "\<exists>q'. drain front remove n q = Done (take n (contents q), q')
     \<and> contents q' = drop n (contents q)"
proof (induction n arbitrary: q)
  case 0
  then show ?case by simp
next
  case (Suc n)
  show ?case
  proof (cases "contents q")
    case Nil
    then show ?thesis by (simp add: front_contents)
  next
    case (Cons x xs)
    then obtain q' where "remove q = Done q'" and "contents q' = xs"
      using remove_contents by blast
    with Suc.IH [of q'] Cons show ?thesis
      by (auto simp: front_contents)
  qed
qed

lemma drain_in_order:
  assumes "list_all valid xs" and "length xs \<le> n"
  shows "\<exists>q'. drain front remove n (fold put xs empty) = Done (xs, q') \<and> contents q' = []"
  using drain_contents [of n "fold put xs empty"] assms
  by (simp add: contents_put_all contents_empty)

end

interpretation sb: packet_fifo packets "\<lambda>b. b \<noteq> []" SendingBuffer_new queue_buf first pop_front
  by unfold_locales
    (auto simp: SendingBuffer_new_def queue_buf_def first_def pop_front_def)

section \<open>Buffers are neither lost nor made\<close>

definition buffer_count :: "sending_buffer \<Rightarrow> nat" where
  "buffer_count s = length (packets s) + length (bufs s)"

text \<open>The two ways of filling a packet, and the removal after it is written to the device.\<close>

datatype buffer_op = FillBorrowed bytes | FillOwned bytes | Written

definition fill_borrowed :: "bytes \<Rightarrow> sending_buffer \<Rightarrow> sending_buffer outcome" where
  "fill_borrowed b s =
     (case get_mut (\<lambda>_. b) s of
        (False, s1) \<Rightarrow> Done s1
      | (True, s1) \<Rightarrow> queue_written s1)"

definition fill_owned :: "bytes \<Rightarrow> sending_buffer \<Rightarrow> sending_buffer" where
  "fill_owned b s =
     (case get_buf s of
        (None, s1) \<Rightarrow> s1
      | (Some v, s1) \<Rightarrow> queue_buf (v @ b) s1)"

fun buffer_step :: "sending_buffer \<Rightarrow> buffer_op \<Rightarrow> sending_buffer outcome" where
  "buffer_step s (FillBorrowed b) = fill_borrowed b s"
| "buffer_step s (FillOwned b) = Done (fill_owned b s)"
| "buffer_step s Written = (if first s = None then Done s else pop_front s)"

fun buffer_run :: "sending_buffer \<Rightarrow> buffer_op list \<Rightarrow> sending_buffer outcome" where
  "buffer_run s [] = Done s"
| "buffer_run s (x # xs) = and_then (buffer_step s x) (\<lambda>s'. buffer_run s' xs)"

lemma fill_borrowed_owned: "fill_borrowed b s = Done (fill_owned b s)"
  by (auto simp: fill_borrowed_def fill_owned_def get_mut_def get_buf_def queue_buf_def
      queue_written_def Let_def)

lemma buffer_count_fill_owned: "buffer_count (fill_owned b s) = buffer_count s"
  by (auto simp: fill_owned_def get_buf_def queue_buf_def buffer_count_def neq_Nil_conv
      simp flip: length_greater_0_conv)

lemma packets_fill_owned_subset: "set (packets (fill_owned b s)) \<subseteq> insert b (set (packets s))"
  by (auto simp: fill_owned_def get_buf_def queue_buf_def)

lemma packets_fill_owned_nonempty:
  "[] \<notin> set (packets s) \<Longrightarrow> [] \<notin> set (packets (fill_owned b s))"
  by (auto simp: fill_owned_def get_buf_def queue_buf_def)

lemma buffer_step_keeps:
  assumes "[] \<notin> set (packets s)"
  shows "\<exists>s'. buffer_step s op = Done s' \<and> buffer_count s' = buffer_count s
    \<and> [] \<notin> set (packets s')"
proof (cases op)
  case Written
  with assms show ?thesis
    by (cases "packets s") (auto simp: first_def pop_front_def buffer_count_def)
qed (use assms in \<open>auto simp: fill_borrowed_owned buffer_count_fill_owned packets_fill_owned_nonempty\<close>)

lemma buffer_run_keeps:
  assumes "[] \<notin> set (packets s)"
  shows "\<exists>s'. buffer_run s ops = Done s' \<and> buffer_count s' = buffer_count s
    \<and> [] \<notin> set (packets s')"
  using assms
proof (induction ops arbitrary: s)
  case Nil
  then show ?case by simp
next
  case (Cons op ops)
  obtain s1 where "buffer_step s op = Done s1" "buffer_count s1 = buffer_count s"
    "[] \<notin> set (packets s1)"
    using buffer_step_keeps [OF Cons.prems] by blast
  with Cons.IH [of s1] show ?case by auto
qed

section \<open>Properties of the sending buffer\<close>

text \<open>
  The buffer is a first-in first-out queue: packets that are queued are taken out in the same
  order, each once and unchanged, and the client's loop ends with an empty queue.
\<close>

theorem buffer_fifo:
  assumes "list_all (\<lambda>b. b \<noteq> []) xs" and "length xs \<le> n"
  shows "\<exists>s. drain first pop_front n (fold queue_buf xs SendingBuffer_new) = Done (xs, s)
    \<and> packets s = []"
  using assms by (rule sb.drain_in_order)

theorem buffer_fifo_witness:
  "\<exists>s. drain first pop_front 3 (fold queue_buf [[1, 2], [3]] SendingBuffer_new) = Done ([[1, 2], [3]], s)
     \<and> packets s = []"
  using buffer_fifo [of "[[1, 2], [3]]" 3] by simp

text \<open>
  Filling a borrowed buffer in place and handing it over (\<open>get_mut\<close>, \<open>queue_written\<close>) is the
  same as taking a buffer, filling it and queueing it (\<open>get_buf\<close>, \<open>queue_buf\<close>); in
  particular \<open>queue_written\<close> does not panic there.
\<close>

theorem borrowed_equals_owned: "fill_borrowed b s = Done (fill_owned b s)"
  by (rule fill_borrowed_owned)

text \<open>
  (C40) From a new buffer, no sequence of fillings and writes panics, loses a buffer or makes
  one, and no empty packet is ever queued.
\<close>

theorem buffers_conserved:
  "\<exists>s. buffer_run SendingBuffer_new ops = Done s
     \<and> length (packets s) + length (bufs s) = NUM_BUFFS \<and> [] \<notin> set (packets s)"
  using buffer_run_keeps [of SendingBuffer_new ops]
  by (auto simp: SendingBuffer_new_def buffer_count_def)

end
